(* ===== verification/Prelude.thy ===== *)
theory Prelude
  imports Main "HOL-Library.Word"
begin

text \<open>
  Shared vocabulary of the development: the machine types of the Rust sources, the
  spelling of byte literals, the outcome types of fallible and of asynchronous
  functions, checked arithmetic, bounds-checked slices, the ASCII classes and UTF-8
  validation of the standard library, and the generic lemmas that the component
  theories use through the collections \<open>wire_simps\<close>, \<open>result_simps\<close> and \<open>ascii_simps\<close>.

  Conventions. A \<open>u8\<close> is \<^typ>\<open>8 word\<close>, a \<open>u16\<close> is \<^typ>\<open>16 word\<close>, a \<open>u32\<close> is \<^typ>\<open>32 word\<close>.
  A \<open>usize\<close> is a \<^typ>\<open>nat\<close> with the bound \<open>usize_max\<close> of the 64-bit targets written
  out wherever the source checks an addition or a multiplication. A \<open>&str\<close> or \<open>String\<close>
  is the list of its UTF-8 bytes. An access outside a slice is the value \<open>Panic\<close> (or
  \<open>None\<close> of the slice helpers), never an unspecified value of HOL.
\<close>

named_theorems wire_simps \<open>unfolding of the byte literals of the sources\<close>
named_theorems result_simps \<open>elimination of sequenced results\<close>
named_theorems ascii_simps \<open>the byte classes, unfolded\<close>

section \<open>Machine types\<close>

type_synonym byte = "8 word"
type_synonym bytes = "8 word list"
type_synonym u16 = "16 word"
type_synonym u32 = "32 word"

definition usize_max :: nat where
  "usize_max = 2 ^ 64 - 1"

definition isize_max :: nat where
  "isize_max = 2 ^ 63 - 1"

section \<open>Results\<close>

text \<open>
  \<open>Result<T, E>\<close> with a third value for a panic (an index out of range, an arithmetic
  underflow of an index). Showing that \<open>Panic\<close> is never returned is part of the
  properties of each component.
\<close>

datatype ('a, 'e) result = Ok 'a | Err 'e | Panic

definition bind :: "('a, 'e) result \<Rightarrow> ('a \<Rightarrow> ('b, 'e) result) \<Rightarrow> ('b, 'e) result" where
  "bind r f = (case r of Ok x \<Rightarrow> f x | Err e \<Rightarrow> Err e | Panic \<Rightarrow> Panic)"

definition map_err :: "('e \<Rightarrow> 'f) \<Rightarrow> ('a, 'e) result \<Rightarrow> ('a, 'f) result" where
  "map_err g r = (case r of Ok x \<Rightarrow> Ok x | Err e \<Rightarrow> Err (g e) | Panic \<Rightarrow> Panic)"

definition ok_or :: "'a option \<Rightarrow> 'e \<Rightarrow> ('a, 'e) result" where
  "ok_or v e = (case v of None \<Rightarrow> Err e | Some x \<Rightarrow> Ok x)"

definition or_panic :: "'a option \<Rightarrow> ('a, 'e) result" where
  "or_panic v = (case v of None \<Rightarrow> Panic | Some x \<Rightarrow> Ok x)"

definition is_ok :: "('a, 'e) result \<Rightarrow> bool" where
  "is_ok r = (case r of Ok _ \<Rightarrow> True | _ \<Rightarrow> False)"

lemma bind_simps [simp]:
  "bind (Ok x) f = f x" "bind (Err e) f = Err e" "bind Panic f = Panic"
  by (simp_all add: bind_def)

lemma map_err_simps [simp]:
  "map_err g (Ok x) = Ok x" "map_err g (Err e) = Err (g e)" "map_err g Panic = Panic"
  by (simp_all add: map_err_def)

lemma ok_or_simps [simp]: "ok_or None e = Err e" "ok_or (Some x) e = Ok x"
  by (simp_all add: ok_or_def)

lemma or_panic_simps [simp]: "or_panic None = Panic" "or_panic (Some x) = Ok x"
  by (simp_all add: or_panic_def)

lemma is_ok_simps [simp]: "is_ok (Ok x)" "\<not> is_ok (Err e)" "\<not> is_ok Panic"
  by (simp_all add: is_ok_def)

lemma bind_eq_Ok [result_simps]: "bind r f = Ok y \<longleftrightarrow> (\<exists>x. r = Ok x \<and> f x = Ok y)"
  by (cases r) simp_all

lemma bind_eq_Err [result_simps]:
  "bind r f = Err e \<longleftrightarrow> r = Err e \<or> (\<exists>x. r = Ok x \<and> f x = Err e)"
  by (cases r) simp_all

lemma bind_eq_Panic [result_simps]:
  "bind r f = Panic \<longleftrightarrow> r = Panic \<or> (\<exists>x. r = Ok x \<and> f x = Panic)"
  by (cases r) simp_all

lemma map_err_eq_Ok [result_simps]: "map_err g r = Ok x \<longleftrightarrow> r = Ok x"
  by (cases r) simp_all

lemma map_err_eq_Panic [result_simps]: "map_err g r = Panic \<longleftrightarrow> r = Panic"
  by (cases r) simp_all

lemma ok_or_eq [result_simps]:
  "ok_or v e = Ok x \<longleftrightarrow> v = Some x" "ok_or v e = Err e' \<longleftrightarrow> v = None \<and> e' = e"
  "ok_or v e \<noteq> Panic"
  by (cases v; auto)+

lemma or_panic_eq [result_simps]:
  "or_panic v = Ok x \<longleftrightarrow> v = Some x" "or_panic v \<noteq> Err e'" "or_panic v = Panic \<longleftrightarrow> v = None"
  by (cases v; auto)+

section \<open>Checked arithmetic\<close>

definition usize_checked_add :: "nat \<Rightarrow> nat \<Rightarrow> nat option" where
  "usize_checked_add a b = (if a + b \<le> usize_max then Some (a + b) else None)"

definition usize_checked_mul :: "nat \<Rightarrow> nat \<Rightarrow> nat option" where
  "usize_checked_mul a b = (if a * b \<le> usize_max then Some (a * b) else None)"

definition word_checked_add :: "'a::len word \<Rightarrow> 'a word \<Rightarrow> 'a word option" where
  "word_checked_add a b = (if unat a + unat b < 2 ^ LENGTH('a) then Some (a + b) else None)"

definition word_checked_mul :: "'a::len word \<Rightarrow> 'a word \<Rightarrow> 'a word option" where
  "word_checked_mul a b = (if unat a * unat b < 2 ^ LENGTH('a) then Some (a * b) else None)"

lemma word_checked_add_Some:
  "word_checked_add a b = Some c \<longleftrightarrow> unat c = unat a + unat b"
proof
  assume "word_checked_add a b = Some c"
  then show "unat c = unat a + unat b"
    by (auto simp: word_checked_add_def unat_word_ariths split: if_splits)
next
  assume eq: "unat c = unat a + unat b"
  then have "unat a + unat b < 2 ^ LENGTH('a)"
    by (metis unsigned_less)
  moreover from this eq have "a + b = c"
    by (simp add: word_unat_eq_iff unat_word_ariths)
  ultimately show "word_checked_add a b = Some c"
    by (simp add: word_checked_add_def)
qed

lemma word_checked_mul_Some:
  "word_checked_mul a b = Some c \<longleftrightarrow> unat c = unat a * unat b"
proof
  assume "word_checked_mul a b = Some c"
  then show "unat c = unat a * unat b"
    by (auto simp: word_checked_mul_def unat_word_ariths split: if_splits)
next
  assume eq: "unat c = unat a * unat b"
  then have "unat a * unat b < 2 ^ LENGTH('a)"
    by (metis unsigned_less)
  moreover from this eq have "a * b = c"
    by (simp add: word_unat_eq_iff unat_word_ariths)
  ultimately show "word_checked_mul a b = Some c"
    by (simp add: word_checked_mul_def)
qed

section \<open>Bounds-checked slices\<close>

definition copy_at :: "'a list \<Rightarrow> nat \<Rightarrow> 'a list \<Rightarrow> 'a list option" where
  "copy_at buf pos src =
     (if pos + length src \<le> length buf
      then Some (take pos buf @ src @ drop (pos + length src) buf) else None)"

definition set_at :: "'a list \<Rightarrow> nat \<Rightarrow> 'a \<Rightarrow> 'a list option" where
  "set_at buf pos v = (if pos < length buf then Some (buf[pos := v]) else None)"

definition get_at :: "'a list \<Rightarrow> nat \<Rightarrow> 'a option" where
  "get_at buf pos = (if pos < length buf then Some (buf ! pos) else None)"

definition get_range :: "'a list \<Rightarrow> nat \<Rightarrow> nat \<Rightarrow> 'a list option" where
  "get_range buf lo hi =
     (if lo \<le> hi \<and> hi \<le> length buf then Some (take (hi - lo) (drop lo buf)) else None)"

lemma copy_at_length: "copy_at buf pos src = Some buf' \<Longrightarrow> length buf' = length buf"
  by (auto simp: copy_at_def split: if_splits)

lemma copy_at_take:
  "copy_at buf pos src = Some buf' \<Longrightarrow> take (pos + length src) buf' = take pos buf @ src"
  by (auto simp: copy_at_def split: if_splits)

lemma copy_at_drop:
  "copy_at buf pos src = Some buf' \<Longrightarrow> drop (pos + length src) buf' = drop (pos + length src) buf"
  by (auto simp: copy_at_def split: if_splits)

lemma take_list_update_Suc:
  "n < length xs \<Longrightarrow> take (Suc n) (xs[n := v]) = take n xs @ [v]"
  by (simp add: take_Suc_conv_app_nth)

section \<open>Wiping\<close>

text \<open>
  The contract of \<open>Zeroize::zeroize\<close> on a byte slice: the length stays and every byte
  becomes zero.
\<close>

definition zeroize :: "bytes \<Rightarrow> bytes" where
  "zeroize bs = replicate (length bs) 0"

definition wiped :: "bytes \<Rightarrow> bool" where
  "wiped bs \<longleftrightarrow> (\<forall>b \<in> set bs. b = 0)"

lemma length_zeroize [simp]: "length (zeroize bs) = length bs"
  by (simp add: zeroize_def)

lemma wiped_zeroize [simp]: "wiped (zeroize bs)"
  by (simp add: zeroize_def wiped_def)

lemma wiped_Nil [simp]: "wiped []"
  by (simp add: wiped_def)

lemma wiped_append [simp]: "wiped (xs @ ys) \<longleftrightarrow> wiped xs \<and> wiped ys"
  by (auto simp: wiped_def)

lemma wiped_replicate [simp]: "wiped (replicate n 0)"
  by (simp add: wiped_def)

lemma wiped_drop: "wiped xs \<Longrightarrow> wiped (drop n xs)"
  by (auto simp: wiped_def dest: in_set_dropD)

lemma wiped_eq_replicate: "wiped xs \<longleftrightarrow> xs = replicate (length xs) 0"
  by (metis wiped_def replicate_eqI in_set_replicate)

section \<open>Diagnostics\<close>

text \<open>
  What the builders of \<open>core::fmt\<close> are given: a structure with named fields (the flag
  is \<open>finish_non_exhaustive\<close>), a tuple, a list, a number, a flag, an absent or present value,
  or fixed text.
\<close>

datatype dbg =
    DNum nat
  | DBool bool
  | DOpt "dbg option"
  | DText string
  | DList "dbg list"
  | DStruct string "(string \<times> dbg) list" bool
  | DTuple string "dbg list"

section \<open>Byte literals and prefixes\<close>

definition lit :: "string \<Rightarrow> bytes" where
  [wire_simps]: "lit s = map of_char s"

lemma length_lit [simp]: "length (lit s) = length s"
  by (simp add: lit_def)

abbreviation NUL :: byte where "NUL \<equiv> 0x00"
abbreviation TAB :: byte where "TAB \<equiv> 0x09"
abbreviation LF :: byte where "LF \<equiv> 0x0A"
abbreviation CR :: byte where "CR \<equiv> 0x0D"
abbreviation SP :: byte where "SP \<equiv> 0x20"
abbreviation HASH :: byte where "HASH \<equiv> 0x23"
abbreviation PERCENT :: byte where "PERCENT \<equiv> 0x25"
abbreviation LPAREN :: byte where "LPAREN \<equiv> 0x28"
abbreviation RPAREN :: byte where "RPAREN \<equiv> 0x29"
abbreviation MINUS :: byte where "MINUS \<equiv> 0x2D"
abbreviation ZERO :: byte where "ZERO \<equiv> 0x30"
abbreviation COLON :: byte where "COLON \<equiv> 0x3A"
abbreviation EQUALS :: byte where "EQUALS \<equiv> 0x3D"
abbreviation UNDERSCORE :: byte where "UNDERSCORE \<equiv> 0x5F"

fun strip_prefix :: "bytes \<Rightarrow> bytes \<Rightarrow> bytes option" where
  "strip_prefix [] xs = Some xs"
| "strip_prefix (p # ps) [] = None"
| "strip_prefix (p # ps) (x # xs) = (if x = p then strip_prefix ps xs else None)"

definition strip_suffix :: "bytes \<Rightarrow> bytes \<Rightarrow> bytes option" where
  "strip_suffix suf xs = map_option rev (strip_prefix (rev suf) (rev xs))"

definition starts_with :: "bytes \<Rightarrow> bytes \<Rightarrow> bool" where
  "starts_with p xs = (strip_prefix p xs \<noteq> None)"

lemma strip_prefix_Some: "strip_prefix p xs = Some ys \<longleftrightarrow> xs = p @ ys"
  by (induction p xs rule: strip_prefix.induct) auto

lemma strip_prefix_append [simp]: "strip_prefix p (p @ ys) = Some ys"
  by (simp add: strip_prefix_Some)

lemma strip_suffix_Some: "strip_suffix p xs = Some ys \<longleftrightarrow> xs = ys @ p"
proof -
  have "strip_suffix p xs = Some ys \<longleftrightarrow> rev xs = rev p @ rev ys"
    by (auto simp: strip_suffix_def strip_prefix_Some intro: exI [of _ "rev ys"])
  also have "\<dots> \<longleftrightarrow> xs = ys @ p"
    by (metis rev_append rev_rev_ident)
  finally show ?thesis .
qed

lemma starts_with_iff: "starts_with p xs \<longleftrightarrow> (\<exists>ys. xs = p @ ys)"
  by (auto simp: starts_with_def simp flip: strip_prefix_Some)

section \<open>The ASCII classes of the standard library\<close>

definition is_ascii_digit :: "byte \<Rightarrow> bool" where
  [ascii_simps]: "is_ascii_digit b \<longleftrightarrow> 0x30 \<le> b \<and> b \<le> 0x39"

definition is_ascii_alphabetic :: "byte \<Rightarrow> bool" where
  [ascii_simps]: "is_ascii_alphabetic b \<longleftrightarrow> (0x41 \<le> b \<and> b \<le> 0x5A) \<or> (0x61 \<le> b \<and> b \<le> 0x7A)"

definition is_ascii_hexdigit :: "byte \<Rightarrow> bool" where
  [ascii_simps]: "is_ascii_hexdigit b \<longleftrightarrow>
     (0x30 \<le> b \<and> b \<le> 0x39) \<or> (0x41 \<le> b \<and> b \<le> 0x46) \<or> (0x61 \<le> b \<and> b \<le> 0x66)"

definition is_ascii_graphic :: "byte \<Rightarrow> bool" where
  [ascii_simps]: "is_ascii_graphic b \<longleftrightarrow> 0x21 \<le> b \<and> b \<le> 0x7E"

text \<open>\<open>is_ascii_whitespace\<close>: space, horizontal tab, line feed, form feed, carriage return.\<close>

definition is_ascii_whitespace :: "byte \<Rightarrow> bool" where
  [ascii_simps]: "is_ascii_whitespace b \<longleftrightarrow> b = 0x20 \<or> b = 0x09 \<or> b = 0x0A \<or> b = 0x0C \<or> b = 0x0D"

text \<open>\<open>trim_ascii\<close> removes leading and trailing ASCII whitespace.\<close>

definition trim_ascii :: "bytes \<Rightarrow> bytes" where
  "trim_ascii bs =
     rev (dropWhile is_ascii_whitespace (rev (dropWhile is_ascii_whitespace bs)))"

lemma ascii_digit_graphic: "is_ascii_digit b \<Longrightarrow> is_ascii_graphic b"
  unfolding ascii_simps by unat_arith

section \<open>UTF-8\<close>

text \<open>
  \<open>core::str::from_utf8\<close> accepts exactly the well-formed sequences: no overlong forms,
  no surrogates, nothing above U+10FFFF. \<open>utf8_step\<close> gives the length of the first
  scalar value of a byte string.
\<close>

definition cont_byte :: "byte \<Rightarrow> bool" where
  "cont_byte b \<longleftrightarrow> 0x80 \<le> b \<and> b \<le> 0xBF"

fun utf8_second :: "byte \<Rightarrow> byte \<Rightarrow> bool" where
  "utf8_second lead b =
     (if lead = 0xE0 then 0xA0 \<le> b \<and> b \<le> 0xBF
      else if lead = 0xED then 0x80 \<le> b \<and> b \<le> 0x9F
      else if lead = 0xF0 then 0x90 \<le> b \<and> b \<le> 0xBF
      else if lead = 0xF4 then 0x80 \<le> b \<and> b \<le> 0x8F
      else cont_byte b)"

definition utf8_width :: "byte \<Rightarrow> nat" where
  "utf8_width lead =
     (if lead \<le> 0x7F then 1
      else if 0xC2 \<le> lead \<and> lead \<le> 0xDF then 2
      else if 0xE0 \<le> lead \<and> lead \<le> 0xEF then 3
      else if 0xF0 \<le> lead \<and> lead \<le> 0xF4 then 4
      else 0)"

fun utf8_step :: "bytes \<Rightarrow> nat option" where
  "utf8_step [] = None"
| "utf8_step (b # bs) =
     (let n = utf8_width b in
      if n = 0 \<or> length bs < n - 1 then None
      else if n = 1 then Some 1
      else if utf8_second b (hd bs) \<and> list_all cont_byte (take (n - 2) (tl bs)) then Some n
      else None)"

lemma utf8_step_pos: "utf8_step bs = Some n \<Longrightarrow> 0 < n \<and> n \<le> length bs"
  by (cases bs) (auto simp: Let_def split: if_splits)

function chars :: "bytes \<Rightarrow> bytes list option" where
  "chars bs =
     (if bs = [] then Some []
      else case utf8_step bs of
        None \<Rightarrow> None
      | Some n \<Rightarrow> map_option ((#) (take n bs)) (chars (drop n bs)))"
  by pat_completeness auto
termination
  by (relation "measure length") (auto dest: utf8_step_pos)

declare chars.simps [simp del]

definition utf8_valid :: "bytes \<Rightarrow> bool" where
  "utf8_valid bs \<longleftrightarrow> chars bs \<noteq> None"

definition from_utf8 :: "bytes \<Rightarrow> 'e \<Rightarrow> (bytes, 'e) result" where
  "from_utf8 bs e = (if utf8_valid bs then Ok bs else Err e)"

lemma chars_concat: "chars bs = Some cs \<Longrightarrow> concat cs = bs"
proof (induction bs arbitrary: cs rule: chars.induct)
  case (1 bs)
  show ?case
  proof (cases "bs = []")
    case True
    with "1.prems" show ?thesis by (simp add: chars.simps)
  next
    case False
    with "1.prems" obtain n cs' where n: "utf8_step bs = Some n"
      and cs': "chars (drop n bs) = Some cs'" and cs: "cs = take n bs # cs'"
      by (auto simp: chars.simps [of bs] split: option.splits)
    from "1.IH" [OF False n cs'] cs show ?thesis by simp
  qed
qed

lemma chars_width: "chars bs = Some cs \<Longrightarrow> c \<in> set cs \<Longrightarrow> 0 < length c \<and> length c \<le> 4"
proof (induction bs arbitrary: cs rule: chars.induct)
  case (1 bs)
  show ?case
  proof (cases "bs = []")
    case True
    with "1.prems" show ?thesis by (simp add: chars.simps)
  next
    case False
    with "1.prems" obtain n cs' where n: "utf8_step bs = Some n"
      and cs': "chars (drop n bs) = Some cs'" and cs: "cs = take n bs # cs'"
      by (auto simp: chars.simps [of bs] split: option.splits)
    from n have "n \<le> 4"
      by (cases bs) (auto simp: Let_def utf8_width_def split: if_splits)
    with utf8_step_pos [OF n] have "0 < n \<and> n \<le> 4 \<and> n \<le> length bs" by simp
    with "1.IH" [OF False n cs'] cs "1.prems"(2) show ?thesis by auto
  qed
qed

lemma ascii_chars: "list_all (\<lambda>b. b \<le> 0x7F) bs \<Longrightarrow> chars bs = Some (map (\<lambda>b. [b]) bs)"
  by (induction bs) (simp_all add: chars.simps [of "_ # _"] chars.simps [of "[]"] utf8_width_def)

lemma ascii_utf8_valid: "list_all (\<lambda>b. b \<le> 0x7F) bs \<Longrightarrow> utf8_valid bs"
  by (simp add: utf8_valid_def ascii_chars)

end
