(* ===== verification/Secret.thy ===== *)
theory Secret
  imports Prelude
begin

text \<open>
  Protected storage: \<open>LimitError\<close>, \<open>extended_length\<close>, \<open>SecretBytes\<close>, \<open>SecretRef\<close>,
  \<open>Sensitivity\<close> and \<open>PayloadRef\<close> (\<open>assuan-protocol/src/error.rs\<close>, \<open>limits.rs\<close>,
  \<open>secret.rs\<close>). The allocator is a parameter: \<open>alloc n\<close> says that a reservation of \<open>n\<close>
  bytes succeeds. The locale \<open>bounded_store\<close> is the contract the clients of a
  fixed-capacity buffer rely on (the inquiry metadata, the response collector, the
  discovery reader); \<open>secret\<close> interprets it on \<open>SecretBytes\<close>.
\<close>

datatype LimitError = AllocationFailed | LengthOverflow | CapacityExceeded

definition limit_error_display :: "LimitError \<Rightarrow> string" where
  "limit_error_display e =
     (case e of
        AllocationFailed \<Rightarrow> ''storage allocation failed''
      | LengthOverflow \<Rightarrow> ''buffer length overflow''
      | CapacityExceeded \<Rightarrow> ''buffer capacity exceeded'')"

definition extended_length :: "nat \<Rightarrow> nat \<Rightarrow> nat \<Rightarrow> (nat, LimitError) result" where
  "extended_length current additional capacity =
     bind (ok_or (usize_checked_add current additional) LengthOverflow) (\<lambda>len.
       if len > capacity then Err CapacityExceeded else Ok len)"

section \<open>SecretBytes\<close>

record SecretBytes =
  sb_storage :: bytes
  sb_len :: nat

definition sb_with_capacity :: "(nat \<Rightarrow> bool) \<Rightarrow> nat \<Rightarrow> (SecretBytes, LimitError) result" where
  "sb_with_capacity alloc capacity =
     (if alloc capacity then Ok \<lparr>sb_storage = replicate capacity 0, sb_len = 0\<rparr>
      else Err AllocationFailed)"

definition sb_capacity :: "SecretBytes \<Rightarrow> nat" where
  "sb_capacity s = length (sb_storage s)"

definition sb_extend_from_slice ::
    "SecretBytes \<Rightarrow> bytes \<Rightarrow> (unit, LimitError) result \<times> SecretBytes" where
  "sb_extend_from_slice s bs =
     (case extended_length (sb_len s) (length bs) (sb_capacity s) of
        Ok end_pos \<Rightarrow>
          (case copy_at (sb_storage s) (sb_len s) bs of
             Some storage' \<Rightarrow> (Ok (), s\<lparr>sb_storage := storage', sb_len := end_pos\<rparr>)
           | None \<Rightarrow> (Panic, s))
      | Err e \<Rightarrow> (Err e, s)
      | Panic \<Rightarrow> (Panic, s))"

definition sb_expose :: "SecretBytes \<Rightarrow> bytes" where
  "sb_expose s = take (sb_len s) (sb_storage s)"

definition sb_clear :: "SecretBytes \<Rightarrow> SecretBytes" where
  "sb_clear s = s\<lparr>sb_storage := zeroize (sb_storage s), sb_len := 0\<rparr>"

definition sb_is_empty :: "SecretBytes \<Rightarrow> bool" where
  "sb_is_empty s \<longleftrightarrow> sb_len s = 0"

definition sb_debug :: "SecretBytes \<Rightarrow> dbg" where
  "sb_debug s =
     DStruct ''SecretBytes'' [(''len'', DNum (sb_len s)), (''capacity'', DNum (sb_capacity s))] True"

record SecretRef =
  sr_bytes :: bytes

definition sr_new :: "bytes \<Rightarrow> SecretRef" where
  "sr_new bs = \<lparr>sr_bytes = bs\<rparr>"

definition sr_expose :: "SecretRef \<Rightarrow> bytes" where
  "sr_expose r = sr_bytes r"

definition sr_debug :: "SecretRef \<Rightarrow> dbg" where
  "sr_debug r = DStruct ''SecretRef'' [(''len'', DNum (length (sr_bytes r)))] True"

datatype Sensitivity = Public | Secret

datatype PayloadRef = PublicPayload bytes | SecretPayload SecretRef

fun payload_debug :: "PayloadRef \<Rightarrow> dbg" where
  "payload_debug (PublicPayload bs) = DStruct ''Public'' [(''len'', DNum (length bs))] True"
| "payload_debug (SecretPayload r) = DStruct ''Secret'' [(''len'', DNum (length (sr_bytes r)))] True"

section \<open>Invariant and operations\<close>

definition sb_invar :: "SecretBytes \<Rightarrow> bool" where
  "sb_invar s \<longleftrightarrow> sb_len s \<le> length (sb_storage s) \<and> length (sb_storage s) \<le> isize_max"

lemma isize_le_usize: "isize_max + isize_max < usize_max"
  by (simp add: isize_max_def usize_max_def)

lemma extended_length_cases:
  assumes "capacity \<le> usize_max"
  shows "extended_length current additional capacity =
    (if current + additional \<le> capacity then Ok (current + additional)
     else if current + additional \<le> usize_max then Err CapacityExceeded
     else Err LengthOverflow)"
  using assms by (auto simp: extended_length_def usize_checked_add_def)

lemma sb_extend_fits:
  assumes "sb_invar s" and "sb_len s + length bs \<le> sb_capacity s"
  shows "sb_extend_from_slice s bs =
    (Ok (), s\<lparr>sb_storage := take (sb_len s) (sb_storage s) @ bs @ drop (sb_len s + length bs) (sb_storage s),
              sb_len := sb_len s + length bs\<rparr>)"
proof -
  have "sb_capacity s \<le> usize_max"
    using assms(1) isize_le_usize by (simp add: sb_invar_def sb_capacity_def)
  then show ?thesis
    using assms
    by (simp add: sb_extend_from_slice_def extended_length_cases copy_at_def sb_capacity_def)
qed

lemma sb_extend_overflows:
  assumes "sb_invar s" and "\<not> sb_len s + length bs \<le> sb_capacity s"
  shows "\<exists>e. sb_extend_from_slice s bs = (Err e, s)"
proof -
  have "sb_capacity s \<le> usize_max"
    using assms(1) isize_le_usize by (simp add: sb_invar_def sb_capacity_def)
  then show ?thesis
    using assms by (simp add: sb_extend_from_slice_def extended_length_cases)
qed

section \<open>The contract of a bounded store\<close>

locale bounded_store =
  fixes invar :: "'b \<Rightarrow> bool"
    and contents :: "'b \<Rightarrow> bytes"
    and capacity :: "'b \<Rightarrow> nat"
    and extend :: "'b \<Rightarrow> bytes \<Rightarrow> (unit, LimitError) result \<times> 'b"
    and clear :: "'b \<Rightarrow> 'b"
  assumes contents_le: "invar b \<Longrightarrow> length (contents b) \<le> capacity b"
    and extend_fits: "invar b \<Longrightarrow> length (contents b) + length xs \<le> capacity b \<Longrightarrow>
      \<exists>b'. extend b xs = (Ok (), b') \<and> invar b' \<and> contents b' = contents b @ xs
         \<and> capacity b' = capacity b"
    and extend_full: "invar b \<Longrightarrow> capacity b < length (contents b) + length xs \<Longrightarrow>
      \<exists>e. extend b xs = (Err e, b)"
    and clear_spec: "invar b \<Longrightarrow> invar (clear b) \<and> contents (clear b) = [] \<and> capacity (clear b) = capacity b"
begin

text \<open>Appending a sequence of pieces, stopping at the first failure.\<close>

fun extend_all :: "'b \<Rightarrow> bytes list \<Rightarrow> (unit, LimitError) result \<times> 'b" where
  "extend_all b [] = (Ok (), b)"
| "extend_all b (x # xs) =
     (case extend b x of
        (Ok _, b') \<Rightarrow> extend_all b' xs
      | (Err e, b') \<Rightarrow> (Err e, b')
      | (Panic, b') \<Rightarrow> (Panic, b'))"

lemma extend_step:
  assumes "invar b"
  shows "(\<exists>b'. extend b xs = (Ok (), b') \<and> invar b' \<and> contents b' = contents b @ xs
            \<and> capacity b' = capacity b)
       \<or> (\<exists>e. extend b xs = (Err e, b) \<and> capacity b < length (contents b) + length xs)"
  using assms extend_fits [of b xs] extend_full [of b xs] by (meson not_le)

lemma extend_never_panics: "invar b \<Longrightarrow> fst (extend b xs) \<noteq> Panic"
  using extend_step [of b xs] by auto

lemma extend_all_fits:
  "invar b \<Longrightarrow> length (contents b) + length (concat xs) \<le> capacity b \<Longrightarrow>
     \<exists>b'. extend_all b xs = (Ok (), b') \<and> invar b' \<and> contents b' = contents b @ concat xs
        \<and> capacity b' = capacity b"
proof (induction xs arbitrary: b)
  case Nil
  then show ?case by simp
next
  case (Cons x xs)
  from Cons.prems have "length (contents b) + length x \<le> capacity b" by simp
  then obtain b' where b': "extend b x = (Ok (), b')" "invar b'" "contents b' = contents b @ x"
    "capacity b' = capacity b"
    using extend_fits Cons.prems(1) by blast
  with Cons.prems have "length (contents b') + length (concat xs) \<le> capacity b'" by simp
  from Cons.IH [OF b'(2) this] b' show ?case by auto
qed

end

interpretation secret: bounded_store sb_invar sb_expose sb_capacity sb_extend_from_slice sb_clear
proof (unfold_locales, goal_cases)
  case (1 s)
  then show ?case by (simp add: sb_invar_def sb_expose_def sb_capacity_def)
next
  case (2 s xs)
  then have fits: "sb_len s + length xs \<le> sb_capacity s"
    by (simp add: sb_invar_def sb_expose_def)
  with 2 show ?case
    by (simp add: sb_extend_fits sb_invar_def sb_expose_def sb_capacity_def)
next
  case (3 s xs)
  then have "\<not> sb_len s + length xs \<le> sb_capacity s"
    by (simp add: sb_invar_def sb_expose_def)
  with 3 show ?case by (simp add: sb_extend_overflows)
next
  case (4 s)
  then show ?case by (simp add: sb_clear_def sb_invar_def sb_expose_def sb_capacity_def)
qed

lemma sb_with_capacity_invar:
  assumes "\<And>n. alloc n \<Longrightarrow> n \<le> isize_max" and "sb_with_capacity alloc n = Ok s"
  shows "sb_invar s \<and> sb_expose s = [] \<and> sb_capacity s = n \<and> wiped (sb_storage s)"
  using assms by (auto simp: sb_with_capacity_def sb_invar_def sb_expose_def sb_capacity_def split: if_splits)

end
