(* ===== verification/Escape.thy ===== *)
theory Escape
  imports Prelude
begin

text \<open>
  The protocol error type and the percent decoder of data lines
  (\<open>assuan-protocol/src/error.rs\<close>, \<open>escape.rs\<close>). The decoder works in place: a first
  pass over the whole slice validates every escape, a second pass writes decoded bytes
  behind the read position. \<open>decode\<close> is the reference decoder on lists; the theorem
  \<open>decode_in_place_correct\<close> states that the in-place loops compute it, leave the
  trailing bytes alone, and leave the input unchanged on an error.
\<close>

datatype ProtocolError =
    InvalidLine
  | InvalidToken
  | InvalidResponse
  | InvalidErrorCode
  | InvalidEscape
  | LineTooLong
  | UnexpectedEof

definition protocol_error_display :: "ProtocolError \<Rightarrow> string" where
  "protocol_error_display e =
     (case e of
        InvalidLine \<Rightarrow> ''invalid byte in protocol line''
      | InvalidToken \<Rightarrow> ''invalid protocol token''
      | InvalidResponse \<Rightarrow> ''invalid server response''
      | InvalidErrorCode \<Rightarrow> ''invalid remote error code''
      | InvalidEscape \<Rightarrow> ''invalid percent escape''
      | LineTooLong \<Rightarrow> ''protocol line exceeds wire limit''
      | UnexpectedEof \<Rightarrow> ''incomplete protocol line at EOF'')"

definition hex :: "byte \<Rightarrow> byte option" where
  "hex b =
     (if 0x30 \<le> b \<and> b \<le> 0x39 then Some (b - 0x30)
      else if 0x61 \<le> b \<and> b \<le> 0x66 then Some (b - 0x61 + 10)
      else if 0x41 \<le> b \<and> b \<le> 0x46 then Some (b - 0x41 + 10)
      else None)"

text \<open>The validation pass.\<close>

function decode_validate :: "bytes \<Rightarrow> nat \<Rightarrow> (unit, ProtocolError) result" where
  "decode_validate bs read =
     (if read < length bs then
        if bs ! read = PERCENT then
          if length bs - read < 3 \<or> hex (bs ! (read + 1)) = None \<or> hex (bs ! (read + 2)) = None
          then Err InvalidEscape
          else decode_validate bs (read + 3)
        else decode_validate bs (read + 1)
      else Ok ())"
  by pat_completeness auto
termination
  by (relation "measure (\<lambda>(bs, read). length bs - read)") auto

text \<open>The writing pass; \<open>None\<close> is an index out of range.\<close>

function decode_write :: "bytes \<Rightarrow> nat \<Rightarrow> nat \<Rightarrow> (nat \<times> bytes) option" where
  "decode_write bs read written =
     (if read < length bs then
        if bs ! read = PERCENT then
          if read + 2 < length bs \<and> written < length bs then
            let high = (case hex (bs ! (read + 1)) of Some h \<Rightarrow> h | None \<Rightarrow> 0);
                low = (case hex (bs ! (read + 2)) of Some l \<Rightarrow> l | None \<Rightarrow> 0)
            in decode_write (bs[written := high * 16 + low]) (read + 3) (written + 1)
          else None
        else if written < length bs then
          decode_write (bs[written := bs ! read]) (read + 1) (written + 1)
        else None
      else Some (written, bs))"
  by pat_completeness auto
termination
  by (relation "measure (\<lambda>(bs, read, written). length bs - read)") auto

declare decode_validate.simps [simp del] decode_write.simps [simp del]

definition decode_data_in_place :: "bytes \<Rightarrow> (nat, ProtocolError) result \<times> bytes" where
  "decode_data_in_place bs =
     (case decode_validate bs 0 of
        Ok _ \<Rightarrow>
          (case decode_write bs 0 0 of
             Some (written, bs') \<Rightarrow> (Ok written, bs')
           | None \<Rightarrow> (Panic, bs))
      | Err e \<Rightarrow> (Err e, bs)
      | Panic \<Rightarrow> (Panic, bs))"

section \<open>The reference decoder\<close>

fun decode :: "bytes \<Rightarrow> bytes option" where
  "decode [] = Some []"
| "decode (b # bs) =
     (if b = PERCENT then
        (case bs of
           h # l # rest \<Rightarrow>
             (case (hex h, hex l) of
                (Some x, Some y) \<Rightarrow> map_option ((#) (x * 16 + y)) (decode rest)
              | _ \<Rightarrow> None)
         | _ \<Rightarrow> None)
      else map_option ((#) b) (decode bs))"

lemma decode_Nil_iff: "decode bs = Some [] \<longleftrightarrow> bs = []"
  by (cases bs) (auto split: list.splits option.splits)

lemma decode_length: "decode bs = Some ds \<Longrightarrow> length ds \<le> length bs"
  by (induction bs arbitrary: ds rule: decode.induct)
    (fastforce split: if_splits list.splits option.splits)+

lemma drop_nth3:
  assumes "n + 2 < length xs"
  shows "drop n xs = xs ! n # xs ! (n + 1) # xs ! (n + 2) # drop (n + 3) xs"
proof -
  have "drop n xs = xs ! n # drop (Suc n) xs"
    using assms by (simp add: Cons_nth_drop_Suc)
  also have "drop (Suc n) xs = xs ! (n + 1) # drop (Suc (Suc n)) xs"
    using assms by (simp add: Cons_nth_drop_Suc [of "Suc n"])
  also have "drop (Suc (Suc n)) xs = xs ! (n + 2) # drop (n + 3) xs"
    using assms by (simp add: Cons_nth_drop_Suc [of "Suc (Suc n)"] numeral_3_eq_3)
  finally show ?thesis .
qed

lemma decode_at_escape:
  assumes "read < length bs" and "bs ! read = PERCENT"
  shows "decode (drop read bs) =
    (if read + 2 < length bs then
       (case (hex (bs ! (read + 1)), hex (bs ! (read + 2))) of
          (Some x, Some y) \<Rightarrow> map_option ((#) (x * 16 + y)) (decode (drop (read + 3) bs))
        | _ \<Rightarrow> None)
     else None)"
proof (cases "read + 2 < length bs")
  case True
  then show ?thesis using assms by (simp add: drop_nth3)
next
  case False
  have "drop read bs = PERCENT # drop (Suc read) bs"
    using assms by (metis Cons_nth_drop_Suc)
  moreover have "length (drop (Suc read) bs) < 2"
    using False assms by simp
  ultimately show ?thesis
    using False by (auto split: list.splits simp del: length_drop)
qed

lemma decode_at_plain:
  assumes "read < length bs" and "bs ! read \<noteq> PERCENT"
  shows "decode (drop read bs) = map_option ((#) (bs ! read)) (decode (drop (read + 1) bs))"
proof -
  have "drop read bs = bs ! read # drop (read + 1) bs"
    using assms by (simp add: Cons_nth_drop_Suc)
  then show ?thesis using assms by simp
qed

lemma decode_validate_iff:
  "decode_validate bs read =
     (if decode (drop read bs) = None then Err InvalidEscape else Ok ())"
proof (induction bs read rule: decode_validate.induct)
  case (1 bs read)
  consider (fin) "\<not> read < length bs"
    | (esc) "read < length bs" "bs ! read = PERCENT"
    | (plain) "read < length bs" "bs ! read \<noteq> PERCENT" by blast
  then show ?case
  proof cases
    case fin
    then show ?thesis by (simp add: decode_validate.simps [of bs read])
  next
    case esc
    show ?thesis
    proof (cases "length bs - read < 3 \<or> hex (bs ! (read + 1)) = None \<or> hex (bs ! (read + 2)) = None")
      case True
      with esc show ?thesis
        by (auto simp: decode_validate.simps [of bs read] decode_at_escape split: option.splits)
    next
      case False
      with esc 1 have "decode_validate bs read =
        (if decode (drop (read + 3) bs) = None then Err InvalidEscape else Ok ())"
        by (auto simp: decode_validate.simps [of bs read])
      with esc False show ?thesis
        by (auto simp: decode_at_escape split: option.splits)
    qed
  next
    case plain
    with 1 have "decode_validate bs read =
        (if decode (drop (read + 1) bs) = None then Err InvalidEscape else Ok ())"
      by (simp add: decode_validate.simps [of bs read])
    with plain show ?thesis by (simp add: decode_at_plain)
  qed
qed

text \<open>
  The loop invariant of the writing pass: the write position never passes the read
  position, so the unread suffix is still the input's.
\<close>

lemma decode_write_spec:
  "written \<le> read \<Longrightarrow> read \<le> length bs \<Longrightarrow> decode (drop read bs) = Some ds \<Longrightarrow>
     decode_write bs read written =
       Some (written + length ds, take written bs @ ds @ drop (written + length ds) bs)"
proof (induction bs read written arbitrary: ds rule: decode_write.induct)
  case (1 bs read written)
  consider (fin) "read = length bs"
    | (esc) "read < length bs" "bs ! read = PERCENT"
    | (plain) "read < length bs" "bs ! read \<noteq> PERCENT"
    using "1.prems"(2) by linarith
  then show ?case
  proof cases
    case fin
    with "1.prems" show ?thesis by (simp add: decode_write.simps [of bs "length bs"])
  next
    case esc
    with "1.prems"(3) obtain x y ds' where len: "read + 2 < length bs"
      and x: "hex (bs ! (read + 1)) = Some x" and y: "hex (bs ! (read + 2)) = Some y"
      and ds': "decode (drop (read + 3) bs) = Some ds'" and ds: "ds = (x * 16 + y) # ds'"
      by (auto simp: decode_at_escape split: if_splits option.splits)
    let ?bs = "bs[written := x * 16 + y]"
    from "1.prems" esc have w: "written < length bs" by simp
    have rest: "decode (drop (read + 3) ?bs) = Some ds'"
      using ds' "1.prems"(1) by (simp add: drop_update_cancel)
    have "decode_write bs read written = decode_write ?bs (read + 3) (written + 1)"
      using esc len w x y by (simp add: decode_write.simps [of bs read])
    also have "\<dots> = Some (written + 1 + length ds',
        take (written + 1) ?bs @ ds' @ drop (written + 1 + length ds') ?bs)"
      using "1.IH"(1) [OF esc, of x y ds'] len w x y rest "1.prems"(1) by simp
    finally show ?thesis
      using w ds by (simp add: take_Suc_conv_app_nth drop_update_cancel)
  next
    case plain
    with "1.prems"(3) obtain ds' where ds': "decode (drop (read + 1) bs) = Some ds'"
      and ds: "ds = bs ! read # ds'"
      by (auto simp: decode_at_plain)
    let ?bs = "bs[written := bs ! read]"
    from "1.prems" plain have w: "written < length bs" by simp
    have rest: "decode (drop (read + 1) ?bs) = Some ds'"
      using ds' "1.prems"(1) by (simp add: drop_update_cancel)
    have "decode_write bs read written = decode_write ?bs (read + 1) (written + 1)"
      using plain w by (simp add: decode_write.simps [of bs read])
    also have "\<dots> = Some (written + 1 + length ds',
        take (written + 1) ?bs @ ds' @ drop (written + 1 + length ds') ?bs)"
      using "1.IH"(2) [OF plain, of ds'] w rest "1.prems"(1) plain(1) by simp
    finally show ?thesis
      using w ds by (simp add: take_Suc_conv_app_nth drop_update_cancel)
  qed
qed

lemma decode_in_place_eq:
  "decode_data_in_place bs =
     (case decode bs of
        None \<Rightarrow> (Err InvalidEscape, bs)
      | Some ds \<Rightarrow> (Ok (length ds), ds @ drop (length ds) bs))"
  by (cases "decode bs")
    (simp_all add: decode_data_in_place_def decode_validate_iff decode_write_spec [of 0 0])

text \<open>
  C10: the in-place decoder computes the reference decoder. An invalid escape anywhere in
  the slice is reported before any byte is written, so the slice is unchanged; otherwise
  the returned count is the number of decoded bytes, the prefix of that length is the
  decoded data, the rest keeps its previous contents, and no index is out of range.
\<close>

theorem decode_in_place_correct:
  "decode_data_in_place bs =
     (case decode bs of
        None \<Rightarrow> (Err InvalidEscape, bs)
      | Some ds \<Rightarrow> (Ok (length ds), ds @ drop (length ds) bs))"
  by (rule decode_in_place_eq)

section \<open>Facts for the clients of the decoder\<close>

lemma decode_in_place_Err:
  "decode bs = None \<longleftrightarrow> fst (decode_data_in_place bs) = Err InvalidEscape"
  "fst (decode_data_in_place bs) \<noteq> Panic"
  by (simp_all add: decode_in_place_eq split: option.split)

lemma decode_in_place_length: "length (snd (decode_data_in_place bs)) = length bs"
  using decode_length [of bs] by (auto simp: decode_in_place_eq split: option.split)

lemma decode_append:
  "decode xs = Some xd \<Longrightarrow> decode (xs @ ys) = map_option ((@) xd) (decode ys)"
proof (induction xs arbitrary: xd rule: decode.induct)
  case 1
  then show ?case by (simp add: option.map_ident)
next
  case (2 b bs)
  show ?case
  proof (cases "b = PERCENT")
    case False
    with "2.prems" obtain xd' where "decode bs = Some xd'" "xd = b # xd'" by auto
    with False "2.IH"(2) show ?thesis by (cases "decode ys") simp_all
  next
    case True
    with "2.prems" obtain h l rest x y xd' where "bs = h # l # rest" "hex h = Some x"
      "hex l = Some y" "decode rest = Some xd'" "xd = (x * 16 + y) # xd'"
      by (auto split: list.splits option.splits)
    with True "2.IH"(1) show ?thesis by (cases "decode ys") simp_all
  qed
qed

end
