(* ===== verification/Command.thy ===== *)
theory Command
  imports Escape
begin

text \<open>
  Commands (\<open>assuan-protocol/src/command.rs\<close>): the token and line validators shared by
  the parsers and the encoders, the split at the first space, and the two constructors
  \<open>Command::new\<close> and \<open>Command::parse\<close>.
\<close>

record Command =
  cmd_name :: bytes
  cmd_args :: bytes

definition forbidden :: "byte \<Rightarrow> bool" where
  "forbidden b \<longleftrightarrow> b = NUL \<or> b = CR \<or> b = LF"

definition validate_line :: "bytes \<Rightarrow> (unit, ProtocolError) result" where
  "validate_line line = (if list_ex forbidden line then Err InvalidLine else Ok ())"

definition validate_token :: "bytes \<Rightarrow> (unit, ProtocolError) result" where
  "validate_token token =
     (if token = [] \<or> hd token = HASH
         \<or> \<not> list_all (\<lambda>b. is_ascii_graphic b \<and> b \<noteq> PERCENT) token
      then Err InvalidToken else Ok ())"

text \<open>\<open>position\<close> of the first space, then the two slices around it.\<close>

fun position :: "('a \<Rightarrow> bool) \<Rightarrow> 'a list \<Rightarrow> nat option" where
  "position p [] = None"
| "position p (x # xs) = (if p x then Some 0 else map_option Suc (position p xs))"

definition split_field :: "bytes \<Rightarrow> bytes \<times> bytes" where
  "split_field bs =
     (case position (\<lambda>b. b = SP) bs of
        Some index \<Rightarrow> (take index bs, drop (index + 1) bs)
      | None \<Rightarrow> (bs, []))"

definition Command_new :: "bytes \<Rightarrow> bytes \<Rightarrow> (Command, ProtocolError) result" where
  "Command_new name args =
     bind (validate_token name) (\<lambda>_.
     bind (validate_line args) (\<lambda>_.
     Ok \<lparr>cmd_name = name, cmd_args = args\<rparr>))"

definition Command_parse :: "bytes \<Rightarrow> (Command, ProtocolError) result" where
  "Command_parse line =
     bind (validate_line line) (\<lambda>_.
     let (name, args) = split_field line in
     bind (validate_token name) (\<lambda>_.
     bind (from_utf8 name InvalidToken) (\<lambda>name.
     Ok \<lparr>cmd_name = name, cmd_args = args\<rparr>)))"

definition command_debug :: "Command \<Rightarrow> dbg" where
  "command_debug c =
     DStruct ''Command'' [(''name_len'', DNum (length (cmd_name c))),
                          (''args_len'', DNum (length (cmd_args c)))] True"

section \<open>The validators\<close>

lemma forbidden_simps [simp]: "forbidden NUL" "forbidden CR" "forbidden LF" "\<not> forbidden SP"
  by (simp_all add: forbidden_def)

definition clean :: "bytes \<Rightarrow> bool" where
  "clean bs \<longleftrightarrow> \<not> list_ex forbidden bs"

definition token :: "bytes \<Rightarrow> bool" where
  "token t \<longleftrightarrow> t \<noteq> [] \<and> hd t \<noteq> HASH \<and> list_all (\<lambda>b. is_ascii_graphic b \<and> b \<noteq> PERCENT) t"

lemma clean_simps [simp]:
  "clean []" "clean (b # bs) \<longleftrightarrow> \<not> forbidden b \<and> clean bs" "clean (xs @ ys) \<longleftrightarrow> clean xs \<and> clean ys"
  by (simp_all add: clean_def)

lemma clean_set: "clean bs \<longleftrightarrow> (\<forall>b \<in> set bs. \<not> forbidden b)"
  by (induction bs) simp_all

lemma clean_take_drop: "clean bs \<Longrightarrow> clean (take n bs)" "clean bs \<Longrightarrow> clean (drop n bs)"
  by (auto simp: clean_set dest: in_set_takeD in_set_dropD)

lemma validate_line_eq: "validate_line bs = (if clean bs then Ok () else Err InvalidLine)"
  by (simp add: validate_line_def clean_def)

lemma validate_token_eq: "validate_token t = (if token t then Ok () else Err InvalidToken)"
  by (auto simp: validate_token_def token_def)

lemma graphic_byte:
  assumes "is_ascii_graphic b"
  shows "\<not> forbidden b" and "b \<noteq> SP" and "b \<le> 0x7F"
  using assms unfolding is_ascii_graphic_def forbidden_def by (auto; unat_arith)+

lemma token_clean: "token t \<Longrightarrow> clean t"
  by (auto simp: token_def clean_set list_all_iff dest: graphic_byte)

lemma token_no_space: "token t \<Longrightarrow> SP \<notin> set t"
  by (auto simp: token_def list_all_iff dest: graphic_byte)

text \<open>A validated token is ASCII, so the UTF-8 conversions after it never fail.\<close>

lemma token_utf8: "token t \<Longrightarrow> utf8_valid t"
  by (rule ascii_utf8_valid) (auto simp: token_def list_all_iff dest: graphic_byte(3))

section \<open>Splitting at the first space\<close>

lemma position_Some: "position p xs = Some n \<longleftrightarrow>
    n < length xs \<and> p (xs ! n) \<and> (\<forall>i < n. \<not> p (xs ! i))"
proof (induction xs arbitrary: n)
  case (Cons x xs)
  then show ?case by (cases n) (auto simp: less_Suc_eq_0_disj)
qed simp

lemma position_None: "position p xs = None \<longleftrightarrow> (\<forall>x \<in> set xs. \<not> p x)"
  by (induction xs) auto

lemma split_field_no_space: "SP \<notin> set bs \<Longrightarrow> split_field bs = (bs, [])"
proof -
  assume "SP \<notin> set bs"
  then have "position (\<lambda>b. b = SP) bs = None" by (auto simp: position_None)
  then show ?thesis by (simp add: split_field_def)
qed

lemma split_field_space:
  assumes "SP \<notin> set xs"
  shows "split_field (xs @ SP # ys) = (xs, ys)"
proof -
  have "position (\<lambda>b. b = SP) (xs @ SP # ys) = Some (length xs)"
    using assms by (auto simp: position_Some nth_append dest: nth_mem)
  then show ?thesis by (simp add: split_field_def)
qed

lemma split_field_cases:
  obtains "SP \<notin> set bs" "split_field bs = (bs, [])"
  | xs ys where "SP \<notin> set xs" "bs = xs @ SP # ys" "split_field bs = (xs, ys)"
proof (cases "SP \<in> set bs")
  case True
  then obtain xs ys where "bs = xs @ SP # ys" "SP \<notin> set xs"
    by (meson split_list_first)
  with that(2) show ?thesis by (simp add: split_field_space)
qed (use that(1) split_field_no_space in simp)

section \<open>The constructors\<close>

lemma Command_new_Ok:
  "Command_new name args = Ok c \<longleftrightarrow>
     token name \<and> clean args \<and> c = \<lparr>cmd_name = name, cmd_args = args\<rparr>"
  by (auto simp: Command_new_def validate_line_eq validate_token_eq)

lemma Command_parse_eq:
  "Command_parse line =
     (if \<not> clean line then Err InvalidLine
      else if token (fst (split_field line))
      then Ok \<lparr>cmd_name = fst (split_field line), cmd_args = snd (split_field line)\<rparr>
      else Err InvalidToken)"
  by (auto simp: Command_parse_def validate_line_eq validate_token_eq from_utf8_def token_utf8
      split: prod.splits)

lemma Command_parse_Ok:
  "Command_parse line = Ok c \<longleftrightarrow>
     token (cmd_name c) \<and> clean (cmd_args c)
     \<and> (line = cmd_name c @ SP # cmd_args c \<or> line = cmd_name c \<and> cmd_args c = [])"
  (is "_ \<longleftrightarrow> ?wf")
proof
  assume parsed: "Command_parse line = Ok c"
  then have "clean line" and c: "c = \<lparr>cmd_name = fst (split_field line), cmd_args = snd (split_field line)\<rparr>"
    and "token (fst (split_field line))"
    by (auto simp: Command_parse_eq split: if_splits)
  then show ?wf by (cases rule: split_field_cases [of line]) auto
next
  assume wf: ?wf
  then have "split_field line = (cmd_name c, cmd_args c)"
    using token_no_space split_field_space split_field_no_space by metis
  with wf show "Command_parse line = Ok c"
    by (auto simp: Command_parse_eq token_clean)
qed

section \<open>The grammar\<close>

text \<open>
  The documented grammar, byte by byte and apart from the validators: a name is nonempty,
  printable ASCII without the space (from 0x21 to 0x7E), has no percent sign (0x25) and does
  not begin with a hash (0x23); a line has no NUL, LF or CR; a command is a name, or a name,
  one space (0x20) and the arguments.
\<close>

definition well_formed_name :: "bytes \<Rightarrow> bool" where
  "well_formed_name n \<longleftrightarrow> (\<exists>b bs. n = b # bs \<and> b \<noteq> 0x23) \<and> (\<forall>b \<in> set n. 0x21 \<le> b \<and> b \<le> 0x7E \<and> b \<noteq> 0x25)"

definition plain_line :: "bytes \<Rightarrow> bool" where
  "plain_line bs \<longleftrightarrow> set bs \<inter> {0x00, 0x0A, 0x0D} = {}"

definition command_form :: "Command \<Rightarrow> bytes \<Rightarrow> bool" where
  "command_form c line \<longleftrightarrow> well_formed_name (cmd_name c) \<and> plain_line (cmd_args c)
     \<and> (line = cmd_name c @ [0x20] @ cmd_args c \<or> line = cmd_name c \<and> cmd_args c = [])"

lemma token_grammar: "token n \<longleftrightarrow> well_formed_name n"
  by (cases n) (auto simp: token_def well_formed_name_def is_ascii_graphic_def list_all_iff)

lemma clean_grammar: "clean bs \<longleftrightarrow> plain_line bs"
  by (auto simp: clean_set forbidden_def plain_line_def)

lemma Command_new_eq:
  "Command_new n args = (if \<not> token n then Err InvalidToken else if \<not> clean args then Err InvalidLine
     else Ok \<lparr>cmd_name = n, cmd_args = args\<rparr>)"
  by (simp add: Command_new_def validate_line_eq validate_token_eq)

text \<open>
  C18: The command parser follows the documented grammar. It accepts exactly the lines of
  the grammar and gives their name and every argument byte after the first space. A line with
  NUL, CR or LF is refused as \<open>InvalidLine\<close>, before anything is said about its name; every
  other line as \<open>InvalidToken\<close>, which is the case exactly when what stands before its first
  space is not a name. The constructor accepts the same names and arguments and refuses the
  name first.
\<close>

theorem command_parse_exact:
  "(Command_parse line = Ok c \<longleftrightarrow> command_form c line)
   \<and> (Command_parse line = Err InvalidLine \<longleftrightarrow> \<not> plain_line line)
   \<and> (Command_parse line = Err InvalidToken \<longleftrightarrow> plain_line line \<and> \<not> well_formed_name (takeWhile (\<lambda>b. b \<noteq> 0x20) line))
   \<and> Command_parse line \<in> range Ok \<union> {Err InvalidLine, Err InvalidToken}
   \<and> Command_new n args =
       (if \<not> well_formed_name n then Err InvalidToken else if \<not> plain_line args then Err InvalidLine
        else Ok \<lparr>cmd_name = n, cmd_args = args\<rparr>)"
proof -
  have name: "fst (split_field line) = takeWhile (\<lambda>b. b \<noteq> 0x20) line"
  proof (cases rule: split_field_cases [of line])
    case 1
    then have "takeWhile (\<lambda>b. b \<noteq> 0x20) line = line" by (auto simp: takeWhile_eq_all_conv)
    then show ?thesis unfolding 1(2) fst_conv by (rule sym)
  next
    case (2 xs ys)
    then have "takeWhile (\<lambda>b. b \<noteq> 0x20) xs = xs" by (auto simp: takeWhile_eq_all_conv)
    then show ?thesis using 2 by (auto simp: takeWhile_append)
  qed
  show ?thesis
    unfolding Command_parse_Ok Command_new_eq command_form_def token_grammar [symmetric] clean_grammar [symmetric] name [symmetric]
    by (auto simp: Command_parse_eq)
qed

end
