(* ===== verification/Decimal.thy ===== *)
theory Decimal
  imports Prelude
begin

text \<open>
  Decimal numerals on the wire: the error codes of \<open>ERR\<close> lines and the length prefixes
  of canonical S-expressions are both written without leading zeros and read digit by
  digit with checked arithmetic. \<open>dec\<close> is the numeral of a number, \<open>num\<close> the value of a
  digit string with an accumulator; the two lemmas \<open>num_dec\<close> and \<open>dec_num\<close> make them
  inverse on canonical numerals.
\<close>

fun dec :: "nat \<Rightarrow> bytes" where
  "dec n = (if n < 10 then [0x30 + of_nat n] else dec (n div 10) @ [0x30 + of_nat (n mod 10)])"

declare dec.simps [simp del]

definition digit :: "byte \<Rightarrow> nat" where
  "digit b = unat (b - 0x30)"

definition num :: "nat \<Rightarrow> bytes \<Rightarrow> nat" where
  "num acc ds = foldl (\<lambda>a d. a * 10 + digit d) acc ds"

lemma num_simps [simp]:
  "num acc [] = acc" "num acc (d # ds) = num (acc * 10 + digit d) ds"
  by (simp_all add: num_def)

lemma num_append: "num acc (xs @ ys) = num (num acc xs) ys"
  by (simp add: num_def)

lemma num_mono: "acc \<le> num acc ds"
proof (induction ds arbitrary: acc)
  case (Cons d ds)
  have "acc \<le> acc * 10 + digit d" by simp
  also have "\<dots> \<le> num (acc * 10 + digit d) ds" by (rule Cons.IH)
  finally show ?case by simp
qed simp

lemma digit_lt: "is_ascii_digit b \<Longrightarrow> digit b < 10"
  unfolding is_ascii_digit_def digit_def by unat_arith

lemma unat_0x30_plus: "k < 10 \<Longrightarrow> unat (0x30 + of_nat k :: byte) = 0x30 + k"
  by (simp add: unat_word_ariths unat_of_nat)

lemma digit_of_nat: "k < 10 \<Longrightarrow> digit (0x30 + of_nat k) = k"
  by (simp add: digit_def unat_of_nat)

lemma is_digit_of_nat: "k < 10 \<Longrightarrow> is_ascii_digit (0x30 + of_nat k)"
  by (simp add: is_ascii_digit_def word_le_nat_alt unat_0x30_plus)

lemma of_nat_digit:
  assumes "is_ascii_digit b"
  shows "0x30 + of_nat (digit b) = b"
  by (simp add: digit_def)

lemma dec_digits: "list_all is_ascii_digit (dec n)"
  by (induction n rule: dec.induct) (subst dec.simps, auto simp: is_digit_of_nat)

lemma dec_not_Nil [simp]: "dec n \<noteq> []"
  by (subst dec.simps) simp

lemma num_dec [simp]: "num 0 (dec n) = n"
proof (induction n rule: dec.induct)
  case (1 n)
  show ?case
  proof (cases "n < 10")
    case True
    then show ?thesis by (simp add: dec.simps [of n] digit_of_nat)
  next
    case False
    with 1 show ?thesis by (simp add: dec.simps [of n] num_append digit_of_nat)
  qed
qed

lemma length_dec: "0 < k \<Longrightarrow> n < 10 ^ k \<Longrightarrow> length (dec n) \<le> k"
proof (induction n arbitrary: k rule: dec.induct)
  case (1 n)
  show ?case
  proof (cases "n < 10")
    case True
    with 1 show ?thesis by (simp add: dec.simps [of n])
  next
    case False
    with "1.prems" obtain j where j: "k = Suc j" "0 < j"
      by (cases k; cases "k - 1") auto
    with "1.prems" have "n div 10 < 10 ^ j" by (simp add: less_mult_imp_div_less mult.commute)
    with "1.IH" [OF False j(2)] False j show ?thesis by (simp add: dec.simps [of n])
  qed
qed

lemma dec_unfold: "dec n = (if n div 10 = 0 then [] else dec (n div 10)) @ [0x30 + of_nat (n mod 10)]"
  by (subst dec.simps) (auto simp: div_eq_0_iff)

text \<open>A numeral has no leading zero: \<open>0\<close> itself is the only one that starts with the digit zero.\<close>

lemma dec_hd: "0 < n \<Longrightarrow> hd (dec n) \<noteq> 0x30"
proof (induction n rule: dec.induct)
  case (1 n)
  show ?case
  proof (cases "n < 10")
    case True
    with 1 have "digit (0x30 + of_nat n) = n" by (simp add: digit_of_nat)
    with "1.prems" True show ?thesis by (auto simp: dec.simps [of n] digit_def)
  next
    case False
    with 1 show ?thesis by (simp add: dec.simps [of n] hd_append)
  qed
qed

lemma dec_0: "dec 0 = [0x30]"
  by (simp add: dec.simps)

lemma dec_num:
  assumes "ds \<noteq> []" and "list_all is_ascii_digit ds" and "hd ds = 0x30 \<Longrightarrow> length ds = 1"
  shows "dec (num 0 ds) = ds"
  using assms
proof (induction ds rule: rev_induct)
  case (snoc d ds)
  from snoc.prems have d: "is_ascii_digit d" by simp
  then have lt: "digit d < 10" by (rule digit_lt)
  show ?case
  proof (cases "ds = []")
    case True
    with lt d show ?thesis by (simp add: dec.simps [of "digit d"] of_nat_digit)
  next
    case False
    with snoc have ih: "dec (num 0 ds) = ds"
      by (cases ds) auto
    from False snoc.prems have "hd ds \<noteq> 0x30" by auto
    with ih have nz: "num 0 ds \<noteq> 0" by (metis dec_0 list.sel(1))
    with lt have "(num 0 ds * 10 + digit d) div 10 = num 0 ds"
      and "(num 0 ds * 10 + digit d) mod 10 = digit d" by auto
    with nz ih d show ?thesis
      by (simp add: num_append dec_unfold [of "num 0 ds * 10 + digit d"] of_nat_digit)
  qed
qed simp

end
