(* ===== verification/Message.thy ===== *)
theory Message
  imports Command Decimal
begin

text \<open>
  Server responses (\<open>assuan-protocol/src/message.rs\<close> and \<open>ServerLine::kind\<close> of
  \<open>state/mod.rs\<close>): the response type, its parser with the checked decimal loop of \<open>ERR\<close>
  codes, the keyword parser, and the redacted diagnostics.
\<close>

datatype ServerLine =
    LineOk bytes
  | LineErr u32 bytes
  | LineData bytes
  | LineStatus bytes bytes
  | LineInquire bytes bytes
  | LineEnd
  | LineComment bytes
  | LineEmpty

datatype LineKind =
    KOk | KErr | KData | KStatus | KInquire | KEnd | KComment | KEmpty

definition kind :: "ServerLine \<Rightarrow> LineKind" where
  "kind l =
     (case l of
        LineOk _ \<Rightarrow> KOk
      | LineErr _ _ \<Rightarrow> KErr
      | LineData _ \<Rightarrow> KData
      | LineStatus _ _ \<Rightarrow> KStatus
      | LineInquire _ _ \<Rightarrow> KInquire
      | LineEnd \<Rightarrow> KEnd
      | LineComment _ \<Rightarrow> KComment
      | LineEmpty \<Rightarrow> KEmpty)"

fun parse_code :: "u32 \<Rightarrow> bytes \<Rightarrow> (u32, ProtocolError) result" where
  "parse_code code [] = Ok code"
| "parse_code code (d # ds) =
     (if \<not> is_ascii_digit d then Err InvalidErrorCode
      else bind (ok_or (Option.bind (word_checked_mul code 10)
                         (\<lambda>value. word_checked_add value (ucast (d - 0x30)))) InvalidErrorCode)
             (\<lambda>code'. parse_code code' ds))"

definition parse_keyword :: "bytes \<Rightarrow> (bytes \<times> bytes, ProtocolError) result" where
  "parse_keyword body =
     (let (keyword, args) = split_field body in
      bind (validate_token keyword) (\<lambda>_.
      if \<not> is_ascii_alphabetic (hd keyword) \<and> hd keyword \<noteq> UNDERSCORE then Err InvalidToken
      else bind (from_utf8 keyword InvalidToken) (\<lambda>keyword. Ok (keyword, args))))"

definition parse_server_line :: "bytes \<Rightarrow> (ServerLine, ProtocolError) result" where
  "parse_server_line line =
     bind (validate_line line) (\<lambda>_.
     if line = [] then Ok LineEmpty
     else case strip_prefix (lit ''#'') line of Some comment \<Rightarrow> Ok (LineComment comment) | None \<Rightarrow>
     if line = lit ''OK'' then Ok (LineOk [])
     else case strip_prefix (lit ''OK '') line of Some text \<Rightarrow> Ok (LineOk text) | None \<Rightarrow>
     case strip_prefix (lit ''ERR '') line of
       Some body \<Rightarrow>
         (let (number, text) = split_field body in
          if number = [] then Err InvalidErrorCode
          else bind (parse_code 0 number) (\<lambda>code. Ok (LineErr code text)))
     | None \<Rightarrow>
     case strip_prefix (lit ''D '') line of Some data \<Rightarrow> Ok (LineData data) | None \<Rightarrow>
     case strip_prefix (lit ''S '') line of
       Some body \<Rightarrow> bind (parse_keyword body) (\<lambda>(keyword, args). Ok (LineStatus keyword args))
     | None \<Rightarrow>
     case strip_prefix (lit ''INQUIRE '') line of
       Some body \<Rightarrow> bind (parse_keyword body) (\<lambda>(keyword, args). Ok (LineInquire keyword args))
     | None \<Rightarrow>
     if line = lit ''END'' then Ok LineEnd
     else Err InvalidResponse)"

definition field_debug :: "string \<Rightarrow> bytes \<Rightarrow> dbg" where
  "field_debug name bs = DStruct name [(''len'', DNum (length bs))] True"

fun line_debug :: "ServerLine \<Rightarrow> dbg" where
  "line_debug (LineOk bs) = field_debug ''Ok'' bs"
| "line_debug (LineErr code text) =
     DStruct ''Err'' [(''code'', DNum (unat code)), (''text_len'', DNum (length text))] True"
| "line_debug (LineData bs) = field_debug ''Data'' bs"
| "line_debug (LineStatus keyword args) =
     DStruct ''Status'' [(''keyword_len'', DNum (length keyword)), (''args_len'', DNum (length args))] True"
| "line_debug (LineInquire keyword args) =
     DStruct ''Inquire'' [(''keyword_len'', DNum (length keyword)), (''args_len'', DNum (length args))] True"
| "line_debug LineEnd = DText ''End''"
| "line_debug (LineComment bs) = field_debug ''Comment'' bs"
| "line_debug LineEmpty = DText ''Empty''"

section \<open>Error codes\<close>

lemma unat_ucast_digit: "unat (ucast (d - 0x30 :: byte) :: u32) = digit d"
proof -
  have "unat (d - 0x30) < 2 ^ LENGTH(32)"
    using unsigned_less [of "d - 0x30"] by (rule less_trans) simp
  then show ?thesis by (simp add: digit_def unsigned_ucast_eq take_bit_nat_eq_self)
qed

lemma code_step:
  "Option.bind (word_checked_mul code 10) (\<lambda>v. word_checked_add v (ucast (d - 0x30 :: byte))) =
     (if unat code * 10 + digit d < 2 ^ 32 then Some (of_nat (unat code * 10 + digit d) :: u32)
      else None)"
proof (cases "unat code * 10 < 2 ^ 32")
  case True
  then have m: "word_checked_mul code 10 = Some (code * 10)" and "unat (code * 10) = unat code * 10"
    by (simp_all add: word_checked_mul_def unat_word_ariths)
  then show ?thesis
    by (auto simp: word_checked_add_def unat_ucast_digit word_unat_eq_iff unat_word_ariths unat_of_nat)
next
  case False
  then show ?thesis by (simp add: word_checked_mul_def)
qed

lemma parse_code_eq:
  "parse_code code ds =
     (if list_all is_ascii_digit ds \<and> num (unat code) ds < 2 ^ 32
      then Ok (of_nat (num (unat code) ds)) else Err InvalidErrorCode)"
proof (induction code ds rule: parse_code.induct)
  case (1 code)
  then show ?case using unsigned_less [of code] by simp
next
  case (2 code d ds)
  let ?n = "unat code * 10 + digit d"
  show ?case
  proof (cases "is_ascii_digit d \<and> ?n < 2 ^ 32")
    case True
    then have "unat (of_nat ?n :: u32) = ?n" by (simp add: unat_of_nat del: of_nat_add of_nat_mult)
    with True "2.IH" [of "of_nat ?n"] show ?thesis
      by (simp add: code_step del: of_nat_add of_nat_mult)
  next
    case False
    have "?n \<le> num ?n ds" by (rule num_mono)
    with False show ?thesis by (auto simp: code_step)
  qed
qed

lemma dec_clean: "clean (dec n) \<and> SP \<notin> set (dec n)"
  using dec_digits [of n] graphic_byte ascii_digit_graphic
  by (metis clean_set list_all_iff)

section \<open>Well-formed responses\<close>

definition keyword :: "bytes \<Rightarrow> bool" where
  "keyword k \<longleftrightarrow> token k \<and> (is_ascii_alphabetic (hd k) \<or> hd k = UNDERSCORE)"

lemma parse_keyword_eq:
  "parse_keyword body =
     (if keyword (fst (split_field body)) then Ok (split_field body) else Err InvalidToken)"
  by (auto simp: parse_keyword_def keyword_def validate_token_eq from_utf8_def token_utf8
      split: prod.splits)

text \<open>
  The three spellings of an optional field: absent, or preceded by exactly one space.
\<close>

definition opt_field :: "bytes \<Rightarrow> bytes" where
  "opt_field f = (if f = [] then [] else SP # f)"

lemma split_opt_field: "SP \<notin> set x \<Longrightarrow> split_field (x @ opt_field f) = (x, f)"
  by (simp add: opt_field_def split_field_no_space split_field_space)

lemmas line_literals = lit_def strip_prefix.simps

lemma parse_ok: "clean t \<Longrightarrow> parse_server_line (lit ''OK'' @ opt_field t) = Ok (LineOk t)"
  by (cases t) (simp_all add: parse_server_line_def validate_line_eq opt_field_def line_literals forbidden_def)

lemma parse_err:
  assumes "clean t"
  shows "parse_server_line (lit ''ERR '' @ dec (unat code) @ opt_field t) = Ok (LineErr code t)"
proof -
  have d: "clean (dec (unat code))" "SP \<notin> set (dec (unat code))"
    by (simp_all add: dec_clean)
  have "parse_code 0 (dec (unat code)) = Ok code"
    using unsigned_less [of code] by (simp add: parse_code_eq dec_digits)
  with assms d show ?thesis
    by (simp add: parse_server_line_def validate_line_eq line_literals forbidden_def
        split_opt_field) (auto simp: opt_field_def)
qed

lemma parse_data: "clean d \<Longrightarrow> parse_server_line (lit ''D '' @ d) = Ok (LineData d)"
  by (simp add: parse_server_line_def validate_line_eq line_literals forbidden_def)

lemma keyword_facts: "keyword k \<Longrightarrow> clean k \<and> SP \<notin> set k"
  by (simp add: keyword_def token_clean token_no_space)

lemma parse_status:
  "keyword k \<Longrightarrow> clean a \<Longrightarrow>
     parse_server_line (lit ''S '' @ k @ opt_field a) = Ok (LineStatus k a)"
  by (simp add: parse_server_line_def validate_line_eq line_literals forbidden_def keyword_facts
      parse_keyword_eq split_opt_field) (auto simp: opt_field_def)

lemma parse_inquire:
  "keyword k \<Longrightarrow> clean a \<Longrightarrow>
     parse_server_line (lit ''INQUIRE '' @ k @ opt_field a) = Ok (LineInquire k a)"
  by (simp add: parse_server_line_def validate_line_eq line_literals forbidden_def keyword_facts
      parse_keyword_eq split_opt_field) (auto simp: opt_field_def)

lemma parse_end: "parse_server_line (lit ''END'') = Ok LineEnd"
  by (simp add: parse_server_line_def validate_line_eq line_literals forbidden_def)

lemma parse_comment: "clean t \<Longrightarrow> parse_server_line (lit ''#'' @ t) = Ok (LineComment t)"
  by (simp add: parse_server_line_def validate_line_eq line_literals forbidden_def)

lemma parse_empty: "parse_server_line [] = Ok LineEmpty"
  by (simp add: parse_server_line_def validate_line_eq)

text \<open>The fields of a parsed response are parts of its line.\<close>

lemma split_field_parts: "\<exists>sep. bs = fst (split_field bs) @ sep @ snd (split_field bs)"
  by (rule split_field_cases [of bs]) auto

lemma parse_server_line_shape:
  assumes "parse_server_line line = Ok l"
  shows "case l of
      LineOk t \<Rightarrow> \<exists>p. line = p @ t
    | LineErr _ t \<Rightarrow> \<exists>p. line = p @ t
    | LineData t \<Rightarrow> line = lit ''D '' @ t
    | LineStatus k a \<Rightarrow> keyword k \<and> (\<exists>p. line = lit ''S '' @ k @ p @ a)
    | LineInquire k a \<Rightarrow> keyword k \<and> (\<exists>p. line = lit ''INQUIRE '' @ k @ p @ a)
    | LineEnd \<Rightarrow> line = lit ''END''
    | LineComment t \<Rightarrow> line = lit ''#'' @ t
    | LineEmpty \<Rightarrow> line = []"
proof -
  have field: "\<exists>p. bs = p @ snd (split_field bs)" "\<exists>p. bs = fst (split_field bs) @ p @ snd (split_field bs)" for bs
    using split_field_parts [of bs] by (metis append.assoc)+
  show ?thesis
    using assms unfolding parse_server_line_def
    by (auto simp: result_simps strip_prefix_Some parse_keyword_eq Let_def
          split: if_splits option.splits prod.splits)
       (metis field append.assoc fst_conv snd_conv)+
qed

lemma parse_server_line_no_panic: "parse_server_line line \<noteq> Panic"
proof
  have sub: "parse_keyword b \<noteq> Panic" "parse_code c b \<noteq> Panic" "validate_line b \<noteq> Panic" for b c
    by (simp_all add: parse_keyword_eq parse_code_eq validate_line_eq)
  assume "parse_server_line line = Panic"
  then show False
    unfolding parse_server_line_def bind_eq_Panic
    by (simp add: sub bind_eq_Panic Let_def split: option.splits prod.splits if_splits)
qed

end
