(* ===== verification/Encode.thy ===== *)
theory Encode
  imports Message
begin

text \<open>
  The wire encoders (\<open>assuan-protocol/src/encode.rs\<close>): commands, raw data chunks and
  server responses, written with their LF into a caller-owned buffer of
  \<open>MAX_LINE_BYTES\<close> bytes. Every encoder returns its result together with the buffer, so
  that "errors leave the output unchanged" and "no index is out of range" are statements
  about the model. The locale \<open>chunk_encoder\<close> is what the senders of data rely on (the
  client's inquiry answers, the server's \<open>send_data\<close>): every chunk is one decodable line
  and a non-empty input makes progress; \<open>data\<close> interprets it on \<open>encode_data_chunk\<close>.
\<close>

definition MAX_LINE_BYTES :: nat where
  "MAX_LINE_BYTES = 1000"

section \<open>Writing the parts of a line\<close>

text \<open>The measuring loop of \<open>write_parts\<close>: validation and length before any write.\<close>

fun measure_parts :: "nat \<Rightarrow> bytes list \<Rightarrow> (nat, ProtocolError) result" where
  "measure_parts len [] = Ok len"
| "measure_parts len (part # parts) =
     bind (validate_line part) (\<lambda>_.
     bind (ok_or (usize_checked_add len (length part)) LineTooLong) (\<lambda>len'.
     if len' > MAX_LINE_BYTES then Err LineTooLong else measure_parts len' parts))"

fun copy_parts :: "bytes \<Rightarrow> nat \<Rightarrow> bytes list \<Rightarrow> (nat \<times> bytes) option" where
  "copy_parts out pos [] = Some (pos, out)"
| "copy_parts out pos (part # parts) =
     (case copy_at out pos part of
        None \<Rightarrow> None
      | Some out' \<Rightarrow> copy_parts out' (pos + length part) parts)"

definition write_parts :: "bytes list \<Rightarrow> bytes \<Rightarrow> (nat, ProtocolError) result \<times> bytes" where
  "write_parts parts out =
     (case measure_parts 1 parts of
        Err e \<Rightarrow> (Err e, out)
      | Panic \<Rightarrow> (Panic, out)
      | Ok len \<Rightarrow>
          (case copy_parts out 0 parts of
             None \<Rightarrow> (Panic, out)
           | Some (pos, out') \<Rightarrow>
               (case set_at out' pos LF of
                  None \<Rightarrow> (Panic, out')
                | Some out'' \<Rightarrow> (Ok len, out''))))"

definition write_optional :: "bytes \<Rightarrow> bytes \<Rightarrow> bytes \<Rightarrow> (nat, ProtocolError) result \<times> bytes" where
  "write_optional prefix msg out =
     (if msg = [] then write_parts [prefix] out
      else write_parts [prefix, lit '' '', msg] out)"

definition write_keyword ::
    "bytes \<Rightarrow> bytes \<Rightarrow> bytes \<Rightarrow> bytes \<Rightarrow> (nat, ProtocolError) result \<times> bytes" where
  "write_keyword prefix kw args out =
     (case validate_token kw of
        Err e \<Rightarrow> (Err e, out)
      | Panic \<Rightarrow> (Panic, out)
      | Ok _ \<Rightarrow>
          if \<not> is_ascii_alphabetic (hd kw) \<and> hd kw \<noteq> UNDERSCORE
          then (Err InvalidToken, out)
          else if args = [] then write_parts [prefix, kw] out
          else write_parts [prefix, kw, lit '' '', args] out)"

section \<open>Commands and data chunks\<close>

definition encode_command :: "Command \<Rightarrow> bytes \<Rightarrow> (nat, ProtocolError) result \<times> bytes" where
  "encode_command command out =
     (if cmd_args command = [] then write_parts [cmd_name command] out
      else write_parts [cmd_name command, lit '' '', cmd_args command] out)"

definition escape_of :: "byte \<Rightarrow> bytes option" where
  "escape_of b =
     (if b = PERCENT then Some (lit ''%25'')
      else if b = CR then Some (lit ''%0D'')
      else if b = LF then Some (lit ''%0A'')
      else if b = 0 then Some (lit ''%00'')
      else None)"

fun chunk_loop :: "bytes \<Rightarrow> bytes \<Rightarrow> nat \<Rightarrow> nat \<Rightarrow> (nat \<times> nat \<times> bytes) option" where
  "chunk_loop [] out written consumed = Some (consumed, written, out)"
| "chunk_loop (b # input) out written consumed =
     (let escaped = escape_of b;
          cost = (if escaped \<noteq> None then 3 else 1)
      in if written + cost \<ge> MAX_LINE_BYTES then Some (consumed, written, out)
         else case (case escaped of
                      Some escape \<Rightarrow> copy_at out written escape
                    | None \<Rightarrow> set_at out written b) of
                None \<Rightarrow> None
              | Some out' \<Rightarrow> chunk_loop input out' (written + cost) (consumed + 1))"

definition encode_data_chunk ::
    "bytes \<Rightarrow> bytes \<Rightarrow> (nat \<times> nat, ProtocolError) result \<times> bytes" where
  "encode_data_chunk input out =
     (case copy_at out 0 (lit ''D '') of
        None \<Rightarrow> (Panic, out)
      | Some out1 \<Rightarrow>
          (case chunk_loop input out1 2 0 of
             None \<Rightarrow> (Panic, out1)
           | Some (consumed, written, out2) \<Rightarrow>
               (case set_at out2 written LF of
                  None \<Rightarrow> (Panic, out2)
                | Some out3 \<Rightarrow> (Ok (consumed, written + 1), out3))))"

section \<open>Responses\<close>

text \<open>The digit loop of an error code; \<open>None\<close> is an index out of range.\<close>

fun code_digits :: "u32 \<Rightarrow> nat \<Rightarrow> bytes \<Rightarrow> (nat \<times> bytes) option" where
  "code_digits val 0 digits = None"
| "code_digits val (Suc start) digits =
     (let r10 = val mod 10;
          d = (if unat r10 < 256 then ucast r10 else 0)
      in case set_at digits start (0x30 + d) of
           None \<Rightarrow> None
         | Some digits' \<Rightarrow>
             if val div 10 = 0 then Some (start, digits')
             else code_digits (val div 10) start digits')"

fun validate_encoded_data :: "bytes \<Rightarrow> (unit, ProtocolError) result" where
  "validate_encoded_data [] = Ok ()"
| "validate_encoded_data (b # bs) =
     (if b = PERCENT then
        (case bs of
           h # l # rest \<Rightarrow>
             if \<not> is_ascii_hexdigit h \<or> \<not> is_ascii_hexdigit l then Err InvalidEscape
             else validate_encoded_data rest
         | _ \<Rightarrow> Err InvalidEscape)
      else validate_encoded_data bs)"

definition encode_response :: "ServerLine \<Rightarrow> bytes \<Rightarrow> (nat, ProtocolError) result \<times> bytes" where
  "encode_response line out =
     (case line of
        LineOk msg \<Rightarrow> write_optional (lit ''OK'') msg out
      | LineErr code msg \<Rightarrow>
          (case code_digits code 10 (replicate 10 0) of
             None \<Rightarrow> (Panic, out)
           | Some (start, digits) \<Rightarrow>
               if msg = [] then write_parts [lit ''ERR '', drop start digits] out
               else write_parts [lit ''ERR '', drop start digits, lit '' '', msg] out)
      | LineData data \<Rightarrow>
          (case validate_encoded_data data of
             Err e \<Rightarrow> (Err e, out)
           | Panic \<Rightarrow> (Panic, out)
           | Ok _ \<Rightarrow> write_parts [lit ''D '', data] out)
      | LineStatus kw args \<Rightarrow> write_keyword (lit ''S '') kw args out
      | LineInquire kw args \<Rightarrow> write_keyword (lit ''INQUIRE '') kw args out
      | LineEnd \<Rightarrow> write_parts [lit ''END''] out
      | LineComment msg \<Rightarrow> write_parts [lit ''#'', msg] out
      | LineEmpty \<Rightarrow> write_parts [] out)"

section \<open>Facts on the parts\<close>

lemma usize_add_small: "a \<le> MAX_LINE_BYTES \<Longrightarrow> a + b \<le> MAX_LINE_BYTES \<Longrightarrow> usize_checked_add a b = Some (a + b)"
  by (simp add: usize_checked_add_def MAX_LINE_BYTES_def usize_max_def)

lemma measure_parts_Ok:
  "len \<le> MAX_LINE_BYTES \<Longrightarrow> measure_parts len parts = Ok n \<longleftrightarrow>
     clean (concat parts) \<and> n = len + length (concat parts) \<and> n \<le> MAX_LINE_BYTES"
proof (induction len parts rule: measure_parts.induct)
  case (2 len part parts)
  show ?case
  proof (cases "clean part \<and> len + length part \<le> MAX_LINE_BYTES")
    case True
    with 2 show ?thesis
      by (simp add: validate_line_eq usize_add_small add.assoc)
  next
    case False
    then show ?thesis
      by (auto simp: validate_line_eq usize_checked_add_def)
  qed
qed auto

lemma measure_parts_no_panic: "measure_parts len parts \<noteq> Panic"
  by (induction len parts rule: measure_parts.induct)
    (auto simp: validate_line_eq result_simps)

lemma copy_parts_fit:
  "pos + length (concat parts) \<le> length out \<Longrightarrow>
     copy_parts out pos parts =
       Some (pos + length (concat parts),
             take pos out @ concat parts @ drop (pos + length (concat parts)) out)"
proof (induction out pos parts rule: copy_parts.induct)
  case (2 out pos part parts)
  then show ?case
    by (simp add: copy_at_def ac_simps)
qed simp

definition wire_line :: "bytes \<Rightarrow> bool" where
  "wire_line body \<longleftrightarrow> clean body \<and> length body < MAX_LINE_BYTES"

lemma write_parts_fit:
  assumes "wire_line (concat parts)" and "length out = MAX_LINE_BYTES"
  shows "write_parts parts out =
    (Ok (Suc (length (concat parts))), concat parts @ LF # drop (Suc (length (concat parts))) out)"
proof -
  let ?n = "length (concat parts)"
  have "measure_parts 1 parts = Ok (Suc ?n)"
    using assms by (simp add: measure_parts_Ok wire_line_def MAX_LINE_BYTES_def)
  moreover have "copy_parts out 0 parts = Some (?n, concat parts @ drop ?n out)"
    using assms by (simp add: copy_parts_fit wire_line_def)
  moreover have "set_at (concat parts @ drop ?n out) ?n LF =
      Some (concat parts @ LF # drop (Suc ?n) out)"
    using assms
    by (simp add: set_at_def wire_line_def list_update_append Cons_nth_drop_Suc [symmetric]
        del: length_concat)
  ultimately show ?thesis
    by (simp add: write_parts_def del: length_concat)
qed

lemma write_parts_unfit:
  assumes "\<not> wire_line (concat parts)"
  shows "\<exists>e. write_parts parts out = (Err e, out)"
proof -
  have "\<And>n. measure_parts 1 parts \<noteq> Ok n"
    using assms by (auto simp: measure_parts_Ok wire_line_def MAX_LINE_BYTES_def)
  then show ?thesis
    using measure_parts_no_panic [of 1 parts]
    by (cases "measure_parts 1 parts") (auto simp: write_parts_def)
qed

text \<open>The shape shared by every complete encoder: one clean line, or an error that wrote nothing.\<close>

definition writes :: "(nat, ProtocolError) result \<times> bytes \<Rightarrow> bytes \<Rightarrow> bytes \<Rightarrow> bool" where
  "writes r body out \<longleftrightarrow>
     r = (Ok (Suc (length body)), body @ LF # drop (Suc (length body)) out)"

lemma write_parts_cases:
  assumes "length out = MAX_LINE_BYTES"
  shows "wire_line (concat parts) \<and> writes (write_parts parts out) (concat parts) out
    \<or> \<not> wire_line (concat parts) \<and> (\<exists>e. write_parts parts out = (Err e, out))"
  using write_parts_fit [OF _ assms] write_parts_unfit [of parts out]
  by (auto simp: writes_def simp del: length_concat)

section \<open>The digits of an error code\<close>

lemma ucast_mod10: "(ucast (val mod 10 :: u32) :: byte) = of_nat (unat val mod 10)"
  by (simp add: word_unat_eq_iff unsigned_ucast_eq unat_of_nat unat_mod take_bit_eq_mod)

lemma dec_length_Suc:
  "n div 10 \<noteq> 0 \<Longrightarrow> length (dec n) = Suc (length (dec (n div 10)))"
  by (subst dec_unfold) simp

lemma dec_small: "n div 10 = 0 \<Longrightarrow> dec n = [0x30 + of_nat (n mod 10)]"
  by (subst dec_unfold) simp

lemma word_div10_zero: "(val div 10 :: u32) = 0 \<longleftrightarrow> unat val div 10 = 0"
  by (simp add: word_unat_eq_iff unat_div)

lemma code_digits_spec:
  "length (dec (unat val)) \<le> start \<Longrightarrow> start \<le> length ds \<Longrightarrow>
     code_digits val start ds =
       Some (start - length (dec (unat val)),
             take (start - length (dec (unat val))) ds @ dec (unat val) @ drop start ds)"
proof (induction val start ds rule: code_digits.induct)
  case (2 val start ds)
  let ?v = "unat val"
  let ?d = "0x30 + of_nat (?v mod 10) :: byte"
  have less: "unat (val mod 10) < 256"
    using mod_less_divisor [of 10 ?v] by (simp add: unat_mod)
  have step: "set_at ds start ?d = Some (ds[start := ?d])"
    using "2.prems" by (simp add: set_at_def)
  show ?case
  proof (cases "val div 10 = 0")
    case True
    with less step "2.prems" show ?thesis
      by (simp add: Let_def ucast_mod10 dec_small word_div10_zero upd_conv_take_nth_drop)
  next
    case False
    then have v: "?v div 10 \<noteq> 0" by (simp add: word_div10_zero)
    let ?n = "length (dec (?v div 10))"
    have "code_digits val (Suc start) ds = code_digits (val div 10) start (ds[start := ?d])"
      using False less step by (simp add: Let_def ucast_mod10)
    also have "\<dots> = Some (start - ?n, take (start - ?n) (ds[start := ?d])
        @ dec (?v div 10) @ drop start (ds[start := ?d]))"
      using "2.IH" [OF refl refl _ False, of "ds[start := ?d]"] "2.prems" less step v
      by (simp add: Let_def ucast_mod10 unat_div dec_length_Suc)
    finally show ?thesis
      using "2.prems" v
      by (simp add: dec_unfold [of ?v] upd_conv_take_nth_drop)
  qed
qed simp

lemma code_digits_10:
  "code_digits code 10 (replicate 10 0) =
     Some (10 - length (dec (unat code)), replicate (10 - length (dec (unat code))) 0 @ dec (unat code))"
proof -
  have "unat code < 2 ^ 32"
    using unsigned_less [of code, where 'a = nat] by simp
  then have "unat code < 10 ^ 10" by simp
  then have "length (dec (unat code)) \<le> 10"
    by (rule length_dec [rotated]) simp
  then show ?thesis by (simp add: code_digits_spec)
qed

section \<open>Responses round-trip\<close>

lemma hexdigit_hex: "is_ascii_hexdigit b \<longleftrightarrow> hex b \<noteq> None"
  by (auto simp: is_ascii_hexdigit_def hex_def)

lemma validate_encoded_data_eq:
  "validate_encoded_data bs = (if decode bs = None then Err InvalidEscape else Ok ())"
proof (induction bs rule: validate_encoded_data.induct)
  case (2 b bs)
  show ?case
  proof (cases "b = PERCENT")
    case False
    with "2.IH"(2) show ?thesis by simp
  next
    case True
    show ?thesis
    proof (cases "\<exists>h l rest. bs = h # l # rest")
      case True
      then obtain h l rest where bs: "bs = h # l # rest" by blast
      with \<open>b = PERCENT\<close> "2.IH"(1) show ?thesis
        by (cases "hex h"; cases "hex l") (simp_all add: hexdigit_hex)
    next
      case False
      with \<open>b = PERCENT\<close> show ?thesis by (auto split: list.splits)
    qed
  qed
qed simp

text \<open>The body of the line that a response is written as, and when it can be written.\<close>

definition line_body :: "ServerLine \<Rightarrow> bytes" where
  "line_body l =
     (case l of
        LineOk msg \<Rightarrow> lit ''OK'' @ opt_field msg
      | LineErr code msg \<Rightarrow> lit ''ERR '' @ dec (unat code) @ opt_field msg
      | LineData data \<Rightarrow> lit ''D '' @ data
      | LineStatus kw args \<Rightarrow> lit ''S '' @ kw @ opt_field args
      | LineInquire kw args \<Rightarrow> lit ''INQUIRE '' @ kw @ opt_field args
      | LineEnd \<Rightarrow> lit ''END''
      | LineComment msg \<Rightarrow> lit ''#'' @ msg
      | LineEmpty \<Rightarrow> [])"

definition encodable :: "ServerLine \<Rightarrow> bool" where
  "encodable l \<longleftrightarrow> wire_line (line_body l)
     \<and> (case l of
          LineData data \<Rightarrow> decode data \<noteq> None
        | LineStatus kw _ \<Rightarrow> keyword kw
        | LineInquire kw _ \<Rightarrow> keyword kw
        | _ \<Rightarrow> True)"

text \<open>The contract every response encoder meets, for a body and a validity test.\<close>

definition encodes :: "(nat, ProtocolError) result \<times> bytes \<Rightarrow> bytes \<Rightarrow> bool \<Rightarrow> bytes \<Rightarrow> bool" where
  "encodes r body valid out \<longleftrightarrow>
     (if valid then writes r body out else \<exists>e. r = (Err e, out))"

lemma write_parts_encodes:
  "length out = MAX_LINE_BYTES \<Longrightarrow> concat parts = body \<Longrightarrow>
     encodes (write_parts parts out) body (wire_line body) out"
  using write_parts_cases [of out parts] by (auto simp: encodes_def)

lemma write_optional_encodes:
  "length out = MAX_LINE_BYTES \<Longrightarrow>
     encodes (write_optional pre msg out) (pre @ opt_field msg) (wire_line (pre @ opt_field msg)) out"
  by (auto simp: write_optional_def opt_field_def lit_def intro!: write_parts_encodes)

lemma write_keyword_encodes:
  "length out = MAX_LINE_BYTES \<Longrightarrow>
     encodes (write_keyword pre kw args out) (pre @ kw @ opt_field args)
       (wire_line (pre @ kw @ opt_field args) \<and> keyword kw) out"
  using write_parts_encodes [of out "[pre, kw]"] write_parts_encodes [of out "[pre, kw, lit '' '', args]"]
  by (auto simp: write_keyword_def keyword_def validate_token_eq opt_field_def lit_def encodes_def)

lemma encode_response_encodes:
  assumes "length out = MAX_LINE_BYTES"
  shows "encodes (encode_response l out) (line_body l) (encodable l) out"
proof (cases l)
  case (LineErr code msg)
  then show ?thesis
    using write_parts_encodes [OF assms, of "[lit ''ERR '', dec (unat code)]"]
      write_parts_encodes [OF assms, of "[lit ''ERR '', dec (unat code), lit '' '', msg]"]
    by (simp add: encode_response_def line_body_def encodable_def code_digits_10 opt_field_def lit_def)
next
  case (LineData data)
  then show ?thesis
    using write_parts_encodes [OF assms, of "[lit ''D '', data]"]
    by (auto simp: encode_response_def line_body_def encodable_def validate_encoded_data_eq encodes_def)
next
  case (LineOk msg)
  then show ?thesis
    using write_optional_encodes [OF assms] by (simp add: encode_response_def line_body_def encodable_def)
next
  case (LineStatus kw args)
  then show ?thesis
    using write_keyword_encodes [OF assms] by (simp add: encode_response_def line_body_def encodable_def)
next
  case (LineInquire kw args)
  then show ?thesis
    using write_keyword_encodes [OF assms] by (simp add: encode_response_def line_body_def encodable_def)
qed (auto simp: encode_response_def line_body_def encodable_def intro!: write_parts_encodes [OF assms])

lemma wire_field: "wire_line (pre @ opt_field f) \<Longrightarrow> clean f"
  by (auto simp: wire_line_def opt_field_def split: if_splits)

lemma line_body_parse:
  assumes "encodable l"
  shows "parse_server_line (line_body l) = Ok l"
proof (cases l)
  case (LineOk msg)
  with assms wire_field [of "lit ''OK''"] show ?thesis
    by (simp add: line_body_def encodable_def parse_ok)
next
  case (LineErr code msg)
  with assms wire_field [of "lit ''ERR '' @ dec (unat code)"] show ?thesis
    by (simp add: line_body_def encodable_def parse_err)
next
  case (LineStatus kw args)
  with assms wire_field [of "lit ''S '' @ kw"] show ?thesis
    by (simp add: line_body_def encodable_def parse_status)
next
  case (LineInquire kw args)
  with assms wire_field [of "lit ''INQUIRE '' @ kw"] show ?thesis
    by (simp add: line_body_def encodable_def parse_inquire)
qed (use assms in \<open>simp_all add: line_body_def encodable_def wire_line_def
      parse_data parse_comment parse_end parse_empty\<close>)

text \<open>
  C3: what is encoded is parsed back. A response is accepted exactly when it is
  encodable (its fields clean, its keyword and escapes valid, the line within the wire
  limit); then the buffer starts with one line, ended by LF, whose body parses to the very
  same response, and the bytes behind it are untouched. Otherwise the buffer is unchanged.
  The encoder never indexes out of range.
\<close>

theorem response_roundtrip:
  assumes "length out = MAX_LINE_BYTES"
  shows "case encode_response l out of
      (Ok n, out') \<Rightarrow> encodable l \<and> 0 < n \<and> n \<le> MAX_LINE_BYTES \<and> length out' = MAX_LINE_BYTES
        \<and> out' ! (n - 1) = LF \<and> parse_server_line (take (n - 1) out') = Ok l
        \<and> drop n out' = drop n out
    | (Err e, out') \<Rightarrow> \<not> encodable l \<and> out' = out
    | (Panic, _) \<Rightarrow> False"
proof (cases "encodable l")
  case True
  then have "wire_line (line_body l)" by (simp add: encodable_def)
  with True encode_response_encodes [OF assms, of l] assms show ?thesis
    by (auto simp: encodes_def writes_def wire_line_def line_body_parse nth_append)
next
  case False
  with encode_response_encodes [OF assms, of l] show ?thesis
    by (auto simp: encodes_def)
qed

theorem response_roundtrip_witness:
  "length (replicate 1000 0 :: bytes) = MAX_LINE_BYTES
   \<and> fst (encode_response (LineErr 67109139 (lit ''no'')) (replicate 1000 0)) = Ok 16
   \<and> (case encode_response (LineErr 67109139 (lit ''no'')) (replicate 1000 0) of
        (Ok n, out') \<Rightarrow> parse_server_line (take (n - 1) out') = Ok (LineErr 67109139 (lit ''no''))
      | _ \<Rightarrow> False)"
proof -
  have len: "length (replicate 1000 0 :: bytes) = MAX_LINE_BYTES"
    by (simp add: MAX_LINE_BYTES_def)
  have digits: "dec 67109139 = lit ''67109139''"
    by (simp add: dec.simps lit_def)
  have "encodable (LineErr 67109139 (lit ''no''))"
    by (simp add: encodable_def line_body_def wire_line_def opt_field_def digits lit_def
        forbidden_def MAX_LINE_BYTES_def)
  moreover from this encode_response_encodes [OF len, of "LineErr 67109139 (lit ''no'')"]
  have "fst (encode_response (LineErr 67109139 (lit ''no'')) (replicate 1000 0)) = Ok 16"
    by (simp add: encodes_def writes_def line_body_def opt_field_def digits lit_def)
  ultimately show ?thesis
    using len response_roundtrip [OF len, of "LineErr 67109139 (lit ''no'')"]
    by (auto split: prod.splits result.splits)
qed

section \<open>Commands round-trip\<close>

definition command_body :: "Command \<Rightarrow> bytes" where
  "command_body c = cmd_name c @ opt_field (cmd_args c)"

lemma encode_command_encodes:
  assumes "length out = MAX_LINE_BYTES"
  shows "encodes (encode_command c out) (command_body c) (wire_line (command_body c)) out"
  using write_parts_encodes [OF assms, of "[cmd_name c]"]
    write_parts_encodes [OF assms, of "[cmd_name c, lit '' '', cmd_args c]"]
  by (simp add: encode_command_def command_body_def opt_field_def lit_def)

lemma command_body_parse:
  "Command_new (cmd_name c) (cmd_args c) = Ok c \<Longrightarrow> Command_parse (command_body c) = Ok c"
  by (auto simp: Command_new_Ok Command_parse_Ok command_body_def opt_field_def)

text \<open>
  C17: a command built by \<open>Command::new\<close> or \<open>Command::parse\<close> is rejected only for its
  length, and otherwise the encoded line parses back to the same name and arguments.
\<close>

theorem command_roundtrip:
  assumes "length out = MAX_LINE_BYTES"
    and "Command_new (cmd_name c) (cmd_args c) = Ok c \<or> Command_parse line = Ok c"
  shows "case encode_command c out of
      (Ok n, out') \<Rightarrow> 0 < n \<and> n \<le> MAX_LINE_BYTES \<and> out' ! (n - 1) = LF
        \<and> Command_parse (take (n - 1) out') = Ok c \<and> drop n out' = drop n out
    | (Err e, out') \<Rightarrow> MAX_LINE_BYTES < length (command_body c) + 1 \<and> out' = out
    | (Panic, _) \<Rightarrow> False"
proof -
  have new: "Command_new (cmd_name c) (cmd_args c) = Ok c"
    using assms(2) by (auto simp: Command_new_Ok Command_parse_Ok)
  then have "clean (command_body c)"
    by (auto simp: Command_new_Ok command_body_def opt_field_def token_clean)
  with new encode_command_encodes [OF assms(1), of c] assms(1) show ?thesis
    by (cases "wire_line (command_body c)")
      (auto simp: encodes_def writes_def wire_line_def command_body_parse nth_append)
qed

theorem command_roundtrip_witness:
  "let c = \<lparr>cmd_name = lit ''GETINFO'', cmd_args = lit '' version''\<rparr> in
   case encode_command c (replicate 1000 0) of
     (Ok n, out') \<Rightarrow> n = 17 \<and> Command_parse (take 16 out') = Ok c
   | _ \<Rightarrow> False"
proof -
  let ?c = "\<lparr>cmd_name = lit ''GETINFO'', cmd_args = lit '' version''\<rparr>"
  have len: "length (replicate 1000 0 :: bytes) = MAX_LINE_BYTES"
    by (simp add: MAX_LINE_BYTES_def)
  have new: "Command_new (cmd_name ?c) (cmd_args ?c) = Ok ?c"
    by (simp add: Command_new_Ok token_def lit_def is_ascii_graphic_def forbidden_def)
  have "wire_line (command_body ?c)"
    by (simp add: wire_line_def command_body_def opt_field_def lit_def forbidden_def MAX_LINE_BYTES_def)
  with encode_command_encodes [OF len, of ?c]
  have "fst (encode_command ?c (replicate 1000 0)) = Ok 17"
    by (simp add: encodes_def writes_def command_body_def opt_field_def lit_def)
  then show ?thesis
    using command_roundtrip [OF len disjI1 [OF new]]
    by (auto simp: Let_def split: prod.splits result.splits)
qed

section \<open>Data chunks\<close>

definition esc1 :: "byte \<Rightarrow> bytes" where
  "esc1 b = (case escape_of b of Some e \<Rightarrow> e | None \<Rightarrow> [b])"

definition esc :: "bytes \<Rightarrow> bytes" where
  "esc bs = concat (map esc1 bs)"

lemma esc_simps [simp]: "esc [] = []" "esc (b # bs) = esc1 b @ esc bs"
  by (simp_all add: esc_def)

lemma esc1_cost: "length (esc1 b) = (if escape_of b \<noteq> None then 3 else 1)"
  by (auto simp: esc1_def escape_of_def)

lemma esc1_cases:
  obtains "b = PERCENT" "esc1 b = [0x25, 0x32, 0x35]"
  | "b = CR" "esc1 b = [0x25, 0x30, 0x44]"
  | "b = LF" "esc1 b = [0x25, 0x30, 0x41]"
  | "b = NUL" "esc1 b = [0x25, 0x30, 0x30]"
  | "b \<noteq> PERCENT" "\<not> forbidden b" "esc1 b = [b]"
  by (cases "b = PERCENT"; cases "b = CR"; cases "b = LF"; cases "b = NUL")
    (auto simp: esc1_def escape_of_def lit_def forbidden_def)

lemma decode_esc1: "decode (esc1 b @ bs) = map_option ((#) b) (decode bs)"
  by (cases b rule: esc1_cases) (simp_all add: hex_def)

lemma decode_esc [simp]: "decode (esc bs) = Some bs"
  by (induction bs) (simp_all add: decode_esc1)

lemma clean_esc1: "clean (esc1 b)"
  by (cases b rule: esc1_cases) (simp_all add: forbidden_def)

lemma clean_esc [simp]: "clean (esc bs)"
  by (induction bs) (simp_all add: clean_esc1)

text \<open>How many bytes of the input the chunk takes when \<open>w\<close> bytes are already written.\<close>

fun chunk_len :: "nat \<Rightarrow> bytes \<Rightarrow> nat" where
  "chunk_len w [] = 0"
| "chunk_len w (b # bs) =
     (if w + length (esc1 b) \<ge> MAX_LINE_BYTES then 0 else Suc (chunk_len (w + length (esc1 b)) bs))"

lemma chunk_len_le: "chunk_len w bs \<le> length bs"
  by (induction w bs rule: chunk_len.induct) auto

lemma chunk_len_fits:
  "w < MAX_LINE_BYTES \<Longrightarrow> w + length (esc (take (chunk_len w bs) bs)) < MAX_LINE_BYTES"
  by (induction w bs rule: chunk_len.induct) (auto simp: add.assoc)

lemma chunk_len_max:
  "chunk_len w bs < length bs \<Longrightarrow>
     MAX_LINE_BYTES \<le> w + length (esc (take (Suc (chunk_len w bs)) bs))"
  by (induction w bs rule: chunk_len.induct) (auto simp: add.assoc split: if_splits)

lemma chunk_len_progress: "bs \<noteq> [] \<Longrightarrow> 0 < chunk_len 2 bs"
  by (cases bs) (simp_all add: esc1_cost MAX_LINE_BYTES_def)

lemma chunk_write:
  assumes "written + length (esc1 b) < length out"
  shows "(case escape_of b of Some e \<Rightarrow> copy_at out written e | None \<Rightarrow> set_at out written b) =
    Some (take written out @ esc1 b @ drop (written + length (esc1 b)) out)"
  using assms
  by (auto simp: esc1_def copy_at_def set_at_def upd_conv_take_nth_drop split: option.splits)

lemma chunk_loop_spec:
  "length out = MAX_LINE_BYTES \<Longrightarrow> written < MAX_LINE_BYTES \<Longrightarrow>
     chunk_loop input out written consumed =
       (let e = esc (take (chunk_len written input) input) in
        Some (consumed + chunk_len written input, written + length e,
              take written out @ e @ drop (written + length e) out))"
proof (induction input out written consumed rule: chunk_loop.induct)
  case (2 b input out written consumed)
  show ?case
  proof (cases "written + length (esc1 b) \<ge> MAX_LINE_BYTES")
    case True
    then show ?thesis by (simp add: esc1_cost Let_def)
  next
    case False
    let ?out = "take written out @ esc1 b @ drop (written + length (esc1 b)) out"
    have fits: "written + length (esc1 b) < length out" using False "2.prems" by simp
    have "chunk_loop (b # input) out written consumed =
        chunk_loop input ?out (written + length (esc1 b)) (consumed + 1)"
      using False chunk_write [OF fits] by (simp add: Let_def esc1_cost)
    also have "\<dots> = (let e = esc (take (chunk_len (written + length (esc1 b)) input) input) in
        Some (consumed + 1 + chunk_len (written + length (esc1 b)) input,
              written + length (esc1 b) + length e,
              take (written + length (esc1 b)) ?out @ e
                @ drop (written + length (esc1 b) + length e) ?out))"
      using "2.IH" [OF refl refl, of ?out] False chunk_write [OF fits] "2.prems" fits
      by (simp add: esc1_cost)
    finally show ?thesis
      using False fits by (simp add: Let_def ac_simps)
  qed
qed simp

definition data_body :: "bytes \<Rightarrow> bytes" where
  "data_body input = lit ''D '' @ esc (take (chunk_len 2 input) input)"

lemma length_data_body: "length (data_body input) < MAX_LINE_BYTES"
  using chunk_len_fits [of 2 input] by (simp add: data_body_def MAX_LINE_BYTES_def)

lemma encode_data_chunk_eq:
  assumes "length out = MAX_LINE_BYTES"
  shows "encode_data_chunk input out =
    (Ok (chunk_len 2 input, Suc (length (data_body input))),
     data_body input @ LF # drop (Suc (length (data_body input))) out)"
proof -
  let ?e = "esc (take (chunk_len 2 input) input)"
  let ?o1 = "lit ''D '' @ drop 2 out"
  let ?o2 = "lit ''D '' @ ?e @ drop (2 + length ?e) out"
  have "2 \<le> length out" using assms by (simp add: MAX_LINE_BYTES_def)
  then have o1: "copy_at out 0 (lit ''D '') = Some ?o1" and l1: "length ?o1 = MAX_LINE_BYTES"
    using assms by (simp_all add: copy_at_def numeral_2_eq_2)
  have loop: "chunk_loop input ?o1 2 0 = Some (chunk_len 2 input, 2 + length ?e, ?o2)"
    using chunk_loop_spec [OF l1, of 2 input 0] by (simp add: Let_def MAX_LINE_BYTES_def ac_simps)
  have lt: "2 + length ?e < length out"
    using length_data_body [of input] assms by (simp add: data_body_def)
  have "set_at ?o2 (2 + length ?e) LF = Some (data_body input @ LF # drop (3 + length ?e) out)"
    using lt by (simp add: set_at_def data_body_def list_update_append
        Cons_nth_drop_Suc [symmetric] numeral_eq_Suc)
  then have "encode_data_chunk input out =
      (Ok (chunk_len 2 input, 2 + length ?e + 1), data_body input @ LF # drop (3 + length ?e) out)"
    by (simp add: encode_data_chunk_def o1 loop)
  then show ?thesis by (simp add: data_body_def numeral_eq_Suc)
qed

text \<open>
  C9: one data chunk. Into a buffer of the wire size the encoder always succeeds; it
  consumes a prefix of the input (at least one byte of a non-empty one, and as many as
  fit), the written line is \<open>D \<close>, the percent-escaped prefix and LF within the wire
  limit, it contains no NUL, CR or other LF, its payload decodes to exactly the consumed
  prefix, and nothing behind the line is touched.
\<close>

theorem data_chunk_correct:
  assumes "length out = MAX_LINE_BYTES"
  shows "\<exists>consumed written payload.
      encode_data_chunk input out =
        (Ok (consumed, written), lit ''D '' @ payload @ LF # drop written out)
    \<and> written = length payload + 3 \<and> written \<le> MAX_LINE_BYTES
    \<and> consumed \<le> length input \<and> (input = [] \<or> 0 < consumed)
    \<and> clean payload \<and> decode payload = Some (take consumed input)
    \<and> (consumed = length input
       \<or> MAX_LINE_BYTES < 3 + length (esc (take (Suc consumed) input)))"
proof -
  let ?n = "chunk_len 2 input"
  let ?e = "esc (take ?n input)"
  have "encode_data_chunk input out =
      (Ok (?n, length ?e + 3), lit ''D '' @ ?e @ LF # drop (length ?e + 3) out)"
    using encode_data_chunk_eq [OF assms, of input] by (simp add: data_body_def numeral_eq_Suc)
  moreover have "length ?e + 3 \<le> MAX_LINE_BYTES"
    using length_data_body [of input] by (simp add: data_body_def)
  moreover have "?n = length input \<or> MAX_LINE_BYTES < 3 + length (esc (take (Suc ?n) input))"
    using chunk_len_max [of 2 input] chunk_len_le [of 2 input] by (cases "?n < length input") auto
  ultimately show ?thesis
    using chunk_len_le [of 2 input] chunk_len_progress [of input] clean_esc decode_esc by blast
qed

theorem data_chunk_correct_witness:
  "length (replicate 1000 0 :: bytes) = MAX_LINE_BYTES
   \<and> encode_data_chunk [65, 37] (replicate 1000 0)
       = (Ok (2, 7), lit ''D A%25'' @ LF # replicate 993 0)"
proof -
  have len: "length (replicate 1000 0 :: bytes) = MAX_LINE_BYTES"
    by (simp add: MAX_LINE_BYTES_def)
  have "chunk_len 2 [65, 37] = 2"
    by (simp add: esc1_def escape_of_def MAX_LINE_BYTES_def lit_def)
  then have "encode_data_chunk [65, 37] (replicate 1000 0)
       = (Ok (2, 7), lit ''D A%25'' @ LF # replicate 993 0)"
    using encode_data_chunk_eq [OF len, of "[65, 37]"]
    by (simp add: data_body_def esc1_def escape_of_def lit_def)
  with len data_chunk_correct [OF len, of "[65, 37]"] show ?thesis by blast
qed

section \<open>The contract of a chunk encoder\<close>

text \<open>
  \<open>chunk input\<close> is the number of consumed bytes and the body of the line. A sender
  repeats it until the input is empty, at least once; \<open>bodies\<close> is the list of lines it sends.
\<close>

locale chunk_encoder =
  fixes chunk :: "bytes \<Rightarrow> nat \<times> bytes"
    and payload :: "bytes \<Rightarrow> bytes option"
  assumes progress: "input \<noteq> [] \<Longrightarrow> 0 < fst (chunk input)"
    and bounded: "fst (chunk input) \<le> length input"
    and faithful: "payload (snd (chunk input)) = Some (take (fst (chunk input)) input)"
    and fits_wire: "wire_line (snd (chunk input))"
begin

function bodies :: "bytes \<Rightarrow> bytes list" where
  "bodies input =
     snd (chunk input) #
     (if drop (fst (chunk input)) input = [] then [] else bodies (drop (fst (chunk input)) input))"
  by pat_completeness auto
termination
proof (relation "measure length")
  fix input :: bytes
  assume "drop (fst (chunk input)) input \<noteq> []"
  then show "(drop (fst (chunk input)) input, input) \<in> measure length"
    using progress [of input] by (cases input) auto
qed simp

declare bodies.simps [simp del]

lemma bodies_wire: "body \<in> set (bodies input) \<Longrightarrow> wire_line body"
  by (induction input rule: bodies.induct)
    (subst (asm) (2) bodies.simps, auto simp: fits_wire split: if_splits)

lemma bodies_payload:
  "\<exists>parts. map payload (bodies input) = map Some parts \<and> concat parts = input"
proof (induction input rule: bodies.induct)
  case (1 input)
  let ?n = "fst (chunk input)"
  show ?case
  proof (cases "drop ?n input = []")
    case True
    then have "take ?n input = input" by simp
    with True show ?thesis
      by (intro exI [of _ "[input]"]) (simp add: bodies.simps [of input] faithful)
  next
    case False
    with 1 obtain parts where parts: "map payload (bodies (drop ?n input)) = map Some parts"
      "concat parts = drop ?n input" by blast
    with False show ?thesis
      by (intro exI [of _ "take ?n input # parts"]) (simp add: bodies.simps [of input] faithful)
  qed
qed

lemma bodies_length: "length (bodies input) \<le> max 1 (length input)"
proof (induction input rule: bodies.induct)
  case (1 input)
  let ?n = "fst (chunk input)"
  show ?case
  proof (cases "drop ?n input = []")
    case True
    then show ?thesis by (simp add: bodies.simps [of input])
  next
    case False
    then have "input \<noteq> []" by auto
    then have "0 < ?n" by (rule progress)
    with False 1 have "length (bodies (drop ?n input)) \<le> length input - ?n" by simp
    with False \<open>0 < ?n\<close> show ?thesis by (simp add: bodies.simps [of input])
  qed
qed

end

text \<open>The payload of a data line: what follows \<open>D \<close>, decoded.\<close>

definition data_payload :: "bytes \<Rightarrow> bytes option" where
  "data_payload body = Option.bind (strip_prefix (lit ''D '') body) decode"

interpretation data: chunk_encoder "\<lambda>input. (chunk_len 2 input, data_body input)" data_payload
proof (unfold_locales, goal_cases)
  case (1 input)
  then show ?case by (simp add: chunk_len_progress)
next
  case (2 input)
  then show ?case by (simp add: chunk_len_le)
next
  case (3 input)
  then show ?case by (simp add: data_payload_def data_body_def)
next
  case (4 input)
  then show ?case
    using length_data_body [of input] by (simp add: wire_line_def data_body_def lit_def forbidden_def)
qed

end
