(* ===== verification/Frame.thy ===== *)
theory Frame
  imports Encode
begin

text \<open>
  Line framing (\<open>assuan-protocol/src/frame.rs\<close>): the fixed-storage \<open>LineBuffer\<close>, fed with
  arbitrary pieces of a byte stream. The specification is a machine on single bytes
  (\<open>frame_byte\<close>) and its run over a stream (\<open>frames\<close>). The locale \<open>line_framer\<close> is what
  the channel relies on; inside it, feeding a stream in any pieces is shown to deliver the
  lines of \<open>frames\<close>; \<open>lines\<close> interprets it on \<open>LineBuffer\<close>.
\<close>

record LineBuffer =
  lb_storage :: bytes
  lb_len :: nat
  lb_ready :: bool
  lb_content_len :: nat
  lb_failed :: bool

definition lb_new :: LineBuffer where
  "lb_new = \<lparr>lb_storage = replicate MAX_LINE_BYTES 0, lb_len = 0, lb_ready = False,
             lb_content_len = 0, lb_failed = False\<rparr>"

definition lb_clear :: "LineBuffer \<Rightarrow> LineBuffer" where
  "lb_clear lb = lb\<lparr>lb_storage := zeroize (lb_storage lb), lb_len := 0, lb_ready := False,
                    lb_content_len := 0, lb_failed := False\<rparr>"

fun feed_loop :: "LineBuffer \<Rightarrow> nat \<Rightarrow> bytes \<Rightarrow> (nat, ProtocolError) result \<times> LineBuffer" where
  "feed_loop lb index [] = (Ok index, lb)"
| "feed_loop lb index (b # input) =
     (case set_at (lb_storage lb) (lb_len lb) b of
        None \<Rightarrow> (Panic, lb)
      | Some storage \<Rightarrow>
          let lb1 = lb\<lparr>lb_storage := storage, lb_len := lb_len lb + 1\<rparr> in
          if b = LF then
            let content = lb_len lb1 - 1;
                content' = (if content > 0 \<and> lb_storage lb1 ! (content - 1) = CR
                            then content - 1 else content)
            in (Ok (index + 1), lb1\<lparr>lb_content_len := content', lb_ready := True\<rparr>)
          else if lb_len lb1 = MAX_LINE_BYTES then
            (Err LineTooLong, (lb_clear lb1)\<lparr>lb_failed := True\<rparr>)
          else feed_loop lb1 (index + 1) input)"

definition lb_feed :: "LineBuffer \<Rightarrow> bytes \<Rightarrow> (nat, ProtocolError) result \<times> LineBuffer" where
  "lb_feed lb input =
     (if lb_failed lb then (Err LineTooLong, lb)
      else if lb_ready lb then (Ok 0, lb)
      else feed_loop lb 0 input)"

definition lb_line :: "LineBuffer \<Rightarrow> bytes option" where
  "lb_line lb = (if \<not> lb_ready lb then None else Some (take (lb_content_len lb) (lb_storage lb)))"

text \<open>
  \<open>line_mut\<close>: the caller may overwrite the bytes of the line, not its length. \<open>f\<close> is what
  it does to the slice.
\<close>

definition lb_line_mut :: "LineBuffer \<Rightarrow> (bytes \<Rightarrow> bytes) \<Rightarrow> LineBuffer" where
  "lb_line_mut lb f =
     (case lb_line lb of
        None \<Rightarrow> lb
      | Some line \<Rightarrow> lb\<lparr>lb_storage := f line @ drop (length line) (lb_storage lb)\<rparr>)"

definition lb_finish_eof :: "LineBuffer \<Rightarrow> (unit, ProtocolError) result" where
  "lb_finish_eof lb =
     (if lb_failed lb then Err LineTooLong
      else if lb_len lb \<noteq> 0 \<and> \<not> lb_ready lb then Err UnexpectedEof
      else Ok ())"

definition lb_debug :: "LineBuffer \<Rightarrow> dbg" where
  "lb_debug lb = DStruct ''LineBuffer''
     [(''len'', DNum (lb_len lb)), (''ready'', DBool (lb_ready lb)), (''failed'', DBool (lb_failed lb))] True"

section \<open>Specification\<close>

datatype framing = Partial bytes | Complete bytes | Overflow

definition strip_cr :: "bytes \<Rightarrow> bytes" where
  "strip_cr acc = (if acc \<noteq> [] \<and> last acc = CR then butlast acc else acc)"

definition frame_byte :: "bytes \<Rightarrow> byte \<Rightarrow> framing" where
  "frame_byte acc b =
     (if b = LF then Complete (strip_cr acc)
      else if length acc + 1 = MAX_LINE_BYTES then Overflow
      else Partial (acc @ [b]))"

text \<open>The first line of a stream, and how many bytes it takes.\<close>

fun frame_feed :: "bytes \<Rightarrow> bytes \<Rightarrow> nat \<times> framing" where
  "frame_feed acc [] = (0, Partial acc)"
| "frame_feed acc (b # bs) =
     (case frame_byte acc b of
        Partial acc' \<Rightarrow> (let (n, st) = frame_feed acc' bs in (Suc n, st))
      | st \<Rightarrow> (1, st))"

text \<open>All lines of a stream, and where it ends.\<close>

fun frames :: "bytes \<Rightarrow> bytes \<Rightarrow> bytes list \<times> framing" where
  "frames acc [] = ([], Partial acc)"
| "frames acc (b # bs) =
     (case frame_byte acc b of
        Partial acc' \<Rightarrow> frames acc' bs
      | Complete line \<Rightarrow> (let (ls, st) = frames [] bs in (line # ls, st))
      | Overflow \<Rightarrow> ([], Overflow))"

lemma frame_feed_le: "frame_feed acc bs = (n, st) \<Longrightarrow> n \<le> length bs"
  by (induction acc bs arbitrary: n st rule: frame_feed.induct)
    (auto split: framing.splits prod.splits)

lemma frame_feed_partial: "frame_feed acc bs = (n, Partial acc') \<Longrightarrow> n = length bs \<and> acc' = acc @ bs"
  by (induction acc bs arbitrary: n acc' rule: frame_feed.induct)
    (fastforce simp: frame_byte_def split: framing.splits prod.splits if_splits)+

lemma frame_feed_pos: "frame_feed acc bs = (n, Complete l) \<Longrightarrow> 0 < n"
  by (cases bs) (auto split: framing.splits prod.splits)

lemma frames_feed:
  "frames acc (bs @ cs) =
     (case frame_feed acc bs of
        (n, Partial acc') \<Rightarrow> frames acc' cs
      | (n, Complete line) \<Rightarrow> (let (ls, st) = frames [] (drop n bs @ cs) in (line # ls, st))
      | (n, Overflow) \<Rightarrow> ([], Overflow))"
proof (induction acc bs rule: frame_feed.induct)
  case (2 acc b bs)
  then show ?case
    by (cases "frame_byte acc b") (auto split: framing.splits prod.splits)
qed simp

lemma frames_append:
  "frames acc (xs @ ys) =
     (case snd (frames acc xs) of
        Partial acc' \<Rightarrow> (fst (frames acc xs) @ fst (frames acc' ys), snd (frames acc' ys))
      | _ \<Rightarrow> (fst (frames acc xs), Overflow))"
  by (induction acc xs rule: frames.induct) (auto simp: Let_def split: framing.splits prod.splits)

lemma frames_not_complete: "snd (frames acc xs) \<noteq> Complete c"
  by (induction acc xs rule: frames.induct) (auto simp: Let_def split: framing.splits prod.splits)

section \<open>The contract of a framer\<close>

locale line_framer =
  fixes inv :: "'l \<Rightarrow> bool"
    and abs :: "'l \<Rightarrow> framing"
    and fresh :: "'l"
    and feed :: "'l \<Rightarrow> bytes \<Rightarrow> (nat, ProtocolError) result \<times> 'l"
    and line :: "'l \<Rightarrow> bytes option"
    and clear :: "'l \<Rightarrow> 'l"
  assumes fresh_abs: "inv fresh \<and> abs fresh = Partial []"
    and clear_abs: "inv l \<Longrightarrow> inv (clear l) \<and> abs (clear l) = Partial []"
    and line_abs: "inv l \<Longrightarrow> line l = (case abs l of Complete c \<Rightarrow> Some c | _ \<Rightarrow> None)"
    and feed_partial: "inv l \<Longrightarrow> abs l = Partial acc \<Longrightarrow> frame_feed acc input = (n, st) \<Longrightarrow>
      \<exists>l'. feed l input = (if st = Overflow then Err LineTooLong else Ok n, l') \<and> inv l' \<and> abs l' = st"
begin

text \<open>
  Delivering every line of one piece of input, clearing the buffer after each line, as a
  reader does that takes one line at a time.
\<close>

function deliver :: "'l \<Rightarrow> bytes \<Rightarrow> bytes list \<times> 'l \<times> bool" where
  "deliver l piece =
     (case feed l piece of
        (Ok n, l') \<Rightarrow>
          (case line l' of
             None \<Rightarrow> ([], l', True)
           | Some c \<Rightarrow>
               if n = 0 \<or> length piece < n then ([c], l', True)
               else let (cs, l'', ok) = deliver (clear l') (drop n piece) in (c # cs, l'', ok))
      | (_, l') \<Rightarrow> ([], l', False))"
  by pat_completeness auto
termination
  by (relation "measure (\<lambda>(l, piece). length piece)") auto

declare deliver.simps [simp del]

fun deliver_all :: "'l \<Rightarrow> bytes list \<Rightarrow> bytes list \<times> 'l \<times> bool" where
  "deliver_all l [] = ([], l, True)"
| "deliver_all l (piece # pieces) =
     (case deliver l piece of
        (cs, l', True) \<Rightarrow> (let (ds, l'', ok) = deliver_all l' pieces in (cs @ ds, l'', ok))
      | (cs, l', False) \<Rightarrow> (cs, l', False))"

lemma deliver_spec:
  "inv l \<Longrightarrow> abs l = Partial acc \<Longrightarrow> deliver l piece = (cs, l', ok) \<Longrightarrow>
     inv l' \<and> abs l' = snd (frames acc piece) \<and> cs = fst (frames acc piece)
     \<and> (ok \<longleftrightarrow> abs l' \<noteq> Overflow) \<and> (\<forall>c. abs l' \<noteq> Complete c)"
proof (induction l piece arbitrary: acc cs l' ok rule: deliver.induct)
  case (1 l piece)
  obtain n st where ff: "frame_feed acc piece = (n, st)" by fastforce
  from feed_partial [OF "1.prems"(1,2) ff] obtain l1 where
    l1: "feed l piece = (if st = Overflow then Err LineTooLong else Ok n, l1)" "inv l1" "abs l1 = st"
    by blast
  note fr = frames_feed [of acc piece "[]", simplified ff, simplified]
  show ?case
  proof (cases st)
    case (Partial acc')
    with l1 "1.prems" fr show ?thesis
      by (auto simp: deliver.simps [of l piece] line_abs)
  next
    case Overflow
    with l1 "1.prems" fr show ?thesis by (auto simp: deliver.simps [of l piece])
  next
    case (Complete c)
    have n: "0 < n" "n \<le> length piece"
      using ff Complete frame_feed_pos frame_feed_le by blast+
    obtain cs' l'' ok' where rest: "deliver (clear l1) (drop n piece) = (cs', l'', ok')"
      by (metis prod_cases3)
    have fl: "feed l piece = (Ok n, l1)" and ln: "line l1 = Some c"
      using l1 Complete by (simp_all add: line_abs)
    have "deliver l piece = (c # cs', l'', ok')"
      using fl ln n rest by (simp add: deliver.simps [of l piece])
    with "1.prems" have eqs: "cs = c # cs'" "l' = l''" "ok = ok'" by simp_all
    have "inv (clear l1)" "abs (clear l1) = Partial []" using clear_abs l1(2) by blast+
    from "1.IH" [OF fl [symmetric] refl ln _ this rest] n
    show ?thesis using eqs Complete fr by (auto split: prod.splits)
  qed
qed

lemma deliver_all_spec:
  "inv l \<Longrightarrow> abs l = Partial acc \<Longrightarrow> deliver_all l pieces = (cs, l', ok) \<Longrightarrow>
     inv l' \<and> abs l' = snd (frames acc (concat pieces)) \<and> cs = fst (frames acc (concat pieces))
     \<and> (ok \<longleftrightarrow> abs l' \<noteq> Overflow)"
proof (induction pieces arbitrary: l acc cs l' ok)
  case Nil
  then show ?case by auto
next
  case (Cons piece pieces)
  obtain cs1 l1 ok1 where d: "deliver l piece = (cs1, l1, ok1)" by (metis prod_cases3)
  note spec = deliver_spec [OF Cons.prems(1,2) d]
  show ?case
  proof (cases "abs l1")
    case (Partial acc1)
    obtain ds l2 ok2 where rest: "deliver_all l1 pieces = (ds, l2, ok2)" by (metis prod_cases3)
    have here: "snd (frames acc piece) = Partial acc1" "cs1 = fst (frames acc piece)" "ok1" "inv l1"
      using spec Partial by auto
    with d rest Cons.prems(3) have "cs = cs1 @ ds" "l' = l2" "ok = ok2" by auto
    with Cons.IH [OF here(4) Partial rest] here show ?thesis by (simp add: frames_append)
  next
    case (Complete c)
    with spec show ?thesis by blast
  next
    case Overflow
    have here: "snd (frames acc piece) = Overflow" "cs1 = fst (frames acc piece)" "\<not> ok1" "inv l1"
      using spec Overflow by auto
    with d Cons.prems(3) have "cs = cs1" "l' = l1" "\<not> ok" by auto
    with here Overflow show ?thesis by (simp add: frames_append)
  qed
qed

end

section \<open>LineBuffer is a framer\<close>

definition lb_inv :: "LineBuffer \<Rightarrow> bool" where
  "lb_inv lb \<longleftrightarrow> length (lb_storage lb) = MAX_LINE_BYTES \<and> lb_len lb \<le> MAX_LINE_BYTES
     \<and> wiped (drop (lb_len lb) (lb_storage lb))
     \<and> (lb_failed lb \<longrightarrow> \<not> lb_ready lb \<and> lb_len lb = 0)
     \<and> (\<not> lb_ready lb \<longrightarrow> lb_len lb < MAX_LINE_BYTES)
     \<and> (lb_ready lb \<longrightarrow> lb_content_len lb < lb_len lb)"

definition lb_abs :: "LineBuffer \<Rightarrow> framing" where
  "lb_abs lb =
     (if lb_failed lb then Overflow
      else if lb_ready lb then Complete (take (lb_content_len lb) (lb_storage lb))
      else Partial (take (lb_len lb) (lb_storage lb)))"

lemma take_content:
  assumes "n < length st"
  shows "take (if 0 < n \<and> (st[n := b]) ! (n - 1) = CR then n - 1 else n) (st[n := b]) = strip_cr (take n st)"
proof (cases "n = 0")
  case False
  then have ne: "take n st \<noteq> []" using assms by auto
  from last_conv_nth [OF ne] False assms have "last (take n st) = st ! (n - 1)" by simp
  with ne False assms show ?thesis
    by (auto simp: strip_cr_def butlast_take)
qed (simp add: strip_cr_def)

lemma feed_loop_spec:
  "lb_inv lb \<Longrightarrow> \<not> lb_failed lb \<Longrightarrow> \<not> lb_ready lb \<Longrightarrow>
     frame_feed (take (lb_len lb) (lb_storage lb)) input = (n, st) \<Longrightarrow>
     \<exists>lb'. feed_loop lb index input = (if st = Overflow then Err LineTooLong else Ok (index + n), lb')
        \<and> lb_inv lb' \<and> lb_abs lb' = st"
proof (induction lb index input arbitrary: n st rule: feed_loop.induct)
  case (1 lb index)
  then show ?case by (auto simp: lb_abs_def)
next
  case (2 lb index b input)
  let ?acc = "take (lb_len lb) (lb_storage lb)"
  let ?lb1 = "lb\<lparr>lb_storage := (lb_storage lb)[lb_len lb := b], lb_len := lb_len lb + 1\<rparr>"
  have lt: "lb_len lb < length (lb_storage lb)" and acc: "length ?acc = lb_len lb"
    and wd: "wiped (drop (Suc (lb_len lb)) (lb_storage lb))"
    and len: "length (lb_storage lb) = MAX_LINE_BYTES"
    using "2.prems" wiped_drop [of "drop (lb_len lb) (lb_storage lb)" 1] by (auto simp: lb_inv_def)
  have set: "set_at (lb_storage lb) (lb_len lb) b = Some ((lb_storage lb)[lb_len lb := b])"
    using lt by (simp add: set_at_def)
  consider (lf) "b = LF" | (full) "b \<noteq> LF" "lb_len lb + 1 = MAX_LINE_BYTES"
    | (more) "b \<noteq> LF" "lb_len lb + 1 \<noteq> MAX_LINE_BYTES" by blast
  then show ?case
  proof cases
    case lf
    then have "n = 1" "st = Complete (strip_cr ?acc)"
      using "2.prems"(4) by (auto simp: frame_byte_def)
    with lf set lt wd len "2.prems"(1-3) take_content [OF lt, of b] show ?thesis
      by (auto simp: Let_def lb_abs_def lb_inv_def split: if_splits)
  next
    case full
    then have "st = Overflow" using "2.prems"(4) acc by (simp add: frame_byte_def)
    with full set len show ?thesis
      by (auto simp: Let_def lb_clear_def lb_inv_def lb_abs_def MAX_LINE_BYTES_def wiped_drop)
  next
    case more
    then obtain m where m: "frame_feed (?acc @ [b]) input = (m, st)" "n = Suc m"
      using "2.prems"(4) acc by (auto simp: frame_byte_def split: prod.splits)
    have "lb_inv ?lb1"
      using more "2.prems"(1-3) lt wd len by (auto simp: lb_inv_def)
    moreover have "take (lb_len ?lb1) (lb_storage ?lb1) = ?acc @ [b]"
      using lt by (simp add: take_Suc_conv_app_nth)
    ultimately have "\<exists>lb'. feed_loop ?lb1 (index + 1) input =
          (if st = Overflow then Err LineTooLong else Ok (index + 1 + m), lb')
        \<and> lb_inv lb' \<and> lb_abs lb' = st"
      using "2.IH" [OF set refl more(1), of m st] more m(1) "2.prems"(2,3)
      by (cases "st = Overflow") auto
    with more set m(2) show ?thesis by (cases "st = Overflow") (auto simp: Let_def)
  qed
qed

interpretation lines: line_framer lb_inv lb_abs lb_new lb_feed lb_line lb_clear
proof (unfold_locales, goal_cases)
  case 1
  show ?case by (simp add: lb_inv_def lb_abs_def lb_new_def MAX_LINE_BYTES_def)
next
  case (2 lb)
  then show ?case by (auto simp: lb_inv_def lb_abs_def lb_clear_def MAX_LINE_BYTES_def)
next
  case (3 lb)
  then show ?case by (auto simp: lb_inv_def lb_abs_def lb_line_def)
next
  case (4 lb acc input n st)
  from 4(2) have "\<not> lb_failed lb" "\<not> lb_ready lb" "acc = take (lb_len lb) (lb_storage lb)"
    by (auto simp: lb_abs_def split: if_splits)
  with 4 feed_loop_spec [of lb input n st 0] show ?case
    by (cases "st = Overflow") (auto simp: lb_feed_def)
qed

lemma lb_line_mut_inv:
  assumes "lb_inv lb" and "\<And>l. length (f l) = length l"
  shows "lb_inv (lb_line_mut lb f)"
    and "lb_line (lb_line_mut lb f) = map_option f (lb_line lb)"
  using assms by (auto simp: lb_line_mut_def lb_line_def lb_inv_def)

lemma lb_feed_sticky:
  "lb_failed lb \<Longrightarrow> lb_feed lb input = (Err LineTooLong, lb) \<and> lb_finish_eof lb = Err LineTooLong"
  by (simp add: lb_feed_def lb_finish_eof_def)

text \<open>The three outcomes of feeding an empty or partial buffer, for the channel.\<close>

lemma lb_feed_partial:
  assumes "lb_inv lb" and "lb_abs lb = Partial acc"
  shows "(\<exists>lb'. lb_feed lb input = (Ok (length input), lb') \<and> lb_inv lb' \<and> lb_abs lb' = Partial (acc @ input)
            \<and> frame_feed acc input = (length input, Partial (acc @ input)))
       \<or> (\<exists>lb' n c. lb_feed lb input = (Ok n, lb') \<and> lb_inv lb' \<and> lb_abs lb' = Complete c
            \<and> 0 < n \<and> n \<le> length input \<and> frame_feed acc input = (n, Complete c))
       \<or> (\<exists>lb' n. lb_feed lb input = (Err LineTooLong, lb') \<and> lb_inv lb' \<and> lb_abs lb' = Overflow
            \<and> frame_feed acc input = (n, Overflow))"
proof -
  obtain n st where ff: "frame_feed acc input = (n, st)" by fastforce
  from lines.feed_partial [OF assms ff] obtain lb' where lb':
    "lb_feed lb input = (if st = Overflow then Err LineTooLong else Ok n, lb')" "lb_inv lb'" "lb_abs lb' = st"
    by blast
  show ?thesis
  proof (cases st)
    case (Partial acc')
    with frame_feed_partial ff have "n = length input" "acc' = acc @ input" by blast+
    with lb' ff Partial show ?thesis by auto
  next
    case (Complete c)
    with frame_feed_pos frame_feed_le ff have "0 < n" "n \<le> length input" by blast+
    with lb' ff Complete show ?thesis by auto
  next
    case Overflow
    with lb' ff show ?thesis by auto
  qed
qed

text \<open>
  C5: framing does not depend on how the stream is cut. Whatever pieces a stream arrives
  in, feeding them to a fresh buffer and clearing it after each line delivers exactly the
  lines of the whole stream (each ended by LF, an optional CR before it removed), stops
  with a sticky error exactly when some line cannot fit its terminator in the wire limit,
  and leaves the unterminated rest in the buffer with everything behind it wiped.
\<close>

theorem framing_chunk_independent:
  "case lines.deliver_all lb_new pieces of
     (ls, lb, ok) \<Rightarrow>
       ls = fst (frames [] (concat pieces))
     \<and> ok = (snd (frames [] (concat pieces)) \<noteq> Overflow)
     \<and> lb_abs lb = snd (frames [] (concat pieces))
     \<and> lb_failed lb = (\<not> ok) \<and> wiped (drop (lb_len lb) (lb_storage lb))"
proof -
  obtain ls lb ok where d: "lines.deliver_all lb_new pieces = (ls, lb, ok)" by (metis prod_cases3)
  have "lb_inv lb_new" "lb_abs lb_new = Partial []" using lines.fresh_abs by blast+
  from lines.deliver_all_spec [OF this d] d show ?thesis
    by (auto simp: lb_inv_def lb_abs_def split: if_splits)
qed

text \<open>Sequences of operations on one buffer.\<close>

datatype lb_op = OpFeed bytes | OpClear | OpEdit "bytes \<Rightarrow> bytes"

fun lb_apply :: "LineBuffer \<Rightarrow> lb_op \<Rightarrow> LineBuffer" where
  "lb_apply lb (OpFeed input) = snd (lb_feed lb input)"
| "lb_apply lb OpClear = lb_clear lb"
| "lb_apply lb (OpEdit f) = lb_line_mut lb f"

definition lb_op_ok :: "lb_op \<Rightarrow> bool" where
  "lb_op_ok op = (case op of OpEdit f \<Rightarrow> (\<forall>l. length (f l) = length l) | _ \<Rightarrow> True)"

lemma lb_feed_inv:
  assumes "lb_inv lb"
  shows "lb_inv (snd (lb_feed lb input)) \<and> fst (lb_feed lb input) \<noteq> Panic"
proof (cases "lb_abs lb")
  case (Partial acc)
  with lb_feed_partial [OF assms this, of input] show ?thesis by auto
qed (use assms in \<open>auto simp: lb_abs_def lb_feed_def split: if_splits\<close>)

lemma lb_apply_inv: "lb_inv lb \<Longrightarrow> lb_op_ok op \<Longrightarrow> lb_inv (lb_apply lb op)"
  by (cases op) (auto simp: lb_feed_inv lines.clear_abs lb_line_mut_inv lb_op_ok_def)

lemma lb_run_inv: "lb_inv lb \<Longrightarrow> list_all lb_op_ok ops \<Longrightarrow> lb_inv (foldl lb_apply lb ops)"
  by (induction ops arbitrary: lb) (auto simp: lb_apply_inv)

text \<open>
  the buffer's invariant. From a fresh buffer, any sequence of feeds, clears and
  same-length in-place edits keeps the storage size, never panics, and leaves no byte of an
  earlier line behind the current one; clearing wipes the whole storage, and after a
  framing failure the storage is wiped and every later feed fails until the buffer is cleared.
\<close>

theorem line_buffer_invariant:
  assumes "list_all lb_op_ok ops"
  shows "let lb = foldl lb_apply lb_new ops in
      length (lb_storage lb) = MAX_LINE_BYTES \<and> wiped (drop (lb_len lb) (lb_storage lb))
    \<and> fst (lb_feed lb input) \<noteq> Panic
    \<and> wiped (lb_storage (lb_clear lb))
    \<and> (lb_failed lb \<longrightarrow> wiped (lb_storage lb) \<and> lb_line lb = None
         \<and> lb_feed lb input = (Err LineTooLong, lb) \<and> lb_finish_eof lb = Err LineTooLong)"
proof -
  have "lb_inv (foldl lb_apply lb_new ops)"
    using lb_run_inv assms lines.fresh_abs by blast
  then show ?thesis
    using lb_feed_inv [of "foldl lb_apply lb_new ops" input]
    by (auto simp: Let_def lb_inv_def lb_clear_def lb_line_def lb_feed_sticky)
qed

theorem line_buffer_invariant_witness:
  "list_all lb_op_ok [OpFeed (lit ''secret''), OpFeed [LF], OpEdit (map (\<lambda>_. 0)), OpClear]
   \<and> wiped (lb_storage (lb_clear (foldl lb_apply lb_new
        [OpFeed (lit ''secret''), OpFeed [LF], OpEdit (map (\<lambda>_. 0)), OpClear])))"
proof -
  have ok: "list_all lb_op_ok [OpFeed (lit ''secret''), OpFeed [LF], OpEdit (map (\<lambda>_. 0)), OpClear]"
    by (simp add: lb_op_ok_def)
  show ?thesis using ok line_buffer_invariant [OF ok] by (simp add: Let_def)
qed

end
