(* ===== verification/Machines.thy ===== *)
theory Machines
  imports Message
begin

text \<open>
  The session state machines (\<open>assuan-protocol/src/state/mod.rs\<close>, \<open>client.rs\<close> and
  \<open>server.rs\<close>): request categories, transition errors, the client and the server machine
  with every transition. The arms of each \<open>match\<close> are the branches of one conditional, in
  the order of the source.

  The interface \<open>session_machine\<close> states what both machines promise (a refused or failed
  session is never usable again, and finals and operations alternate) and is interpreted
  on both. The last section connects the two machines by FIFO queues and shows that peers
  which respect their own machine never surprise the other one.
\<close>

section \<open>Categories and errors\<close>

datatype RequestKind = ReqCommand | ReqData | ReqEnd | ReqCan | ReqComment | ReqEmpty

datatype StateError = UnexpectedEvent | NotReady | Unusable | GreetingRejected

fun state_error_display :: "StateError \<Rightarrow> string" where
  "state_error_display UnexpectedEvent = ''unexpected session event''"
| "state_error_display NotReady = ''session is not ready for this operation''"
| "state_error_display Unusable = ''session is invalid or closed''"
| "state_error_display GreetingRejected = ''server rejected the greeting''"

section \<open>The client machine\<close>

datatype ClientState =
    CGreeting | CReady | CCommand | CInquiry | CAwaitFinal | CInvalid | CClosed

record ClientMachine =
  cm_state :: ClientState
  cm_inquiry_origin :: ClientState

definition cm_new :: ClientMachine where
  "cm_new = \<lparr>cm_state = CGreeting, cm_inquiry_origin = CGreeting\<rparr>"

definition cm_invalidate :: "ClientMachine \<Rightarrow> ClientMachine" where
  "cm_invalidate m = (if cm_state m \<noteq> CClosed then m\<lparr>cm_state := CInvalid\<rparr> else m)"

definition cm_close :: "ClientMachine \<Rightarrow> ClientMachine" where
  "cm_close m = m\<lparr>cm_state := CClosed\<rparr>"

definition cm_begin_command :: "ClientMachine \<Rightarrow> (unit, StateError) result \<times> ClientMachine" where
  "cm_begin_command m =
     (case cm_state m of
        CReady \<Rightarrow> (Ok (), m\<lparr>cm_state := CCommand\<rparr>)
      | CInvalid \<Rightarrow> (Err Unusable, m)
      | CClosed \<Rightarrow> (Err Unusable, m)
      | _ \<Rightarrow> (Err NotReady, m))"

definition cm_receive ::
  "ClientMachine \<Rightarrow> LineKind \<Rightarrow> (unit, StateError) result \<times> ClientMachine" where
  "cm_receive m e =
     (let s = cm_state m in
      if s \<in> {CInvalid, CClosed} then (Err Unusable, m)
      else if e \<in> {KComment, KEmpty}
           \<or> s \<in> {CGreeting, CCommand, CInquiry, CAwaitFinal} \<and> e = KStatus
           \<or> s = CCommand \<and> e \<in> {KData, KEnd} then (Ok (), m)
      else if s \<in> {CGreeting, CCommand} \<and> e = KInquire then
        (Ok (), m\<lparr>cm_inquiry_origin := s, cm_state := CInquiry\<rparr>)
      else if s = CGreeting \<and> e = KOk \<or> s = CCommand \<and> e \<in> {KOk, KErr} then
        (Ok (), m\<lparr>cm_state := CReady\<rparr>)
      else if s = CGreeting \<and> e = KErr then (Err GreetingRejected, cm_invalidate m)
      else if s = CAwaitFinal \<and> e \<in> {KOk, KErr} then
        (if cm_inquiry_origin m = CGreeting \<and> e = KErr
         then (Err GreetingRejected, cm_invalidate m)
         else (Ok (), m\<lparr>cm_state := CReady\<rparr>))
      else (Err UnexpectedEvent, cm_invalidate m))"

definition cm_finish_inquiry ::
  "ClientMachine \<Rightarrow> bool \<Rightarrow> (unit, StateError) result \<times> ClientMachine" where
  "cm_finish_inquiry m cancelled =
     (case cm_state m of
        CInvalid \<Rightarrow> (Err Unusable, m)
      | CClosed \<Rightarrow> (Err Unusable, m)
      | CInquiry \<Rightarrow>
          (Ok (), m\<lparr>cm_state := if cancelled then CAwaitFinal else cm_inquiry_origin m\<rparr>)
      | _ \<Rightarrow> (Err NotReady, m))"

section \<open>The server machine\<close>

datatype ServerState =
    SGreeting | SReady | SHandler | SInquiry | SAwaitFinal | SInvalid | SClosed

record ServerMachine =
  sm_state :: ServerState
  sm_inquiry_origin :: ServerState

definition sm_new :: ServerMachine where
  "sm_new = \<lparr>sm_state = SGreeting, sm_inquiry_origin = SGreeting\<rparr>"

definition sm_invalidate :: "ServerMachine \<Rightarrow> ServerMachine" where
  "sm_invalidate m = (if sm_state m \<noteq> SClosed then m\<lparr>sm_state := SInvalid\<rparr> else m)"

definition sm_close :: "ServerMachine \<Rightarrow> ServerMachine" where
  "sm_close m = m\<lparr>sm_state := SClosed\<rparr>"

definition sm_receive_request ::
  "ServerMachine \<Rightarrow> RequestKind \<Rightarrow> (unit, StateError) result \<times> ServerMachine" where
  "sm_receive_request m e =
     (let s = sm_state m in
      if s \<in> {SInvalid, SClosed} then (Err Unusable, m)
      else if e \<in> {ReqComment, ReqEmpty} \<or> s = SInquiry \<and> e = ReqData then (Ok (), m)
      else if s = SReady \<and> e = ReqCommand then (Ok (), m\<lparr>sm_state := SHandler\<rparr>)
      else if s = SInquiry \<and> e = ReqEnd then (Ok (), m\<lparr>sm_state := sm_inquiry_origin m\<rparr>)
      else if s = SInquiry \<and> e = ReqCan then (Ok (), m\<lparr>sm_state := SAwaitFinal\<rparr>)
      else (Err UnexpectedEvent, sm_invalidate m))"

definition sm_send_response ::
  "ServerMachine \<Rightarrow> LineKind \<Rightarrow> (unit, StateError) result \<times> ServerMachine" where
  "sm_send_response m e =
     (let s = sm_state m in
      if s \<in> {SInvalid, SClosed} then (Err Unusable, m)
      else if e \<in> {KComment, KEmpty}
           \<or> s \<in> {SGreeting, SHandler, SInquiry, SAwaitFinal} \<and> e = KStatus
           \<or> s = SHandler \<and> e \<in> {KData, KEnd} then (Ok (), m)
      else if s \<in> {SGreeting, SHandler} \<and> e = KInquire then
        (Ok (), m\<lparr>sm_inquiry_origin := s, sm_state := SInquiry\<rparr>)
      else if s = SGreeting \<and> e = KOk \<or> s = SHandler \<and> e \<in> {KOk, KErr} then
        (Ok (), m\<lparr>sm_state := SReady\<rparr>)
      else if s = SGreeting \<and> e = KErr then (Ok (), sm_invalidate m)
      else if s = SAwaitFinal \<and> e \<in> {KOk, KErr} then
        (Ok (), if sm_inquiry_origin m = SGreeting \<and> e = KErr then sm_invalidate m
                else m\<lparr>sm_state := SReady\<rparr>)
      else (Err UnexpectedEvent, sm_invalidate m))"

lemmas client_machine_defs =
  cm_new_def cm_invalidate_def cm_close_def cm_begin_command_def cm_receive_def
  cm_finish_inquiry_def

lemmas server_machine_defs =
  sm_new_def sm_invalidate_def sm_close_def sm_receive_request_def sm_send_response_def

section \<open>What a session machine promises\<close>

text \<open>
  An event of a session either opens an operation (a command), closes one (an accepted
  final), or does neither. The laws are those of one transition; the lemmas inside the
  locale lift them to whole sessions.
\<close>

locale session_machine =
  fixes step :: "'m \<Rightarrow> 'e \<Rightarrow> (unit, StateError) result \<times> 'm"
    and fresh :: 'm
    and dead :: "'m \<Rightarrow> bool"
    and busy :: "'m \<Rightarrow> bool"
    and opens :: "'e \<Rightarrow> bool"
    and closes :: "'e \<Rightarrow> bool"
    and good :: "'m \<Rightarrow> bool"
  assumes fresh_good: "good fresh \<and> busy fresh \<and> \<not> dead fresh"
    and good_step: "good m \<Longrightarrow> good (snd (step m e))"
    and dead_busy: "dead m \<Longrightarrow> \<not> busy m"
    and dead_step: "dead m \<Longrightarrow> step m e = (Err Unusable, m)"
    and no_panic: "fst (step m e) \<noteq> Panic"
    and live_error: "\<not> dead m \<Longrightarrow> fst (step m e) = Err x \<Longrightarrow> dead (snd (step m e)) \<or> snd (step m e) = m \<and> x = NotReady"
    and disjoint: "\<not> (opens e \<and> closes e)"
    and open_step: "good m \<Longrightarrow> opens e \<Longrightarrow> step m e = (Ok (), m') \<Longrightarrow> \<not> busy m \<and> busy m'"
    and close_step: "good m \<Longrightarrow> closes e \<Longrightarrow> step m e = (Ok (), m') \<Longrightarrow> busy m \<and> \<not> busy m'"
    and other_step: "good m \<Longrightarrow> \<not> opens e \<Longrightarrow> \<not> closes e \<Longrightarrow> step m e = (Ok (), m') \<Longrightarrow> busy m' = busy m"
begin

text \<open>The events of a session that were accepted, and the machine after all of them.\<close>

fun session :: "'m \<Rightarrow> 'e list \<Rightarrow> 'e list \<times> 'm" where
  "session m [] = ([], m)"
| "session m (e # es) =
     (case step m e of
        (r, m') \<Rightarrow> (case session m' es of (acc, m'') \<Rightarrow> (if r = Ok () then e # acc else acc, m'')))"

lemma session_append:
  "session m (xs @ ys) =
     (case session m xs of (a, m') \<Rightarrow> (case session m' ys of (b, m'') \<Rightarrow> (a @ b, m'')))"
  by (induction xs arbitrary: m) (auto split: prod.splits)

lemma session_dead: "dead m \<Longrightarrow> session m es = ([], m)"
  by (induction es) (auto simp: dead_step)

lemma session_good: "good m \<Longrightarrow> good (snd (session m es))"
proof (induction es arbitrary: m)
  case (Cons e es)
  then have "good (snd (session (snd (step m e)) es))" by (simp add: good_step)
  then show ?case by (auto split: prod.splits)
qed simp

text \<open>Operations opened and not yet closed: one while the machine is busy, none else.\<close>

lemma session_balance_gen:
  assumes "good m" and "session m es = (acc, m')" and "\<not> dead m'"
  shows "length (filter opens acc) + (if busy m then 1 else 0)
         = length (filter closes acc) + (if busy m' then 1 else 0)"
  using assms
proof (induction es arbitrary: m acc)
  case (Cons e es)
  obtain r m1 where st: "step m e = (r, m1)" by force
  obtain acc1 where ss: "session m1 es = (acc1, m')" and acc: "acc = (if r = Ok () then e # acc1 else acc1)"
    using Cons.prems(2) st by (auto split: prod.splits)
  have "good m1" using good_step [OF Cons.prems(1), of e] st by simp
  note IH = Cons.IH [OF this ss Cons.prems(3)]
  have ndead: "\<not> dead m1" using session_dead [of m1 es] ss Cons.prems(3) by auto
  show ?case
  proof (cases r)
    case (Ok u)
    then show ?thesis
      using IH acc st disjoint [of e] open_step [of m e m1] close_step [of m e m1]
        other_step [of m e m1] Cons.prems(1)
      by (cases "opens e"; cases "closes e") auto
  next
    case (Err x)
    have "m1 = m"
    proof (cases "dead m")
      case True then show ?thesis using dead_step [of m e] st by simp
    next
      case False then show ?thesis using live_error [of m e x] st Err ndead by auto
    qed
    then show ?thesis using IH acc Err by simp
  next
    case Panic
    then show ?thesis using no_panic [of m e] st by simp
  qed
qed simp

lemma session_prefix:
  assumes "session fresh es = (acc, m')"
  shows "length (filter opens acc) \<le> length (filter closes acc)
       \<and> length (filter closes acc) \<le> Suc (length (filter opens acc))"
  using assms
proof (induction es arbitrary: acc m' rule: rev_induct)
  case (snoc e es)
  obtain a m1 where s1: "session fresh es = (a, m1)" by force
  obtain r m2 where st: "step m1 e = (r, m2)" by force
  have acc: "acc = (if r = Ok () then a @ [e] else a)" and m': "m' = m2"
    using snoc.prems s1 st by (auto simp: session_append)
  have g: "good m1" using session_good [of fresh es] fresh_good s1 by simp
  note IH = snoc.IH [OF s1]
  show ?case
  proof (cases "r = Ok ()")
    case True
    then have nd: "\<not> dead m1" using dead_step [of m1 e] st by auto
    have fg: "good fresh" "busy fresh" using fresh_good by auto
    have "length (filter opens a) + 1 = length (filter closes a) + (if busy m1 then 1 else 0)"
      using session_balance_gen [OF fg(1) s1 nd] fg(2) by simp
    then show ?thesis
      using True acc st g disjoint [of e] open_step [of m1 e m2] close_step [of m1 e m2]
      by (cases "opens e"; cases "closes e"; cases "busy m1") auto
  next
    case False
    then show ?thesis using IH acc by simp
  qed
qed simp

end

section \<open>Both machines are session machines\<close>

datatype client_event = CBegin | CReceive LineKind | CFinish bool

fun client_step :: "ClientMachine \<Rightarrow> client_event \<Rightarrow> (unit, StateError) result \<times> ClientMachine" where
  "client_step m CBegin = cm_begin_command m"
| "client_step m (CReceive k) = cm_receive m k"
| "client_step m (CFinish cancelled) = cm_finish_inquiry m cancelled"

datatype server_event = SRequest RequestKind | SSend LineKind

fun server_step :: "ServerMachine \<Rightarrow> server_event \<Rightarrow> (unit, StateError) result \<times> ServerMachine" where
  "server_step m (SRequest e) = sm_receive_request m e"
| "server_step m (SSend k) = sm_send_response m k"

definition cm_dead :: "ClientMachine \<Rightarrow> bool" where
  "cm_dead m \<longleftrightarrow> cm_state m \<in> {CInvalid, CClosed}"

definition cm_busy :: "ClientMachine \<Rightarrow> bool" where
  "cm_busy m \<longleftrightarrow> cm_state m \<in> {CGreeting, CCommand, CInquiry, CAwaitFinal}"

definition cm_good :: "ClientMachine \<Rightarrow> bool" where
  "cm_good m \<longleftrightarrow> cm_inquiry_origin m \<in> {CGreeting, CCommand}"

definition sm_dead :: "ServerMachine \<Rightarrow> bool" where
  "sm_dead m \<longleftrightarrow> sm_state m \<in> {SInvalid, SClosed}"

definition sm_busy :: "ServerMachine \<Rightarrow> bool" where
  "sm_busy m \<longleftrightarrow> sm_state m \<in> {SGreeting, SHandler, SInquiry, SAwaitFinal}"

definition sm_good :: "ServerMachine \<Rightarrow> bool" where
  "sm_good m \<longleftrightarrow> sm_inquiry_origin m \<in> {SGreeting, SHandler}"

fun client_final :: "client_event \<Rightarrow> bool" where
  "client_final (CReceive k) = (k \<in> {KOk, KErr})"
| "client_final _ = False"

fun server_final :: "server_event \<Rightarrow> bool" where
  "server_final (SSend k) = (k \<in> {KOk, KErr})"
| "server_final _ = False"

text \<open>The origin of an inquiry is a phase that can resume.\<close>

lemma cm_good_step: "cm_good m \<Longrightarrow> cm_good (snd (client_step m e))"
  by (cases e) (auto simp: client_machine_defs cm_good_def Let_def split: ClientState.splits)

lemma sm_good_step: "sm_good m \<Longrightarrow> sm_good (snd (server_step m e))"
  by (cases e) (auto simp: server_machine_defs sm_good_def Let_def)

lemmas phase_defs =
  cm_dead_def cm_busy_def cm_good_def sm_dead_def sm_busy_def sm_good_def

interpretation client: session_machine client_step cm_new cm_dead cm_busy
  "\<lambda>e. e = CBegin" client_final cm_good
proof (unfold_locales, goal_cases)
  case 1 show ?case by (simp add: client_machine_defs phase_defs)
next
  case (2 m e) then show ?case by (rule cm_good_step)
next
  case (3 m) then show ?case by (auto simp: phase_defs)
next
  case (4 m e) then show ?case
    by (cases e) (auto simp: client_machine_defs phase_defs Let_def)
next
  case (5 m e) show ?case
    by (cases e; cases "cm_state m")
       (auto simp: client_machine_defs Let_def)
next
  case (6 m e x) then show ?case
    by (cases e; cases "cm_state m")
       (auto simp: client_machine_defs phase_defs Let_def split: if_splits)
next
  case (7 e) show ?case by (cases e) auto
next
  case (8 m e m') then show ?case
    by (cases "cm_state m") (auto simp: client_machine_defs phase_defs)
next
  case (9 m e m') then show ?case
    by (cases e; cases "cm_state m")
       (auto simp: client_machine_defs phase_defs Let_def split: if_splits)
next
  case (10 m e m') then show ?case
    by (cases e; cases "cm_state m")
       (auto simp: client_machine_defs phase_defs Let_def split: if_splits)
qed

interpretation server: session_machine server_step sm_new sm_dead sm_busy
  "\<lambda>e. e = SRequest ReqCommand" server_final sm_good
proof (unfold_locales, goal_cases)
  case 1 show ?case by (simp add: server_machine_defs phase_defs)
next
  case (2 m e) then show ?case by (rule sm_good_step)
next
  case (3 m) then show ?case by (auto simp: phase_defs)
next
  case (4 m e) then show ?case
    by (cases e) (auto simp: server_machine_defs phase_defs Let_def)
next
  case (5 m e) show ?case
    by (cases e; cases "sm_state m")
       (auto simp: server_machine_defs Let_def)
next
  case (6 m e x) then show ?case
    by (cases e; cases "sm_state m")
       (auto simp: server_machine_defs phase_defs Let_def split: if_splits)
next
  case (7 e) show ?case by (cases e) auto
next
  case (8 m e m') then show ?case
    by (cases "sm_state m") (auto simp: server_machine_defs phase_defs Let_def)
next
  case (9 m e m') then show ?case
    by (cases e; cases "sm_state m")
       (auto simp: server_machine_defs phase_defs Let_def split: if_splits)
next
  case (10 m e m') then show ?case
    by (cases e; cases "sm_state m")
       (auto simp: server_machine_defs phase_defs Let_def split: if_splits)
qed

text \<open>
  C19: In every session of the server machine, at most one final response is accepted per
  operation (the greeting or a command) and no command is accepted before the final of
  the operation ahead of it; while the session is usable the open operation is exactly the
  one the phase names. After the session is dead nothing is accepted and nothing changes.
\<close>

theorem server_one_final_per_operation:
  "case server.session sm_new es of (acc, m) \<Rightarrow>
     (let commands = length (filter (\<lambda>e. e = SRequest ReqCommand) acc);
          finals = length (filter server_final acc)
      in commands \<le> finals \<and> finals \<le> Suc commands
       \<and> (if sm_dead m then server.session m later = ([], m)
          else Suc commands = finals + (if sm_busy m then 1 else 0)))"
proof -
  obtain acc m where s: "server.session sm_new es = (acc, m)" by force
  show ?thesis
    using server.session_prefix [OF s] server.session_balance_gen [OF _ s] server.fresh_good
      server.session_dead [of m later] s
    by (auto simp: Let_def)
qed

lemma invalidate_dead: "cm_dead (cm_invalidate m)" "cm_dead (cm_close m)"
  "sm_dead (sm_invalidate sm)" "sm_dead (sm_close sm)"
  by (simp_all add: client_machine_defs server_machine_defs phase_defs)

text \<open>
  C20: In every session of the client machine a command is begun only after the final of the
  operation ahead of it, every final completes exactly one operation, and a machine that
  was invalidated or closed at any point accepts nothing afterwards.
\<close>

theorem client_one_final_per_operation:
  "case client.session cm_new es of (acc, m) \<Rightarrow>
     (let commands = length (filter (\<lambda>e. e = CBegin) acc);
          finals = length (filter client_final acc)
      in commands \<le> finals \<and> finals \<le> Suc commands
       \<and> (if cm_dead m then client.session m later = ([], m)
          else Suc commands = finals + (if cm_busy m then 1 else 0))
       \<and> client.session (cm_invalidate m) later = ([], cm_invalidate m)
       \<and> client.session (cm_close m) later = ([], cm_close m))"
proof -
  obtain acc m where s: "client.session cm_new es = (acc, m)" by force
  show ?thesis
    using client.session_prefix [OF s] client.session_balance_gen [OF _ s] client.fresh_good
      client.session_dead [of m later] client.session_dead [OF invalidate_dead(1), of m later]
      client.session_dead [OF invalidate_dead(2), of m later] s
    by (auto simp: Let_def)
qed

section \<open>Two peers joined by FIFO queues\<close>

text \<open>
  The joint system: a client and a server machine, the response categories in flight to the
  client and the request categories in flight to the server. A peer sends what its own
  machine accepts; inquiry data is sent while the client is in its inquiry phase.
  A peer that receives a line applies its machine to it, whatever the outcome.
\<close>

inductive joint ::
  "ClientMachine \<Rightarrow> ServerMachine \<Rightarrow> LineKind list \<Rightarrow> RequestKind list \<Rightarrow> bool" where
  start: "joint cm_new sm_new [] []"
| server_sends:
    "joint c s q r \<Longrightarrow> sm_send_response s k = (Ok (), s') \<Longrightarrow> joint c s' (q @ [k]) r"
| client_receives: "joint c s (k # q) r \<Longrightarrow> joint (snd (cm_receive c k)) s q r"
| client_begins:
    "joint c s q r \<Longrightarrow> cm_begin_command c = (Ok (), c') \<Longrightarrow> joint c' s q (r @ [ReqCommand])"
| client_data: "joint c s q r \<Longrightarrow> cm_state c = CInquiry \<Longrightarrow> joint c s q (r @ [ReqData])"
| client_finishes:
    "joint c s q r \<Longrightarrow> cm_finish_inquiry c cancelled = (Ok (), c') \<Longrightarrow>
     joint c' s q (r @ [if cancelled then ReqCan else ReqEnd])"
| server_receives: "joint c s q (e # r) \<Longrightarrow> joint c (snd (sm_receive_request s e)) q r"

text \<open>Corresponding phases of the two machines.\<close>

fun peer_state :: "ClientState \<Rightarrow> ServerState" where
  "peer_state CGreeting = SGreeting"
| "peer_state CReady = SReady"
| "peer_state CCommand = SHandler"
| "peer_state CInquiry = SInquiry"
| "peer_state CAwaitFinal = SAwaitFinal"
| "peer_state CInvalid = SInvalid"
| "peer_state CClosed = SClosed"

lemma peer_state_inj [simp]: "peer_state a = peer_state b \<longleftrightarrow> a = b"
  by (cases a; cases b) auto

definition peers :: "ClientMachine \<Rightarrow> ServerMachine \<Rightarrow> bool" where
  "peers c s \<longleftrightarrow> cm_good c \<and> cm_state c \<noteq> CClosed
     \<and> sm_state s = peer_state (cm_state c)
     \<and> sm_inquiry_origin s = peer_state (cm_inquiry_origin c)"

text \<open>
  The client after it has received everything in flight to it, when none of it is
  unexpected (a rejected greeting is last), and the server likewise.
\<close>

fun client_absorbs :: "ClientMachine \<Rightarrow> LineKind list \<Rightarrow> ClientMachine option" where
  "client_absorbs c [] = Some c"
| "client_absorbs c (k # q) =
     (case cm_receive c k of
        (Ok _, c') \<Rightarrow> client_absorbs c' q
      | (Err GreetingRejected, c') \<Rightarrow> (if q = [] then Some c' else None)
      | _ \<Rightarrow> None)"

fun server_absorbs :: "ServerMachine \<Rightarrow> RequestKind list \<Rightarrow> ServerMachine option" where
  "server_absorbs s [] = Some s"
| "server_absorbs s (e # r) =
     (case sm_receive_request s e of (Ok _, s') \<Rightarrow> server_absorbs s' r | _ \<Rightarrow> None)"

text \<open>Lines that no phase reacts to, and the requests a client sends.\<close>

definition chatter :: "LineKind list \<Rightarrow> bool" where
  "chatter q \<longleftrightarrow> set q \<subseteq> {KComment, KEmpty, KStatus}"

definition requests :: "RequestKind list \<Rightarrow> bool" where
  "requests r \<longleftrightarrow> set r \<subseteq> {ReqCommand, ReqData, ReqEnd, ReqCan}"

lemma client_absorbs_append:
  "client_absorbs c q = Some c' \<Longrightarrow> \<not> cm_dead c' \<Longrightarrow>
   client_absorbs c (q @ q') = client_absorbs c' q'"
proof (induction q arbitrary: c)
  case (Cons k q)
  obtain r c1 where st: "cm_receive c k = (r, c1)" by force
  have "r = Err GreetingRejected \<Longrightarrow> cm_dead c1"
    using st by (auto simp: client_machine_defs cm_dead_def Let_def split: if_splits)
  then show ?case using Cons st by (auto split: result.splits StateError.splits if_splits)
qed simp

lemma server_absorbs_append:
  "server_absorbs s r = Some s' \<Longrightarrow> server_absorbs s (r @ r') = server_absorbs s' r'"
  by (induction r arbitrary: s) (auto split: prod.splits result.splits)

lemma client_absorbs_chatter: "cm_busy c \<Longrightarrow> chatter q \<Longrightarrow> client_absorbs c q = Some c"
proof (induction q)
  case (Cons k q)
  have "cm_receive c k = (Ok (), c)"
    using Cons.prems by (cases "cm_state c"; cases k; simp add: chatter_def cm_busy_def cm_receive_def)
  then show ?case using Cons by (simp add: chatter_def)
qed simp

lemma client_absorbs_waiting:
  "client_absorbs c q = Some c' \<Longrightarrow> cm_state c \<in> {CReady, CInquiry} \<Longrightarrow> c' = c \<and> chatter q"
proof (induction q)
  case (Cons k q)
  have "cm_receive c k = (Ok (), c) \<and> k \<in> {KComment, KEmpty, KStatus}"
    using Cons.prems
    by (cases k) (auto simp: cm_receive_def Let_def split: if_splits)
  then show ?case using Cons by (auto simp: chatter_def)
qed (simp add: chatter_def)

text \<open>A server with requests in flight to it waits for a command or for inquiry data.\<close>

lemma server_absorbs_phase:
  "server_absorbs s r = Some s' \<Longrightarrow> requests r \<Longrightarrow> r \<noteq> [] \<Longrightarrow> sm_good s \<Longrightarrow>
   sm_state s = SReady \<and> sm_state s' = SHandler
   \<or> sm_state s = SInquiry \<and> sm_state s' \<in> {SInquiry, SGreeting, SHandler, SAwaitFinal}"
proof (induction r arbitrary: s)
  case (Cons e r)
  obtain s1 where st: "sm_receive_request s e = (Ok (), s1)" and ab: "server_absorbs s1 r = Some s'"
    using Cons.prems(1) by (auto split: prod.splits result.splits)
  have e: "e \<in> {ReqCommand, ReqData, ReqEnd, ReqCan}" and r: "requests r"
    using Cons.prems(2) by (auto simp: requests_def)
  have g: "sm_good s1" using sm_good_step [OF Cons.prems(4), of "SRequest e"] st by simp
  have one: "sm_state s = SReady \<and> sm_state s1 = SHandler
    \<or> sm_state s = SInquiry \<and> sm_state s1 \<in> {SInquiry, SGreeting, SHandler, SAwaitFinal}"
    using st e Cons.prems(4)
    by (auto simp: sm_receive_request_def sm_good_def Let_def split: if_splits)
  show ?case
  proof (cases "r = []")
    case True
    then show ?thesis using one ab by auto
  next
    case False
    then show ?thesis using Cons.IH [OF ab r False g] one by auto
  qed
qed simp

definition joint_inv ::
  "ClientMachine \<Rightarrow> ServerMachine \<Rightarrow> LineKind list \<Rightarrow> RequestKind list \<Rightarrow> bool" where
  "joint_inv c s q r \<longleftrightarrow>
     sm_good s \<and> requests r \<and> (r = [] \<or> chatter q)
   \<and> (\<exists>c' s'. client_absorbs c q = Some c' \<and> server_absorbs s r = Some s' \<and> peers c' s')"

text \<open>What one machine may send, the other accepts, and the phases stay in step.\<close>

lemma peers_respond:
  assumes "peers c s" and "sm_send_response s k = (Ok (), s')"
  shows "\<not> cm_dead c \<and> (\<exists>c'. client_absorbs c [k] = Some c' \<and> peers c' s')"
proof -
  obtain st og where c: "c = \<lparr>cm_state = st, cm_inquiry_origin = og\<rparr>" by (cases c) auto
  have s: "s = \<lparr>sm_state = peer_state st, sm_inquiry_origin = peer_state og\<rparr>"
    and og: "og = CGreeting \<or> og = CCommand" and st: "st \<noteq> CClosed"
    using assms(1) c by (cases s; simp add: peers_def cm_good_def)+
  note defs = sm_send_response_def cm_receive_def cm_dead_def sm_invalidate_def cm_invalidate_def
    peers_def cm_good_def Let_def
  from og show ?thesis
  proof
    assume "og = CGreeting"
    with assms(2) st show ?thesis
      unfolding c s by (cases st; cases k; simp add: defs; auto)
  next
    assume "og = CCommand"
    with assms(2) st show ?thesis
      unfolding c s by (cases st; cases k; simp add: defs; auto)
  qed
qed

lemma joint_inv_server_sends:
  assumes inv: "joint_inv c s q r" and send: "sm_send_response s k = (Ok (), s')"
  shows "joint_inv c s' (q @ [k]) r"
proof -
  obtain c1 s1 where ab: "client_absorbs c q = Some c1" "server_absorbs s r = Some s1" "peers c1 s1"
    and g: "sm_good s" "requests r" "r = [] \<or> chatter q"
    using inv by (auto simp: joint_inv_def)
  have g': "sm_good s'" using sm_good_step [OF g(1), of "SSend k"] send by simp
  show ?thesis
  proof (cases "r = []")
    case True
    then have "peers c1 s" using ab by simp
    from peers_respond [OF this send] obtain c2
      where "\<not> cm_dead c1" "client_absorbs c1 [k] = Some c2" "peers c2 s'" by blast
    then show ?thesis
      using True g' g ab client_absorbs_append [OF ab(1), of "[k]"] by (auto simp: joint_inv_def)
  next
    case False
    note ph = server_absorbs_phase [OF ab(2) g(2) False g(1)]
    have k: "s' = s" "k \<in> {KComment, KEmpty, KStatus}"
      using ph send
      by (cases k; auto simp: sm_send_response_def Let_def split: if_splits)+
    have busy: "cm_busy c1"
      using ph ab(3) by (cases "cm_state c1") (auto simp: peers_def cm_busy_def)
    have "chatter (q @ [k])" using False g(3) k(2) by (auto simp: chatter_def)
    moreover have "client_absorbs c (q @ [k]) = Some c1"
      using client_absorbs_append [OF ab(1), of "[k]"] busy client_absorbs_chatter [OF busy, of "[k]"] k(2)
        client.dead_busy [of c1]
      by (auto simp: chatter_def)
    ultimately show ?thesis using k(1) g ab by (auto simp: joint_inv_def)
  qed
qed

text \<open>A request of a client that waits: everything in flight to it is chatter.\<close>

lemma joint_inv_client_sends:
  assumes inv: "joint_inv c s q r" and wait: "cm_state c \<in> {CReady, CInquiry}"
    and c': "cm_busy c'" and e: "requests [e]"
    and rel: "\<And>s1. peers c s1 \<Longrightarrow> \<exists>s2. sm_receive_request s1 e = (Ok (), s2) \<and> peers c' s2"
  shows "joint_inv c' s q (r @ [e])"
proof -
  obtain c1 s1 where ab: "client_absorbs c q = Some c1" "server_absorbs s r = Some s1" "peers c1 s1"
    and g: "sm_good s" "requests r"
    using inv by (auto simp: joint_inv_def)
  have w: "c1 = c" "chatter q" using client_absorbs_waiting [OF ab(1) wait] by auto
  then obtain s2 where "sm_receive_request s1 e = (Ok (), s2)" "peers c' s2"
    using rel ab(3) by blast
  then show ?thesis
    using w(2) g e ab server_absorbs_append [OF ab(2), of "[e]"] client_absorbs_chatter [OF c' w(2)]
    by (auto simp: joint_inv_def requests_def)
qed

lemma joint_inv_client_receives:
  "joint_inv c s (k # q) r \<Longrightarrow> joint_inv (snd (cm_receive c k)) s q r"
  by (auto simp: joint_inv_def chatter_def split: prod.splits result.splits StateError.splits if_splits)

lemma joint_inv_server_receives:
  assumes "joint_inv c s q (e # r)"
  shows "joint_inv c (snd (sm_receive_request s e)) q r"
  using assms sm_good_step [of s "SRequest e"]
  by (auto simp: joint_inv_def requests_def split: prod.splits result.splits)

lemma joint_invariant: "joint c s q r \<Longrightarrow> joint_inv c s q r"
proof (induction rule: joint.induct)
  case start
  show ?case
    by (auto simp: joint_inv_def peers_def client_machine_defs server_machine_defs phase_defs requests_def)
next
  case (server_sends c s q r k s')
  then show ?case using joint_inv_server_sends by blast
next
  case (client_receives c s k q r)
  then show ?case using joint_inv_client_receives by blast
next
  case (client_begins c s q r c')
  then have st: "cm_state c = CReady" "c' = c\<lparr>cm_state := CCommand\<rparr>"
    by (auto simp: cm_begin_command_def split: ClientState.splits)
  show ?case
    by (rule joint_inv_client_sends [OF client_begins.IH])
       (use st in \<open>auto simp: cm_busy_def requests_def peers_def cm_good_def sm_receive_request_def\<close>)
next
  case (client_data c s q r)
  then show ?case
    by (intro joint_inv_client_sends [OF client_data.IH])
       (auto simp: cm_busy_def requests_def peers_def sm_receive_request_def)
next
  case (client_finishes c s q r cancelled c')
  then have st: "cm_state c = CInquiry"
    "c' = c\<lparr>cm_state := if cancelled then CAwaitFinal else cm_inquiry_origin c\<rparr>"
    by (auto simp: cm_finish_inquiry_def split: ClientState.splits)
  have "cm_good c"
    using client_finishes.IH client_absorbs_waiting [of c q] st(1)
    by (auto simp: joint_inv_def peers_def)
  then show ?case
    by (intro joint_inv_client_sends [OF client_finishes.IH])
       (use st in \<open>auto simp: cm_busy_def requests_def peers_def cm_good_def sm_receive_request_def Let_def\<close>)
next
  case (server_receives c s q e r)
  then show ?case using joint_inv_server_receives by blast
qed

text \<open>
  C8: A client and a server that each send only what their own machine accepts never
  surprise each other, in any interleaving of sends and deliveries over two FIFO queues:
  every delivered request is accepted, every delivered response is accepted or is the
  rejection of the greeting, and whenever nothing is in flight the two machines are in
  corresponding phases.
\<close>

theorem conforming_peers_agree:
  assumes "joint c s q r"
  shows "(case q of [] \<Rightarrow> True | k # _ \<Rightarrow> fst (cm_receive c k) \<in> {Ok (), Err GreetingRejected})
       \<and> (case r of [] \<Rightarrow> True | e # _ \<Rightarrow> fst (sm_receive_request s e) = Ok ())
       \<and> (q = [] \<and> r = [] \<longrightarrow> sm_state s = peer_state (cm_state c))"
  using joint_invariant [OF assms]
  by (auto simp: joint_inv_def peers_def split: list.splits prod.splits result.splits StateError.splits if_splits)

theorem conforming_peers_agree_witness:
  "joint (snd (cm_receive cm_new KOk)) (snd (sm_send_response sm_new KOk)) [] []
   \<and> sm_state (snd (sm_send_response sm_new KOk)) = peer_state (cm_state (snd (cm_receive cm_new KOk)))"
proof -
  have "sm_send_response sm_new KOk = (Ok (), snd (sm_send_response sm_new KOk))"
    by (simp add: server_machine_defs)
  from joint.server_sends [OF joint.start this]
  have "joint (snd (cm_receive cm_new KOk)) (snd (sm_send_response sm_new KOk)) [] []"
    by (intro joint.client_receives) simp
  from this conforming_peers_agree [OF this] show ?thesis by simp
qed

end
