(* ===== verification/Sexpr_Value.thy ===== *)
theory Sexpr_Value
  imports Decimal
begin

text \<open>
  Values, limits and errors of canonical S-expressions (\<open>assuan-sexpr/src/value.rs\<close>,
  \<open>limits.rs\<close>, \<open>error.rs\<close>): the borrowed and the owned tree, the validated limits, the
  error types with their texts, the redacted diagnostics, and the iterative copy
  \<open>Sexpr::to_owned\<close> with its explicit stack of parents, shown equal to the structural
  copy. \<open>canonical\<close>, \<open>nodes\<close>, \<open>depth\<close> and \<open>atoms\<close> are the reference notions that the
  parser and the writer are measured against.
\<close>

section \<open>Limits\<close>

definition MAX_NESTING_DEPTH :: nat where
  "MAX_NESTING_DEPTH = 256"

datatype ParseErrorKind =
    InvalidLimits | InputLimit | AtomLimit | NodeLimit | DepthLimit | LengthOverflow
  | InvalidLength | ExpectedColon | UnexpectedToken | UnexpectedEof | TrailingData
  | AllocationFailed

record ParseError =
  pe_kind :: ParseErrorKind
  pe_offset :: "nat option"

definition parse_error_at :: "ParseErrorKind \<Rightarrow> nat \<Rightarrow> ParseError" where
  "parse_error_at k offset = \<lparr>pe_kind = k, pe_offset = Some offset\<rparr>"

definition invalid_limits :: ParseError where
  "invalid_limits = \<lparr>pe_kind = InvalidLimits, pe_offset = None\<rparr>"

record ParseLimits =
  max_input :: nat
  max_atom :: nat
  max_nodes :: nat
  max_depth :: nat

definition ParseLimits_new :: "nat \<Rightarrow> nat \<Rightarrow> nat \<Rightarrow> nat \<Rightarrow> (ParseLimits, ParseError) result" where
  "ParseLimits_new inp atom nds dep =
     (if inp = 0 \<or> nds = 0 \<or> atom > inp \<or> dep > MAX_NESTING_DEPTH then Err invalid_limits
      else Ok \<lparr>max_input = inp, max_atom = atom, max_nodes = nds, max_depth = dep\<rparr>)"

definition ParseLimits_default :: ParseLimits where
  "ParseLimits_default =
     \<lparr>max_input = 16 * 1024 * 1024, max_atom = 16 * 1024 * 1024, max_nodes = 65536, max_depth = 64\<rparr>"

section \<open>Errors\<close>

definition parse_error_description :: "ParseErrorKind \<Rightarrow> string" where
  "parse_error_description k =
     (case k of
        InvalidLimits \<Rightarrow> ''invalid S-expression limits''
      | InputLimit \<Rightarrow> ''input byte limit exceeded''
      | AtomLimit \<Rightarrow> ''atom byte limit exceeded''
      | NodeLimit \<Rightarrow> ''expression node limit exceeded''
      | DepthLimit \<Rightarrow> ''list nesting limit exceeded''
      | LengthOverflow \<Rightarrow> ''atom length overflow''
      | InvalidLength \<Rightarrow> ''non-canonical atom length''
      | ExpectedColon \<Rightarrow> ''expected colon after atom length''
      | UnexpectedToken \<Rightarrow> ''unexpected expression byte''
      | UnexpectedEof \<Rightarrow> ''incomplete S-expression''
      | TrailingData \<Rightarrow> ''data after complete S-expression''
      | AllocationFailed \<Rightarrow> ''could not reserve expression storage'')"

text \<open>\<open>dec\<close> is also what \<open>{offset}\<close> prints for a \<open>usize\<close>.\<close>

definition parse_error_display :: "ParseError \<Rightarrow> bytes" where
  "parse_error_display e =
     lit (parse_error_description (pe_kind e))
     @ (case pe_offset e of None \<Rightarrow> [] | Some offset \<Rightarrow> lit '' at byte '' @ dec offset)"

datatype EncodeError =
    EncSizeLimit | EncAtomLimit | EncNodeLimit | EncDepthLimit | EncLengthOverflow
  | EncAllocationFailed

fun encode_error_display :: "EncodeError \<Rightarrow> string" where
  "encode_error_display EncSizeLimit = ''canonical output byte limit exceeded''"
| "encode_error_display EncAtomLimit = ''atom byte limit exceeded''"
| "encode_error_display EncNodeLimit = ''expression node limit exceeded''"
| "encode_error_display EncDepthLimit = ''list nesting limit exceeded''"
| "encode_error_display EncLengthOverflow = ''canonical output length overflow''"
| "encode_error_display EncAllocationFailed = ''could not reserve encoding storage''"

section \<open>Values\<close>

datatype Sexpr = Atom bytes | SList "Sexpr list"

datatype OwnedSexpr = OwnedAtom bytes | OwnedList "OwnedSexpr list"

fun sexpr_debug :: "Sexpr \<Rightarrow> dbg" where
  "sexpr_debug (Atom bs) = DStruct ''Atom'' [(''len'', DNum (length bs))] False"
| "sexpr_debug (SList children) = DTuple ''List'' [DList (map sexpr_debug children)]"

fun owned_debug :: "OwnedSexpr \<Rightarrow> dbg" where
  "owned_debug (OwnedAtom bs) = DStruct ''Atom'' [(''len'', DNum (length bs))] False"
| "owned_debug (OwnedList children) = DTuple ''List'' [DList (map owned_debug children)]"

section \<open>Reference notions\<close>

fun canonical :: "Sexpr \<Rightarrow> bytes" where
  "canonical (Atom bs) = dec (length bs) @ [COLON] @ bs"
| "canonical (SList xs) = [LPAREN] @ concat (map canonical xs) @ [RPAREN]"

fun nodes :: "Sexpr \<Rightarrow> nat" where
  "nodes (Atom _) = 1"
| "nodes (SList xs) = Suc (sum_list (map nodes xs))"

fun depth_le :: "nat \<Rightarrow> Sexpr \<Rightarrow> bool" where
  "depth_le n (Atom _) = True"
| "depth_le n (SList xs) = (0 < n \<and> list_all (depth_le (n - 1)) xs)"

fun atoms_le :: "nat \<Rightarrow> Sexpr \<Rightarrow> bool" where
  "atoms_le n (Atom bs) = (length bs \<le> n)"
| "atoms_le n (SList xs) = list_all (atoms_le n) xs"

text \<open>The expression and everything behind it stay within the limits.\<close>

definition fits :: "ParseLimits \<Rightarrow> Sexpr \<Rightarrow> bool" where
  "fits lim e \<longleftrightarrow> atoms_le (max_atom lim) e \<and> nodes e \<le> max_nodes lim \<and> depth_le (max_depth lim) e"

lemma nodes_pos [simp]: "0 < nodes e"
  by (cases e) auto

lemma canonical_not_Nil [simp]: "canonical e \<noteq> []"
  by (cases e) auto

fun copy :: "Sexpr \<Rightarrow> OwnedSexpr" where
  "copy (Atom bs) = OwnedAtom bs"
| "copy (SList xs) = OwnedList (map copy xs)"

section \<open>The iterative copy\<close>

text \<open>
  \<open>Sexpr::to_owned\<close>: \<open>parents\<close> holds, innermost first, the children still to visit and the
  copies made so far of every list on the way to the cursor. \<open>owned_visit\<close> is the labelled
  loop, \<open>owned_close\<close> the inner \<open>while let\<close> that completes lists.
\<close>

type_synonym parents = "(Sexpr list \<times> OwnedSexpr list) list"

fun owned_close :: "parents \<Rightarrow> OwnedSexpr \<Rightarrow> OwnedSexpr + (Sexpr \<times> parents)" where
  "owned_close [] completed = Inl completed"
| "owned_close ((remaining, owned_children) # ps) completed =
     (let owned_children = owned_children @ [completed] in
      case remaining of
        nxt # remaining \<Rightarrow> Inr (nxt, (remaining, owned_children) # ps)
      | [] \<Rightarrow> owned_close ps (OwnedList owned_children))"

fun parents_size :: "parents \<Rightarrow> nat" where
  "parents_size [] = 0"
| "parents_size ((remaining, _) # ps) = sum_list (map nodes remaining) + parents_size ps"

lemma owned_close_size:
  "owned_close ps c = Inr (e, ps') \<Longrightarrow> nodes e + parents_size ps' = parents_size ps"
proof (induction ps c rule: owned_close.induct)
  case (2 remaining oc ps c)
  then show ?case by (cases remaining) (auto simp: Let_def)
qed simp

function owned_visit :: "Sexpr \<Rightarrow> parents \<Rightarrow> OwnedSexpr" where
  "owned_visit cursor ps =
     (case cursor of
        SList (x # remaining) \<Rightarrow> owned_visit x ((remaining, []) # ps)
      | _ \<Rightarrow>
          (case owned_close ps (case cursor of Atom bs \<Rightarrow> OwnedAtom bs | SList _ \<Rightarrow> OwnedList []) of
             Inl completed \<Rightarrow> completed
           | Inr (nxt, ps') \<Rightarrow> owned_visit nxt ps'))"
  by pat_completeness auto

termination
  by (relation "measure (\<lambda>(e, ps). nodes e + parents_size ps)") (auto dest: owned_close_size)

declare owned_visit.simps [simp del]

definition to_owned :: "Sexpr \<Rightarrow> OwnedSexpr" where
  "to_owned e = owned_visit e []"

text \<open>Where the loop goes once the expression at the cursor has been copied.\<close>

definition resume :: "parents \<Rightarrow> OwnedSexpr \<Rightarrow> OwnedSexpr" where
  "resume ps c = (case owned_close ps c of Inl r \<Rightarrow> r | Inr (e, ps') \<Rightarrow> owned_visit e ps')"

lemma resume_simps:
  "resume [] c = c"
  "resume ((x # remaining, oc) # ps) c = owned_visit x ((remaining, oc @ [c]) # ps)"
  "resume (([], oc) # ps) c = resume ps (OwnedList (oc @ [c]))"
  by (simp_all add: resume_def Let_def)

lemma owned_visit_simps:
  "owned_visit (Atom bs) ps = resume ps (OwnedAtom bs)"
  "owned_visit (SList []) ps = resume ps (OwnedList [])"
  "owned_visit (SList (x # xs)) ps = owned_visit x ((xs, []) # ps)"
  by (simp_all add: resume_def owned_visit.simps [of "Atom bs"] owned_visit.simps [of "SList []"]
        owned_visit.simps [of "SList (x # xs)"])

lemma owned_visit_copy: "owned_visit e ps = resume ps (copy e)"
proof (induction e arbitrary: ps)
  case (Atom bs)
  show ?case by (simp add: owned_visit_simps)
next
  case (SList xs)
  have sib: "owned_visit x ((ys, oc) # ps) = resume ps (OwnedList (oc @ map copy (x # ys)))"
    if "set (x # ys) \<subseteq> set xs" for x ys oc
    using that
  proof (induction ys arbitrary: x oc)
    case Nil
    then show ?case using SList.IH [of x] by (simp add: resume_simps)
  next
    case (Cons y ys)
    then have "owned_visit x ((y # ys, oc) # ps) = owned_visit y ((ys, oc @ [copy x]) # ps)"
      using SList.IH [of x] by (simp add: resume_simps)
    also have "\<dots> = resume ps (OwnedList ((oc @ [copy x]) @ map copy (y # ys)))"
      by (rule Cons.IH) (use Cons.prems in auto)
    finally show ?case by simp
  qed
  show ?case
  proof (cases xs)
    case (Cons x ys)
    then show ?thesis using sib [of x ys "[]"] by (auto simp: owned_visit_simps)
  qed (simp add: owned_visit_simps)
qed

text \<open>
  The iterative copy of an expression is its structural copy: the same tree with the same
  bytes in every atom.
\<close>

theorem to_owned_copies: "to_owned e = copy e"
  by (simp add: to_owned_def owned_visit_copy resume_simps)

end
