(* ===== verification/Sexpr_Parser.thy ===== *)
theory Sexpr_Parser
  imports Sexpr_Value
begin

text \<open>
  The canonical S-expression parser (\<open>assuan-sexpr/src/parser.rs\<close>): the loop over the input
  with its explicit stack of open lists, the node counter, the atom parser with its checked
  decimal length. The stack is kept innermost list first. Whether a \<open>try_reserve\<close> succeeds
  is the parameter \<open>mem\<close>, asked once per position and site, so that every behaviour of the
  allocator is an instance.
\<close>

datatype reserve_site = GrowLists nat | GrowChildren nat

section \<open>The atom parser\<close>

definition count_node :: "nat \<Rightarrow> ParseLimits \<Rightarrow> nat \<Rightarrow> (nat, ParseError) result" where
  "count_node nds lim pos =
     (if nds \<ge> max_nodes lim then Err (parse_error_at NodeLimit pos) else Ok (nds + 1))"

function length_loop :: "bytes \<Rightarrow> nat \<Rightarrow> nat \<Rightarrow> nat \<Rightarrow> (nat \<times> nat, ParseError) result" where
  "length_loop input start pos len =
     (case get_at input pos of
        None \<Rightarrow> Ok (len, pos)
      | Some b \<Rightarrow>
          if \<not> is_ascii_digit b then Ok (len, pos)
          else bind (if pos > start then or_panic (get_at input start) else Ok 0) (\<lambda>lead.
          if pos > start \<and> lead = ZERO then Err (parse_error_at InvalidLength pos)
          else bind (ok_or (Option.bind (usize_checked_mul len 10)
                             (\<lambda>v. usize_checked_add v (unat (b - ZERO))))
                       (parse_error_at LengthOverflow pos))
                 (\<lambda>len. length_loop input start (pos + 1) len)))"
  by pat_completeness auto

termination
  by (relation "measure (\<lambda>(input, start, pos, len). length input - pos)")
     (auto simp: get_at_def split: if_splits)

declare length_loop.simps [simp del]

definition parse_atom :: "bytes \<Rightarrow> nat \<Rightarrow> ParseLimits \<Rightarrow> (bytes \<times> nat, ParseError) result" where
  "parse_atom input start lim =
     bind (length_loop input start start 0) (\<lambda>(len, pos).
     bind (case get_at input pos of
             Some b \<Rightarrow> if b = COLON then Ok (pos + 1) else Err (parse_error_at ExpectedColon pos)
           | None \<Rightarrow> Err (parse_error_at UnexpectedEof pos)) (\<lambda>pos.
     if len > max_atom lim then Err (parse_error_at AtomLimit start)
     else bind (ok_or (usize_checked_add pos len) (parse_error_at LengthOverflow start)) (\<lambda>end.
     bind (ok_or (get_range input pos end) (parse_error_at UnexpectedEof (length input)))
          (\<lambda>payload. Ok (payload, end)))))"

lemma length_loop_pos:
  "length_loop input start pos len = Ok (n, pos') \<Longrightarrow> pos \<le> pos' \<and> (pos' \<le> length input \<or> pos' = pos)"
proof (induction input start pos len rule: length_loop.induct)
  case (1 input start pos len)
  show ?case
  proof (cases "get_at input pos")
    case None
    with 1 show ?thesis by (simp add: length_loop.simps [of input start pos])
  next
    case (Some b)
    then have "pos < length input" by (simp add: get_at_def split: if_splits)
    with 1 Some show ?thesis
      by (fastforce simp: length_loop.simps [of input start pos] result_simps split: if_splits)
  qed
qed

lemma parse_atom_pos:
  "parse_atom input pos lim = Ok (payload, pos') \<Longrightarrow> pos < pos' \<and> pos' \<le> length input"
  by (auto simp: parse_atom_def result_simps get_range_def usize_checked_add_def
        dest!: length_loop_pos split: if_splits option.splits)

section \<open>The expression parser\<close>

function parse_loop ::
  "(reserve_site \<Rightarrow> bool) \<Rightarrow> bytes \<Rightarrow> ParseLimits \<Rightarrow> Sexpr list list \<Rightarrow> nat \<Rightarrow> nat
   \<Rightarrow> (Sexpr \<times> nat, ParseError) result" where
  "parse_loop mem input lim stk pos nds =
     (case get_at input pos of
        None \<Rightarrow> Err (parse_error_at UnexpectedEof pos)
      | Some b \<Rightarrow>
          if b = LPAREN then
            (if length stk \<ge> max_depth lim then Err (parse_error_at DepthLimit pos)
             else case count_node nds lim pos of
               Err e \<Rightarrow> Err e | Panic \<Rightarrow> Panic
             | Ok nds \<Rightarrow>
                 if \<not> mem (GrowLists pos) then Err (parse_error_at AllocationFailed pos)
                 else parse_loop mem input lim ([] # stk) (pos + 1) nds)
          else
            (case (if b = RPAREN then
                     (case stk of
                        [] \<Rightarrow> Err (parse_error_at UnexpectedToken pos)
                      | children # stk \<Rightarrow> Ok (SList children, stk, pos + 1, nds))
                   else if is_ascii_digit b then
                     bind (count_node nds lim pos) (\<lambda>nds.
                     bind (parse_atom input pos lim) (\<lambda>(payload, pos).
                     Ok (Atom payload, stk, pos, nds)))
                   else Err (parse_error_at UnexpectedToken pos)) of
               Err e \<Rightarrow> Err e
             | Panic \<Rightarrow> Panic
             | Ok (v, stk, pos, nds) \<Rightarrow>
                 (case stk of
                    parent # stk \<Rightarrow>
                      if \<not> mem (GrowChildren pos) then Err (parse_error_at AllocationFailed pos)
                      else parse_loop mem input lim ((parent @ [v]) # stk) pos nds
                  | [] \<Rightarrow> Ok (v, pos))))"
  by pat_completeness auto

termination
  by (relation "measure (\<lambda>(mem, input, lim, stk, pos, nds). length input - pos)")
     (auto simp: get_at_def result_simps dest!: parse_atom_pos split: if_splits list.splits)

declare parse_loop.simps [simp del]

definition parse_prefix ::
  "(reserve_site \<Rightarrow> bool) \<Rightarrow> bytes \<Rightarrow> ParseLimits \<Rightarrow> (Sexpr \<times> nat, ParseError) result" where
  "parse_prefix mem input lim =
     (if length input > max_input lim then Err (parse_error_at InputLimit (max_input lim))
      else parse_loop mem input lim [] 0 0)"

definition parse_complete ::
  "(reserve_site \<Rightarrow> bool) \<Rightarrow> bytes \<Rightarrow> ParseLimits \<Rightarrow> (Sexpr, ParseError) result" where
  "parse_complete mem input lim =
     bind (parse_prefix mem input lim) (\<lambda>(v, consumed).
     if consumed \<noteq> length input then Err (parse_error_at TrailingData consumed) else Ok v)"

section \<open>Atoms are read exactly\<close>

lemma usize_step:
  "Option.bind (usize_checked_mul len 10) (\<lambda>v. usize_checked_add v k) =
     (if len * 10 + k \<le> usize_max then Some (len * 10 + k) else None)"
  by (auto simp: usize_checked_mul_def usize_checked_add_def)

lemma drop_at: "pos < length input \<Longrightarrow> drop pos input = input ! pos # drop (Suc pos) input"
  by (simp add: Cons_nth_drop_Suc)

lemma length_loop_Ok:
  assumes "start < length input" "start \<le> pos" "len \<le> usize_max"
  shows "length_loop input start pos len = Ok (n, p) \<longleftrightarrow>
     (let ds = takeWhile is_ascii_digit (drop pos input) in
      p = pos + length ds \<and> n = num len ds \<and> n \<le> usize_max
    \<and> (input ! start = ZERO \<longrightarrow> length ds \<le> (if pos = start then 1 else 0)))"
  using assms
proof (induction input start pos len rule: length_loop.induct)
  case (1 input start pos len)
  show ?case
  proof (cases "pos < length input \<and> is_ascii_digit (input ! pos)")
    case False
    then show ?thesis
      using 1 by (cases "pos < length input")
        (auto simp: length_loop.simps [of input start pos] get_at_def drop_at Let_def)
  next
    case True
    let ?v = "len * 10 + digit (input ! pos)"
    let ?ds = "takeWhile is_ascii_digit (drop (Suc pos) input)"
    have ds: "takeWhile is_ascii_digit (drop pos input) = input ! pos # ?ds"
      using True by (simp add: drop_at)
    have step: "length_loop input start pos len =
        (if pos > start \<and> input ! start = ZERO then Err (parse_error_at InvalidLength pos)
         else if ?v \<le> usize_max then length_loop input start (Suc pos) ?v
         else Err (parse_error_at LengthOverflow pos))"
      using True 1 by (simp add: length_loop.simps [of input start pos] get_at_def usize_step digit_def)
    consider (zero) "pos > start" "input ! start = ZERO"
      | (over) "\<not> (pos > start \<and> input ! start = ZERO)" "usize_max < ?v"
      | (go) "\<not> (pos > start \<and> input ! start = ZERO)" "?v \<le> usize_max" by linarith
    then show ?thesis
    proof cases
      case zero
      then show ?thesis by (simp add: step ds)
    next
      case over
      have "usize_max < num ?v ?ds" using over(2) num_mono less_le_trans by blast
      then show ?thesis using over by (auto simp: step ds)
    next
      case go
      have IH: "length_loop input start (Suc pos) ?v = Ok (n, p) \<longleftrightarrow>
         (p = Suc pos + length ?ds \<and> n = num ?v ?ds \<and> n \<le> usize_max
           \<and> (input ! start = ZERO \<longrightarrow> length ?ds \<le> (if Suc pos = start then 1 else 0)))"
        using "1.IH" [of "input ! pos" 1 ?v] True go "1.prems" by (simp add: get_at_def Let_def)
      have "length_loop input start pos len = length_loop input start (Suc pos) ?v"
        using go unfolding step by auto
      then show ?thesis using go "1.prems" unfolding ds by (auto simp: IH)
    qed
  qed
qed

lemma COLON_not_digit [simp]: "\<not> is_ascii_digit COLON"
  by (simp add: is_ascii_digit_def word_le_nat_alt)

lemma digit_not_paren: "is_ascii_digit b \<Longrightarrow> b \<noteq> LPAREN \<and> b \<noteq> RPAREN"
  by (auto simp: is_ascii_digit_def word_le_nat_alt)

lemma parse_atom_complete:
  assumes inp: "length input \<le> usize_max" and at: "drop start input = canonical (Atom bs) @ rest"
    and lim: "length bs \<le> max_atom lim"
  shows "parse_atom input start lim = Ok (bs, start + length (canonical (Atom bs)))"
proof -
  let ?n = "length bs" and ?p = "start + length (dec (length bs))"
  have lt: "start < length input" using at by (cases "start < length input") auto
  have len: "length input = start + length (dec ?n) + 1 + ?n + length rest"
    using arg_cong [OF at, of length] lt by simp
  have tw: "takeWhile is_ascii_digit (drop start input) = dec ?n"
    using dec_digits [of ?n] by (simp add: at takeWhile_append list_all_iff)
  have hd: "input ! start = hd (dec ?n)"
    using at lt by (metis append_is_Nil_conv canonical.simps(1) dec_not_Nil drop_at hd_append2 list.sel(1))
  have zero: "input ! start = ZERO \<Longrightarrow> length (dec ?n) \<le> 1"
    using hd dec_hd [of ?n] dec_0 by (cases "0 < ?n") auto
  have loop: "length_loop input start start 0 = Ok (?n, ?p)"
    using length_loop_Ok [OF lt le_refl, of 0 ?n ?p] zero inp len by (simp add: tw)
  have dp: "drop ?p input = COLON # bs @ rest"
    using at drop_drop [of "length (dec ?n)" start input] by (simp add: add.commute)
  then have col: "get_at input ?p = Some COLON"
    using len by (simp add: get_at_def drop_at)
  have "get_range input (?p + 1) (?p + 1 + ?n) = Some bs"
    using dp len drop_at [of ?p input] by (simp add: get_range_def)
  then show ?thesis
    using loop col lim len inp by (simp add: parse_atom_def usize_checked_add_def)
qed

lemma parse_atom_sound:
  assumes lt: "start < length input" and dig: "is_ascii_digit (input ! start)"
    and ok: "parse_atom input start lim = Ok (bs, p)"
  shows "length bs \<le> max_atom lim \<and> p = start + length (canonical (Atom bs))
       \<and> take p input = take start input @ canonical (Atom bs)"
proof -
  obtain n q where loop: "length_loop input start start 0 = Ok (n, q)"
    and col: "get_at input q = Some COLON" and lim: "n \<le> max_atom lim"
    and p: "p = q + 1 + n" and rng: "get_range input (q + 1) p = Some bs"
    using ok by (auto simp: parse_atom_def result_simps usize_checked_add_def
                   split: option.splits if_splits)
  let ?ds = "takeWhile is_ascii_digit (drop start input)"
  have q: "q = start + length ?ds" and n: "n = num 0 ?ds"
    and z: "input ! start = ZERO \<Longrightarrow> length ?ds \<le> 1"
    using length_loop_Ok [OF lt le_refl, of 0 n q] loop by (simp_all add: Let_def)
  have ne: "?ds \<noteq> []" "hd ?ds = input ! start" using lt dig by (simp_all add: drop_at)
  have ds: "dec n = ?ds"
    unfolding n
  proof (rule dec_num)
    show "list_all is_ascii_digit ?ds" by (auto simp: list_all_iff dest: set_takeWhileD)
    show "length ?ds = 1" if "hd ?ds = 0x30" using that ne z by (cases ?ds) auto
  qed (rule ne)
  have bs: "length bs = n" "bs = take n (drop (Suc q) input)" and len: "p \<le> length input"
    using rng p by (auto simp: get_range_def split: if_splits)
  have "take q input = take start input @ ?ds"
    using q take_add [of start "length ?ds" input] takeWhile_eq_take [of is_ascii_digit "drop start input"] by simp
  moreover have "take (Suc q) input = take q input @ [COLON]"
    using col by (auto simp: get_at_def take_Suc_conv_app_nth split: if_splits)
  moreover have "take p input = take (Suc q) input @ bs"
    using bs p take_add [of "Suc q" n input] by simp
  ultimately show ?thesis using bs(1) ds p q lim by simp
qed

section \<open>The loop, one step at a time\<close>

text \<open>What the loop does with a finished value: hand it to the innermost open list, or return it.\<close>

definition deliver ::
  "(reserve_site \<Rightarrow> bool) \<Rightarrow> bytes \<Rightarrow> ParseLimits \<Rightarrow> Sexpr \<Rightarrow> Sexpr list list \<Rightarrow> nat \<Rightarrow> nat
   \<Rightarrow> (Sexpr \<times> nat, ParseError) result" where
  "deliver mem input lim v stk pos nds =
     (case stk of
        parent # stk \<Rightarrow>
          if \<not> mem (GrowChildren pos) then Err (parse_error_at AllocationFailed pos)
          else parse_loop mem input lim ((parent @ [v]) # stk) pos nds
      | [] \<Rightarrow> Ok (v, pos))"

lemma parse_loop_eof:
  "length input \<le> pos \<Longrightarrow> parse_loop mem input lim stk pos nds = Err (parse_error_at UnexpectedEof pos)"
  by (simp add: parse_loop.simps [of mem input lim stk pos] get_at_def)

lemma parse_loop_open:
  "pos < length input \<Longrightarrow> input ! pos = LPAREN \<Longrightarrow>
   parse_loop mem input lim stk pos nds =
     (if length stk \<ge> max_depth lim then Err (parse_error_at DepthLimit pos)
      else if nds \<ge> max_nodes lim then Err (parse_error_at NodeLimit pos)
      else if \<not> mem (GrowLists pos) then Err (parse_error_at AllocationFailed pos)
      else parse_loop mem input lim ([] # stk) (Suc pos) (Suc nds))"
  by (simp add: parse_loop.simps [of mem input lim stk pos] get_at_def count_node_def)

lemma parse_loop_close:
  "pos < length input \<Longrightarrow> input ! pos = RPAREN \<Longrightarrow>
   parse_loop mem input lim stk pos nds =
     (case stk of [] \<Rightarrow> Err (parse_error_at UnexpectedToken pos)
      | children # stk \<Rightarrow> deliver mem input lim (SList children) stk (Suc pos) nds)"
  by (subst parse_loop.simps) (auto simp: get_at_def deliver_def split: list.split)

lemma parse_loop_digit:
  assumes "pos < length input" "is_ascii_digit (input ! pos)"
  shows "parse_loop mem input lim stk pos nds =
     (if nds \<ge> max_nodes lim then Err (parse_error_at NodeLimit pos)
      else case parse_atom input pos lim of
          Ok (payload, pos) \<Rightarrow> deliver mem input lim (Atom payload) stk pos (Suc nds)
        | Err e \<Rightarrow> Err e | Panic \<Rightarrow> Panic)"
proof -
  have "input ! pos \<noteq> LPAREN" "input ! pos \<noteq> RPAREN" using digit_not_paren assms(2) by blast+
  then show ?thesis
    using assms
    by (cases "parse_atom input pos lim")
       (simp_all add: parse_loop.simps [of mem input lim stk pos] get_at_def count_node_def deliver_def
          split: prod.splits)
qed

lemma parse_loop_other:
  "pos < length input \<Longrightarrow> input ! pos \<noteq> LPAREN \<Longrightarrow> input ! pos \<noteq> RPAREN \<Longrightarrow> \<not> is_ascii_digit (input ! pos) \<Longrightarrow>
   parse_loop mem input lim stk pos nds = Err (parse_error_at UnexpectedToken pos)"
  by (simp add: parse_loop.simps [of mem input lim stk pos] get_at_def)

section \<open>Completeness\<close>

lemma parse_loop_expr:
  assumes inp: "length input \<le> usize_max"
  shows "drop pos input = canonical e @ rest \<Longrightarrow> atoms_le (max_atom lim) e
    \<Longrightarrow> nds + nodes e \<le> max_nodes lim \<Longrightarrow> depth_le (max_depth lim - length stk) e
    \<Longrightarrow> parse_loop (\<lambda>_. True) input lim stk pos nds
        = deliver (\<lambda>_. True) input lim e stk (pos + length (canonical e)) (nds + nodes e)"
proof (induction e arbitrary: pos rest nds stk)
  case (Atom bs)
  have lt: "pos < length input" using Atom.prems(1) by (cases "pos < length input") auto
  have "input ! pos = hd (dec (length bs))"
    using Atom.prems(1) drop_at [OF lt] by (cases "dec (length bs)") auto
  then have dig: "is_ascii_digit (input ! pos)"
    using dec_digits [of "length bs"] by (cases "dec (length bs)") auto
  show ?case
    using Atom.prems parse_atom_complete [OF inp Atom.prems(1)]
    by (simp add: parse_loop_digit [OF lt dig])
next
  case (SList xs)
  have lt: "pos < length input" using SList.prems(1) by (cases "pos < length input") auto
  have op: "input ! pos = LPAREN" and rest: "drop (Suc pos) input = concat (map canonical xs) @ RPAREN # rest"
    using SList.prems(1) drop_at [OF lt] by auto
  have children: "parse_loop (\<lambda>_. True) input lim (cs # stk) p n
      = deliver (\<lambda>_. True) input lim (SList (cs @ ys)) stk
          (Suc (p + length (concat (map canonical ys)))) (n + sum_list (map nodes ys))"
    if "set ys \<subseteq> set xs" "drop p input = concat (map canonical ys) @ RPAREN # rest"
      "n + sum_list (map nodes ys) \<le> max_nodes lim" for ys cs p n
    using that
  proof (induction ys arbitrary: cs p n)
    case Nil
    then have "p < length input" by (cases "p < length input") auto
    moreover from this Nil have "input ! p = RPAREN" using drop_at by fastforce
    ultimately show ?case by (simp add: parse_loop_close)
  next
    case (Cons y ys)
    have y: "y \<in> set xs" using Cons.prems by simp
    have dr: "drop (p + length (canonical y)) input = concat (map canonical ys) @ RPAREN # rest"
      using Cons.prems(2) drop_drop [of "length (canonical y)" p input] by (simp add: add.commute)
    have "parse_loop (\<lambda>_. True) input lim (cs # stk) p n
        = deliver (\<lambda>_. True) input lim y (cs # stk) (p + length (canonical y)) (n + nodes y)"
      by (rule SList.IH [OF y, where rest = "concat (map canonical ys) @ RPAREN # rest"])
         (use Cons.prems SList.prems y in \<open>auto simp: list_all_iff\<close>)
    also have "\<dots> = parse_loop (\<lambda>_. True) input lim ((cs @ [y]) # stk) (p + length (canonical y)) (n + nodes y)"
      by (simp add: deliver_def)
    also have "\<dots> = deliver (\<lambda>_. True) input lim (SList ((cs @ [y]) @ ys)) stk
        (Suc (p + length (canonical y) + length (concat (map canonical ys))))
        (n + nodes y + sum_list (map nodes ys))"
      by (rule Cons.IH) (use Cons.prems dr in auto)
    finally show ?case by (simp add: add.assoc)
  qed
  show ?case
    using SList.prems children [of xs "Suc pos" "Suc nds" "[]"] rest
    by (simp add: parse_loop_open [OF lt op])
qed

section \<open>Soundness\<close>

text \<open>
  The bytes that the open lists stand for, the nodes counted for them, and the limits on
  what they hold.
\<close>

fun consumed :: "Sexpr list list \<Rightarrow> bytes" where
  "consumed [] = []"
| "consumed (cs # stk) = consumed stk @ [LPAREN] @ concat (map canonical cs)"

fun counted :: "Sexpr list list \<Rightarrow> nat" where
  "counted [] = 0"
| "counted (cs # stk) = Suc (sum_list (map nodes cs)) + counted stk"

fun within :: "ParseLimits \<Rightarrow> Sexpr list list \<Rightarrow> bool" where
  "within lim [] = True"
| "within lim (cs # stk) =
     (length stk < max_depth lim \<and> within lim stk
    \<and> list_all (\<lambda>c. atoms_le (max_atom lim) c \<and> depth_le (max_depth lim - Suc (length stk)) c) cs)"

definition loop_inv :: "bytes \<Rightarrow> ParseLimits \<Rightarrow> Sexpr list list \<Rightarrow> nat \<Rightarrow> nat \<Rightarrow> bool" where
  "loop_inv input lim stk pos nds \<longleftrightarrow>
     take pos input = consumed stk \<and> pos \<le> length input
   \<and> nds = counted stk \<and> nds \<le> max_nodes lim \<and> within lim stk"

definition value_inv :: "bytes \<Rightarrow> ParseLimits \<Rightarrow> Sexpr \<Rightarrow> Sexpr list list \<Rightarrow> nat \<Rightarrow> nat \<Rightarrow> bool" where
  "value_inv input lim v stk pos nds \<longleftrightarrow>
     take pos input = consumed stk @ canonical v \<and> pos \<le> length input
   \<and> nds = counted stk + nodes v \<and> nds \<le> max_nodes lim \<and> within lim stk
   \<and> atoms_le (max_atom lim) v \<and> depth_le (max_depth lim - length stk) v"

lemma open_inv:
  "loop_inv input lim stk pos nds \<Longrightarrow> pos < length input \<Longrightarrow> input ! pos = LPAREN
   \<Longrightarrow> length stk < max_depth lim \<Longrightarrow> nds < max_nodes lim
   \<Longrightarrow> loop_inv input lim ([] # stk) (Suc pos) (Suc nds)"
  by (simp add: loop_inv_def take_Suc_conv_app_nth)

lemma close_inv:
  "loop_inv input lim (cs # stk) pos nds \<Longrightarrow> pos < length input \<Longrightarrow> input ! pos = RPAREN
   \<Longrightarrow> value_inv input lim (SList cs) stk (Suc pos) nds"
  by (auto simp: loop_inv_def value_inv_def take_Suc_conv_app_nth list_all_iff)

lemma atom_inv:
  "loop_inv input lim stk pos nds \<Longrightarrow> pos < length input \<Longrightarrow> is_ascii_digit (input ! pos)
   \<Longrightarrow> nds < max_nodes lim \<Longrightarrow> parse_atom input pos lim = Ok (bs, pos')
   \<Longrightarrow> value_inv input lim (Atom bs) stk pos' (Suc nds)"
  using parse_atom_sound [of pos input lim bs pos'] parse_atom_pos [of input pos lim bs pos']
  by (auto simp: loop_inv_def value_inv_def)

lemma parent_inv:
  "value_inv input lim v (parent # stk) pos nds \<Longrightarrow> loop_inv input lim ((parent @ [v]) # stk) pos nds"
  by (simp add: loop_inv_def value_inv_def)

text \<open>Every error carries an offset into the input, and no index is out of range.\<close>

definition located :: "bytes \<Rightarrow> ('a, ParseError) result \<Rightarrow> bool" where
  "located input r \<longleftrightarrow>
     (case r of Ok _ \<Rightarrow> True
      | Err e \<Rightarrow> (case pe_offset e of None \<Rightarrow> False | Some off \<Rightarrow> off \<le> length input)
      | Panic \<Rightarrow> False)"

lemma located_simps [simp]:
  "located input (Ok x)" "located input (Err (parse_error_at k off)) \<longleftrightarrow> off \<le> length input"
  "\<not> located input Panic"
  by (simp_all add: located_def parse_error_at_def)

lemma located_bind:
  "located input r \<Longrightarrow> (\<And>x. r = Ok x \<Longrightarrow> located input (f x)) \<Longrightarrow> located input (bind r f)"
  by (cases r) (simp_all add: located_def)

lemma length_loop_located:
  "start \<le> pos \<Longrightarrow> located input (length_loop input start pos len)"
proof (induction input start pos len rule: length_loop.induct)
  case (1 input start pos len)
  show ?case
  proof (cases "pos < length input \<and> is_ascii_digit (input ! pos)")
    case True
    then show ?thesis
      using 1 by (auto simp: length_loop.simps [of input start pos] get_at_def usize_step)
  qed (auto simp: length_loop.simps [of input start pos] get_at_def)
qed

lemma parse_atom_located:
  assumes "start \<le> length input"
  shows "located input (parse_atom input start lim)"
proof -
  have tail: "located input (bind (case get_at input pos of
             Some b \<Rightarrow> if b = COLON then Ok (pos + 1) else Err (parse_error_at ExpectedColon pos)
           | None \<Rightarrow> Err (parse_error_at UnexpectedEof pos)) (\<lambda>pos.
     if len > max_atom lim then Err (parse_error_at AtomLimit start)
     else bind (ok_or (usize_checked_add pos len) (parse_error_at LengthOverflow start)) (\<lambda>end.
     bind (ok_or (get_range input pos end) (parse_error_at UnexpectedEof (length input)))
          (\<lambda>payload. Ok (payload, end)))))"
    if "length_loop input start start 0 = Ok (len, pos)" for len pos
    using assms length_loop_pos [OF that]
    by (auto simp: get_at_def usize_checked_add_def get_range_def)
  show ?thesis
    unfolding parse_atom_def
    by (rule located_bind [OF length_loop_located [OF le_refl]]) (use tail in auto)
qed

lemma parse_loop_sound:
  assumes "loop_inv input lim stk pos nds"
  shows "located input (parse_loop mem input lim stk pos nds)
    \<and> (\<forall>v p. parse_loop mem input lim stk pos nds = Ok (v, p) \<longrightarrow> value_inv input lim v [] p (nodes v))"
  using assms
proof (induction "length input - pos" arbitrary: stk pos nds rule: less_induct)
  case less
  have le: "pos \<le> length input" using less.prems by (simp add: loop_inv_def)
  have deliv: "located input (deliver mem input lim v stk' pos' nds')
      \<and> (\<forall>w p. deliver mem input lim v stk' pos' nds' = Ok (w, p) \<longrightarrow> value_inv input lim w [] p (nodes w))"
    if "value_inv input lim v stk' pos' nds'" "pos < pos'" for v stk' pos' nds'
  proof (cases stk')
    case Nil
    then show ?thesis using that by (auto simp: deliver_def value_inv_def)
  next
    case (Cons parent st)
    have inv: "loop_inv input lim ((parent @ [v]) # st) pos' nds'"
      using parent_inv that Cons by simp
    have "length input - pos' < length input - pos"
      using that by (auto simp: value_inv_def)
    from less.hyps [OF this inv] that show ?thesis
      by (simp add: Cons deliver_def value_inv_def)
  qed
  consider (eof) "length input \<le> pos"
    | (lparen) "pos < length input" "input ! pos = LPAREN"
    | (rparen) "pos < length input" "input ! pos = RPAREN"
    | (dig) "pos < length input" "is_ascii_digit (input ! pos)"
    | (other) "pos < length input" "input ! pos \<noteq> LPAREN" "input ! pos \<noteq> RPAREN" "\<not> is_ascii_digit (input ! pos)"
    by linarith
  then show ?case
  proof cases
    case eof
    then show ?thesis using le by (simp add: parse_loop_eof)
  next
    case lparen
    show ?thesis
      using less.hyps [of "Suc pos" "[] # stk" "Suc nds"] open_inv [OF less.prems lparen] le lparen(1)
      by (auto simp: parse_loop_open [OF lparen])
  next
    case rparen
    then show ?thesis
      using less.prems deliv [OF close_inv] le
      by (cases stk) (auto simp: parse_loop_close)
  next
    case dig
    show ?thesis
    proof (cases "nds < max_nodes lim")
      case True
      then show ?thesis
        using parse_atom_located [OF le, of lim] deliv [OF atom_inv [OF less.prems dig True]]
          parse_atom_pos [of input pos lim]
        by (cases "parse_atom input pos lim")
           (auto simp: parse_loop_digit [OF dig] located_def split: prod.splits)
    qed (use le in \<open>simp add: parse_loop_digit [OF dig]\<close>)
  next
    case other
    then show ?thesis using le by (simp add: parse_loop_other)
  qed
qed

lemma parse_prefix_sound:
  "located input (parse_prefix mem input lim)
   \<and> (\<forall>e n. parse_prefix mem input lim = Ok (e, n) \<longrightarrow>
        length input \<le> max_input lim \<and> n = length (canonical e) \<and> take n input = canonical e \<and> fits lim e)"
proof -
  have "loop_inv input lim [] 0 0" by (simp add: loop_inv_def)
  from parse_loop_sound [OF this, of mem] have
    "located input (parse_loop mem input lim [] 0 0)"
    "\<And>e n. parse_loop mem input lim [] 0 0 = Ok (e, n) \<Longrightarrow> value_inv input lim e [] n (nodes e)"
    by blast+
  then show ?thesis
    by (auto simp: parse_prefix_def value_inv_def fits_def dest!: arg_cong [of "take _ _" _ length])
qed

lemma parse_prefix_complete:
  assumes "max_input lim \<le> usize_max" "length input \<le> max_input lim" "fits lim e"
    and "take (length (canonical e)) input = canonical e"
  shows "parse_prefix (\<lambda>_. True) input lim = Ok (e, length (canonical e))"
proof -
  have "input = canonical e @ drop (length (canonical e)) input"
    using append_take_drop_id [of "length (canonical e)" input] assms(4) by simp
  then have "parse_loop (\<lambda>_. True) input lim [] 0 0
      = deliver (\<lambda>_. True) input lim e [] (0 + length (canonical e)) (0 + nodes e)"
    by (intro parse_loop_expr) (use assms in \<open>auto simp: fits_def\<close>)
  then show ?thesis using assms(2) by (simp add: parse_prefix_def deliver_def)
qed

text \<open>
  C22: Whatever the allocator does, the prefix parser never panics; an error points into the
  input (at most one past its end); and a returned expression is the one whose canonical
  encoding is exactly the bytes reported as consumed, within all four limits.
\<close>

theorem parse_prefix_safe:
  "case parse_prefix mem input lim of
     Ok (e, n) \<Rightarrow> length input \<le> max_input lim \<and> n = length (canonical e) \<and> take n input = canonical e
       \<and> atoms_le (max_atom lim) e \<and> nodes e \<le> max_nodes lim \<and> depth_le (max_depth lim) e
   | Err err \<Rightarrow> (case pe_offset err of Some off \<Rightarrow> off \<le> length input | None \<Rightarrow> False)
   | Panic \<Rightarrow> False"
  using parse_prefix_sound [of input mem lim]
  by (cases "parse_prefix mem input lim") (auto simp: located_def fits_def split: option.splits)

text \<open>
  With memory available the prefix parser accepts exactly the inputs that start with the
  canonical encoding of an expression within the limits, and returns that expression
  and the length of its encoding, whatever bytes follow.
\<close>

theorem parse_prefix_exact:
  assumes "max_input lim \<le> usize_max"
  shows "parse_prefix (\<lambda>_. True) input lim = Ok (e, n) \<longleftrightarrow>
     length input \<le> max_input lim \<and> fits lim e \<and> n = length (canonical e)
     \<and> take n input = canonical e"
  using parse_prefix_sound [of input "\<lambda>_. True" lim] parse_prefix_complete [OF assms, of input e] by auto

theorem parse_prefix_exact_witness:
  "parse_prefix (\<lambda>_. True) (lit ''(1:a2:bc)x'') ParseLimits_default
     = Ok (SList [Atom (lit ''a''), Atom (lit ''bc'')], 9)"
proof -
  have lim: "max_input ParseLimits_default \<le> usize_max"
    by (simp add: ParseLimits_default_def usize_max_def)
  show ?thesis
    unfolding parse_prefix_exact [OF lim]
    by (simp add: ParseLimits_default_def fits_def lit_def dec.simps)
qed

text \<open>
  C11: Encoding and complete parsing are inverse: with memory available the complete parser
  accepts exactly the canonical encodings that respect the limits, so an expression has one
  encoding and an encoding has one expression.
\<close>

theorem parse_complete_exact:
  assumes "max_input lim \<le> usize_max"
  shows "parse_complete (\<lambda>_. True) input lim = Ok e \<longleftrightarrow>
     input = canonical e \<and> length (canonical e) \<le> max_input lim \<and> fits lim e"
proof
  assume "parse_complete (\<lambda>_. True) input lim = Ok e"
  then have "parse_prefix (\<lambda>_. True) input lim = Ok (e, length input)"
    by (auto simp: parse_complete_def result_simps split: if_splits)
  then show "input = canonical e \<and> length (canonical e) \<le> max_input lim \<and> fits lim e"
    using parse_prefix_sound [of input "\<lambda>_. True" lim] by fastforce
next
  assume "input = canonical e \<and> length (canonical e) \<le> max_input lim \<and> fits lim e"
  then show "parse_complete (\<lambda>_. True) input lim = Ok e"
    using parse_prefix_complete [OF assms, of input e] by (simp add: parse_complete_def)
qed

theorem parse_complete_exact_witness:
  "parse_complete (\<lambda>_. True) (lit ''(3:foo0:)'') ParseLimits_default = Ok (SList [Atom (lit ''foo''), Atom []])
   \<and> parse_complete (\<lambda>_. True) (lit ''03:foo'') ParseLimits_default \<noteq> Ok (Atom (lit ''foo''))"
proof -
  have lim: "max_input ParseLimits_default \<le> usize_max"
    by (simp add: ParseLimits_default_def usize_max_def)
  show ?thesis
    unfolding parse_complete_exact [OF lim]
    by (simp add: ParseLimits_default_def fits_def lit_def dec.simps)
qed

end
