(* ===== verification/Sexpr_Writer.thy ===== *)
theory Sexpr_Writer
  imports Sexpr_Parser
begin

text \<open>
  The canonical writer (\<open>assuan-sexpr/src/writer.rs\<close>): the measuring traversal that applies
  the default limits before anything is written, the writing traversal over a stack of
  pending items, the decimal length in its 40-byte scratch array. Stacks are kept top
  first. Reservations are asked of the parameter \<open>mem\<close>; the debug assertion on the final
  length is the value \<open>Panic\<close>.
\<close>

datatype encode_site = ReserveRoot | ReserveChildren nat | ReservePending | ReserveOutput

record Layout =
  lay_bytes :: nat
  lay_nodes :: nat

datatype Pending = PValue Sexpr | CloseList

section \<open>Decimal lengths\<close>

function digits_loop :: "nat \<Rightarrow> nat \<Rightarrow> nat" where
  "digits_loop v count = (if v \<ge> 10 then digits_loop (v div 10) (count + 1) else count)"
  by pat_completeness auto

termination
  by (relation "measure fst") auto

declare digits_loop.simps [simp del]

definition decimal_digits :: "nat \<Rightarrow> nat" where
  "decimal_digits v = digits_loop v 1"

fun length_digits :: "nat \<Rightarrow> nat \<Rightarrow> bytes \<Rightarrow> (nat \<times> bytes) option" where
  "length_digits v 0 ds = None"
| "length_digits v (Suc pos) ds =
     (case set_at ds pos (ZERO + of_nat (v mod 10)) of
        None \<Rightarrow> None
      | Some ds' \<Rightarrow> if v div 10 = 0 then Some (pos, ds') else length_digits (v div 10) pos ds')"

definition write_length :: "nat \<Rightarrow> bytes \<Rightarrow> bytes option" where
  "write_length v out =
     (case length_digits v 40 (replicate 40 0) of
        None \<Rightarrow> None
      | Some (pos, ds) \<Rightarrow> Some (out @ drop pos ds))"

section \<open>Measuring\<close>

function measure_loop ::
  "(encode_site \<Rightarrow> bool) \<Rightarrow> ParseLimits \<Rightarrow> (Sexpr \<times> nat) list \<Rightarrow> nat \<Rightarrow> nat \<Rightarrow> (Layout, EncodeError) result" where
  "measure_loop mem lim pending bts nds =
     (case pending of
        [] \<Rightarrow> Ok \<lparr>lay_bytes = bts, lay_nodes = nds\<rparr>
      | (v, depth) # pending \<Rightarrow>
          if nds \<ge> max_nodes lim then Err EncNodeLimit
          else
            (case (case v of
                     Atom bs \<Rightarrow>
                       if length bs > max_atom lim then Err EncAtomLimit
                       else bind (ok_or (Option.bind (usize_checked_add (decimal_digits (length bs)) 1)
                                           (\<lambda>prefix. usize_checked_add prefix (length bs))) EncLengthOverflow)
                              (\<lambda>added. Ok (added, pending))
                   | SList children \<Rightarrow>
                       if depth \<ge> max_depth lim then Err EncDepthLimit
                       else bind (ok_or (Option.bind (usize_checked_add (nds + 1) (length pending))
                                           (\<lambda>count. usize_checked_add count (length children))) EncLengthOverflow)
                              (\<lambda>minimum_nodes.
                                if minimum_nodes > max_nodes lim then Err EncNodeLimit
                                else if \<not> mem (ReserveChildren (nds + 1)) then Err EncAllocationFailed
                                else Ok (2, map (\<lambda>child. (child, depth + 1)) children @ pending))) of
               Err e \<Rightarrow> Err e
             | Panic \<Rightarrow> Panic
             | Ok (added, pending') \<Rightarrow>
                 (case usize_checked_add bts added of
                    None \<Rightarrow> Err EncLengthOverflow
                  | Some bts' \<Rightarrow>
                      if bts' > max_input lim then Err EncSizeLimit
                      else measure_loop mem lim pending' bts' (nds + 1))))"
  by pat_completeness auto

termination
  by (relation "measure (\<lambda>(mem, lim, pending, bts, nds). sum_list (map (nodes \<circ> fst) pending))")
     (auto simp: result_simps comp_def split: Sexpr.splits if_splits)

declare measure_loop.simps [simp del]

definition measure_sexpr ::
  "(encode_site \<Rightarrow> bool) \<Rightarrow> Sexpr \<Rightarrow> ParseLimits \<Rightarrow> (Layout, EncodeError) result" where
  "measure_sexpr mem v lim =
     (if \<not> mem ReserveRoot then Err EncAllocationFailed else measure_loop mem lim [(v, 0)] 0 0)"

section \<open>Writing\<close>

fun write_step :: "Pending \<Rightarrow> Pending list \<Rightarrow> bytes \<Rightarrow> (Pending list \<times> bytes) option" where
  "write_step (PValue (Atom bs)) pending out =
     (case write_length (length bs) out of
        None \<Rightarrow> None
      | Some out \<Rightarrow> Some (pending, out @ [COLON] @ bs))"
| "write_step (PValue (SList children)) pending out =
     Some (map PValue children @ [CloseList] @ pending, out @ [LPAREN])"
| "write_step CloseList pending out = Some (pending, out @ [RPAREN])"

fun item_nodes :: "Pending \<Rightarrow> nat" where
  "item_nodes (PValue v) = nodes v"
| "item_nodes CloseList = 1"

fun item_work :: "Pending \<Rightarrow> nat" where
  "item_work (PValue v) = 2 * nodes v"
| "item_work CloseList = 1"

lemma double_sum_list: "(\<Sum>x\<leftarrow>xs. 2 * f x) = 2 * (\<Sum>x\<leftarrow>xs. f x :: nat)"
  by (induction xs) auto

lemma write_step_work:
  "write_step item pending out = Some (pending', out') \<Longrightarrow>
   sum_list (map item_work pending') < item_work item + sum_list (map item_work pending)"
  by (induction item pending out rule: write_step.induct)
     (auto simp: comp_def double_sum_list split: option.splits)

function write_loop :: "Pending list \<Rightarrow> bytes \<Rightarrow> bytes option" where
  "write_loop pending out =
     (case pending of
        [] \<Rightarrow> Some out
      | item # pending \<Rightarrow>
          (case write_step item pending out of
             None \<Rightarrow> None
           | Some (pending', out') \<Rightarrow> write_loop pending' out'))"
  by pat_completeness auto

termination
  by (relation "measure (\<lambda>(pending, out). sum_list (map item_work pending))")
     (auto dest: write_step_work)

declare write_loop.simps [simp del]

definition write_canonical ::
  "(encode_site \<Rightarrow> bool) \<Rightarrow> Sexpr \<Rightarrow> bytes \<Rightarrow> (unit, EncodeError) result \<times> bytes" where
  "write_canonical mem v out =
     (let lim = ParseLimits_default in
      case measure_sexpr mem v lim of
        Err e \<Rightarrow> (Err e, out)
      | Panic \<Rightarrow> (Panic, out)
      | Ok lay \<Rightarrow>
          (case usize_checked_add (length out) (lay_bytes lay) of
             None \<Rightarrow> (Err EncLengthOverflow, out)
           | Some final_len \<Rightarrow>
               if final_len > max_input lim then (Err EncSizeLimit, out)
               else if \<not> mem ReservePending then (Err EncAllocationFailed, out)
               else if \<not> mem ReserveOutput then (Err EncAllocationFailed, out)
               else
                 (case write_loop [PValue v] out of
                    None \<Rightarrow> (Panic, out)
                  | Some out' \<Rightarrow> if length out' = final_len then (Ok (), out') else (Panic, out'))))"

definition to_canonical :: "(encode_site \<Rightarrow> bool) \<Rightarrow> Sexpr \<Rightarrow> (bytes, EncodeError) result" where
  "to_canonical mem v =
     (case write_canonical mem v [] of
        (Ok _, out) \<Rightarrow> Ok out | (Err e, out) \<Rightarrow> Err e | (Panic, out) \<Rightarrow> Panic)"

section \<open>Lengths are numerals\<close>

lemma digits_loop_dec: "digits_loop v count + 1 = count + length (dec v)"
proof (induction v count rule: digits_loop.induct)
  case (1 v count)
  then show ?case
    by (cases "v \<ge> 10") (simp_all add: digits_loop.simps [of v] dec.simps [of v])
qed

lemma decimal_digits_dec: "decimal_digits v = length (dec v)"
  using digits_loop_dec [of v 1] by (simp add: decimal_digits_def)

lemma length_digits_dec:
  "length (dec v) \<le> pos \<Longrightarrow> pos \<le> length ds \<Longrightarrow>
   \<exists>ds'. length_digits v pos ds = Some (pos - length (dec v), ds')
     \<and> length ds' = length ds \<and> drop (pos - length (dec v)) ds' = dec v @ drop pos ds"
proof (induction v pos ds rule: length_digits.induct)
  case (1 v ds)
  then show ?case by simp
next
  case (2 v pos ds)
  let ?d = "ZERO + of_nat (v mod 10) :: byte"
  have set: "set_at ds pos ?d = Some (ds[pos := ?d])"
    using "2.prems" by (simp add: set_at_def)
  have tail: "drop pos (ds[pos := ?d]) = ?d # drop (Suc pos) ds"
    using "2.prems" by (simp add: drop_at)
  show ?case
  proof (cases "v div 10 = 0")
    case True
    then have "dec v = [?d]" by (simp add: dec_unfold [of v])
    then show ?thesis using True set tail by simp
  next
    case False
    then have dv: "dec v = dec (v div 10) @ [?d]" by (simp add: dec_unfold [of v])
    obtain ds' where "length_digits (v div 10) pos (ds[pos := ?d])
        = Some (pos - length (dec (v div 10)), ds')" "length ds' = length ds"
        "drop (pos - length (dec (v div 10))) ds' = dec (v div 10) @ drop pos (ds[pos := ?d])"
      using "2.IH" [OF set False] "2.prems" dv by auto
    then show ?thesis using False set tail dv by simp
  qed
qed

lemma write_length_dec: "v < 10 ^ 40 \<Longrightarrow> write_length v out = Some (out @ dec v)"
  using length_digits_dec [of v 40 "replicate 40 0"] length_dec [of 40 v]
  by (auto simp: write_length_def)

section \<open>What is measured\<close>

definition pending_ok :: "ParseLimits \<Rightarrow> (Sexpr \<times> nat) list \<Rightarrow> bool" where
  "pending_ok lim ps \<longleftrightarrow>
     (\<forall>(e, d) \<in> set ps. atoms_le (max_atom lim) e \<and> depth_le (max_depth lim - d) e)"

definition pending_nodes :: "(Sexpr \<times> nat) list \<Rightarrow> nat" where
  "pending_nodes ps = sum_list (map (nodes \<circ> fst) ps)"

definition pending_bytes :: "(Sexpr \<times> nat) list \<Rightarrow> nat" where
  "pending_bytes ps = sum_list (map (length \<circ> canonical \<circ> fst) ps)"

lemma pending_simps [simp]:
  "pending_ok lim []" "pending_nodes [] = 0" "pending_bytes [] = 0"
  "pending_ok lim ((e, d) # ps) \<longleftrightarrow> atoms_le (max_atom lim) e \<and> depth_le (max_depth lim - d) e \<and> pending_ok lim ps"
  "pending_nodes ((e, d) # ps) = nodes e + pending_nodes ps"
  "pending_bytes ((e, d) # ps) = length (canonical e) + pending_bytes ps"
  "pending_ok lim (ps @ qs) \<longleftrightarrow> pending_ok lim ps \<and> pending_ok lim qs"
  "pending_nodes (ps @ qs) = pending_nodes ps + pending_nodes qs"
  "pending_bytes (ps @ qs) = pending_bytes ps + pending_bytes qs"
  by (auto simp: pending_ok_def pending_nodes_def pending_bytes_def)

lemma pending_children [simp]:
  "pending_ok lim (map (\<lambda>c. (c, Suc d)) cs) \<longleftrightarrow>
     list_all (atoms_le (max_atom lim)) cs \<and> list_all (depth_le (max_depth lim - Suc d)) cs"
  "pending_nodes (map (\<lambda>c. (c, Suc d)) cs) = sum_list (map nodes cs)"
  "pending_bytes (map (\<lambda>c. (c, Suc d)) cs) = length (concat (map canonical cs))"
  by (auto simp: pending_ok_def pending_nodes_def pending_bytes_def list_all_iff comp_def length_concat)

lemma length_le_nodes: "length cs \<le> sum_list (map nodes cs)"
proof (induction cs)
  case (Cons c cs)
  then show ?case using nodes_pos [of c] by (simp del: nodes_pos)
qed simp

lemma pending_nodes_length: "length ps \<le> pending_nodes ps"
  using length_le_nodes [of "map fst ps"] by (simp add: pending_nodes_def comp_def)

text \<open>What is left to measure fits, on top of what has been counted.\<close>

definition measurable :: "ParseLimits \<Rightarrow> (Sexpr \<times> nat) list \<Rightarrow> nat \<Rightarrow> nat \<Rightarrow> bool" where
  "measurable lim ps bts nds \<longleftrightarrow>
     pending_ok lim ps \<and> nds + pending_nodes ps \<le> max_nodes lim \<and> bts + pending_bytes ps \<le> max_input lim"

lemma measure_loop_Nil: "measure_loop mem lim [] bts nds = Ok \<lparr>lay_bytes = bts, lay_nodes = nds\<rparr>"
  by (subst measure_loop.simps) simp

lemma measure_loop_atom:
  "measure_loop mem lim ((Atom bs, d) # ps) bts nds =
     (let size = length (canonical (Atom bs)) in
      if nds \<ge> max_nodes lim then Err EncNodeLimit
      else if length bs > max_atom lim then Err EncAtomLimit
      else if bts + size > usize_max then Err EncLengthOverflow
      else if bts + size > max_input lim then Err EncSizeLimit
      else measure_loop mem lim ps (bts + size) (Suc nds))"
  by (subst measure_loop.simps) (auto simp: usize_checked_add_def decimal_digits_dec Let_def)

lemma measure_loop_list:
  "measure_loop mem lim ((SList cs, d) # ps) bts nds =
     (let minimum = Suc nds + length ps + length cs in
      if nds \<ge> max_nodes lim then Err EncNodeLimit
      else if d \<ge> max_depth lim then Err EncDepthLimit
      else if minimum > usize_max then Err EncLengthOverflow
      else if minimum > max_nodes lim then Err EncNodeLimit
      else if \<not> mem (ReserveChildren (Suc nds)) then Err EncAllocationFailed
      else if bts + 2 > usize_max then Err EncLengthOverflow
      else if bts + 2 > max_input lim then Err EncSizeLimit
      else measure_loop mem lim (map (\<lambda>c. (c, Suc d)) cs @ ps) (bts + 2) (Suc nds))"
  by (subst measure_loop.simps) (auto simp: usize_checked_add_def Let_def)

lemma measure_loop_spec:
  assumes "bts \<le> max_input lim" and "nds \<le> max_nodes lim" and "max_input lim \<le> usize_max"
    and "max_nodes lim \<le> usize_max"
  shows "measure_loop mem lim ps bts nds \<noteq> Panic
    \<and> (\<forall>lay. measure_loop mem lim ps bts nds = Ok lay \<longrightarrow> measurable lim ps bts nds
         \<and> lay = \<lparr>lay_bytes = bts + pending_bytes ps, lay_nodes = nds + pending_nodes ps\<rparr>)
    \<and> ((\<forall>x. mem x) \<and> measurable lim ps bts nds \<longrightarrow> is_ok (measure_loop mem lim ps bts nds))"
  using assms
proof (induction "pending_nodes ps" arbitrary: ps bts nds rule: less_induct)
  case less
  show ?case
  proof (cases ps)
    case Nil
    with less show ?thesis by (auto simp: measure_loop_Nil measurable_def)
  next
    case (Cons q pending)
    obtain v d where q: "q = (v, d)" by force
    show ?thesis
    proof (cases v)
      case (Atom bs)
      note IH = less.hyps [of pending "bts + length (canonical v)" "Suc nds"]
      show ?thesis
        unfolding Cons q Atom measure_loop_atom Let_def
        using IH less.prems by (auto simp: Cons q Atom measurable_def)
    next
      case (SList cs)
      note IH = less.hyps [of "map (\<lambda>c. (c, Suc d)) cs @ pending" "bts + 2" "Suc nds"]
      show ?thesis
        unfolding Cons q SList measure_loop_list Let_def
        using IH less.prems length_le_nodes [of cs] pending_nodes_length [of pending]
        by (auto simp: Cons q SList measurable_def)
    qed
  qed
qed

lemma measure_sexpr_spec:
  "measure_sexpr mem v ParseLimits_default \<noteq> Panic
   \<and> (\<forall>lay. measure_sexpr mem v ParseLimits_default = Ok lay \<longrightarrow>
        fits ParseLimits_default v \<and> length (canonical v) \<le> max_input ParseLimits_default
      \<and> lay = \<lparr>lay_bytes = length (canonical v), lay_nodes = nodes v\<rparr>)
   \<and> ((\<forall>x. mem x) \<and> fits ParseLimits_default v \<and> length (canonical v) \<le> max_input ParseLimits_default
      \<longrightarrow> is_ok (measure_sexpr mem v ParseLimits_default))"
  using measure_loop_spec [of 0 ParseLimits_default 0 mem "[(v, 0)]"]
  by (auto simp: measure_sexpr_def measurable_def fits_def ParseLimits_default_def usize_max_def)

section \<open>What is written\<close>

lemma write_loop_Nil: "write_loop [] out = Some out"
  by (subst write_loop.simps) simp

lemma write_loop_Cons:
  "write_loop (item # pending) out =
     (case write_step item pending out of None \<Rightarrow> None | Some (pending', out') \<Rightarrow> write_loop pending' out')"
  by (subst write_loop.simps) simp

lemma write_loop_value:
  "atoms_le n v \<Longrightarrow> n < 10 ^ 40 \<Longrightarrow> write_loop (PValue v # pending) out = write_loop pending (out @ canonical v)"
proof (induction v arbitrary: pending out)
  case (Atom bs)
  then show ?case by (simp add: write_loop_Cons write_length_dec)
next
  case (SList cs)
  have "write_loop (map PValue xs @ CloseList # pending) out
      = write_loop pending (out @ concat (map canonical xs) @ [RPAREN])" if "set xs \<subseteq> set cs" for xs out
    using that
  proof (induction xs arbitrary: out)
    case Nil
    then show ?case by (simp add: write_loop_Cons)
  next
    case (Cons x xs)
    then have "write_loop (map PValue (x # xs) @ CloseList # pending) out
        = write_loop (map PValue xs @ CloseList # pending) (out @ canonical x)"
      using SList.IH [of x] SList.prems by (simp add: list_all_iff subset_iff)
    then show ?case using Cons by simp
  qed
  from this [of cs] show ?case by (simp add: write_loop_Cons)
qed

text \<open>The states the writing loop goes through, with the stack it needs in each.\<close>

inductive write_reaches :: "Sexpr \<Rightarrow> bytes \<Rightarrow> Pending list \<Rightarrow> bytes \<Rightarrow> bool" for v out where
  start: "write_reaches v out [PValue v] out"
| step: "write_reaches v out (item # pending) out1 \<Longrightarrow>
         write_step item pending out1 = Some (pending', out2) \<Longrightarrow> write_reaches v out pending' out2"

lemma write_step_nodes:
  "write_step item pending out = Some (pending', out') \<Longrightarrow>
   sum_list (map item_nodes pending') \<le> item_nodes item + sum_list (map item_nodes pending)"
  by (induction item pending out rule: write_step.induct) (auto simp: comp_def split: option.splits)

lemma item_nodes_length: "length ps \<le> sum_list (map item_nodes ps)"
proof (induction ps)
  case (Cons p ps)
  have "0 < item_nodes p" by (cases p) auto
  with Cons show ?case by simp
qed simp

lemma write_reaches_nodes: "write_reaches v out pending out' \<Longrightarrow> sum_list (map item_nodes pending) \<le> nodes v"
  by (induction rule: write_reaches.induct) (auto dest: write_step_nodes)

text \<open>
  Appending the canonical form of an expression, whatever the allocator does: on success
  the buffer has grown by exactly the canonical encoding, within the default limits; on
  every error it is unchanged; nothing panics (the scratch array of a length is large enough
  and the asserted final length is the measured one).
\<close>

theorem write_canonical_correct:
  "case write_canonical mem v out of
     (Ok _, out') \<Rightarrow> out' = out @ canonical v \<and> fits ParseLimits_default v
        \<and> length out' \<le> max_input ParseLimits_default
   | (Err _, out') \<Rightarrow> out' = out
   | (Panic, _) \<Rightarrow> False"
proof (cases "measure_sexpr mem v ParseLimits_default")
  case (Ok lay)
  then have fit: "fits ParseLimits_default v" and lay: "lay_bytes lay = length (canonical v)"
    using measure_sexpr_spec [of mem v] by auto
  have "write_loop [PValue v] out = Some (out @ canonical v)"
    using write_loop_value [of "max_atom ParseLimits_default" v "[]" out] fit
    by (simp add: fits_def write_loop_Nil ParseLimits_default_def)
  with Ok lay fit show ?thesis
    by (auto simp: write_canonical_def usize_checked_add_def Let_def)
next
  case (Err e)
  then show ?thesis by (simp add: write_canonical_def)
next
  case Panic
  then show ?thesis using measure_sexpr_spec [of mem v] by simp
qed

lemma to_canonical_Ok:
  "to_canonical (\<lambda>_. True) v = Ok bs \<longleftrightarrow>
     bs = canonical v \<and> fits ParseLimits_default v \<and> length (canonical v) \<le> max_input ParseLimits_default"
proof
  assume "to_canonical (\<lambda>_. True) v = Ok bs"
  then have "write_canonical (\<lambda>_. True) v [] = (Ok (), bs)"
    by (auto simp: to_canonical_def split: prod.splits result.splits)
  then have "is_ok (measure_sexpr (\<lambda>_. True) v ParseLimits_default)"
    and wl: "write_loop [PValue v] [] = Some bs"
    by (auto simp: write_canonical_def Let_def split: result.splits option.splits if_splits)
  then have fit: "fits ParseLimits_default v" "length (canonical v) \<le> max_input ParseLimits_default"
    using measure_sexpr_spec [of "\<lambda>_. True" v] by (auto simp: is_ok_def split: result.splits)
  with wl show "bs = canonical v \<and> fits ParseLimits_default v \<and> length (canonical v) \<le> max_input ParseLimits_default"
    using write_loop_value [of "max_atom ParseLimits_default" v "[]" "[]"]
    by (simp add: fits_def write_loop_Nil ParseLimits_default_def)
next
  assume a: "bs = canonical v \<and> fits ParseLimits_default v \<and> length (canonical v) \<le> max_input ParseLimits_default"
  then obtain lay where lay: "measure_sexpr (\<lambda>_. True) v ParseLimits_default = Ok lay"
    "lay_bytes lay = length (canonical v)"
    using measure_sexpr_spec [of "\<lambda>_. True" v] by (auto simp: is_ok_def split: result.splits)
  have "write_loop [PValue v] [] = Some (canonical v)"
    using write_loop_value [of "max_atom ParseLimits_default" v "[]" "[]"] a
    by (simp add: fits_def write_loop_Nil ParseLimits_default_def)
  then show "to_canonical (\<lambda>_. True) v = Ok bs"
    using a lay by (simp add: to_canonical_def write_canonical_def usize_checked_add_def
                      ParseLimits_default_def usize_max_def)
qed

text \<open>
  C7: Under the default limits and with memory available, writing and complete parsing are
  inverse functions: an input parses to an expression exactly when that expression is
  written as that input.
\<close>

theorem canonical_roundtrip:
  "parse_complete (\<lambda>_. True) bs ParseLimits_default = Ok v \<longleftrightarrow> to_canonical (\<lambda>_. True) v = Ok bs"
proof
  assume "parse_complete (\<lambda>_. True) bs ParseLimits_default = Ok v"
  then have p: "parse_prefix (\<lambda>_. True) bs ParseLimits_default = Ok (v, length bs)"
    by (auto simp: parse_complete_def result_simps split: if_splits)
  then have "length bs = length (canonical v)" "take (length bs) bs = canonical v"
    "fits ParseLimits_default v" "length bs \<le> max_input ParseLimits_default"
    using parse_prefix_sound [of bs "\<lambda>_. True" ParseLimits_default] by blast+
  then show "to_canonical (\<lambda>_. True) v = Ok bs"
    unfolding to_canonical_Ok by simp
next
  assume "to_canonical (\<lambda>_. True) v = Ok bs"
  then show "parse_complete (\<lambda>_. True) bs ParseLimits_default = Ok v"
    using parse_prefix_complete [of ParseLimits_default bs v] unfolding to_canonical_Ok
    by (simp add: parse_complete_def ParseLimits_default_def usize_max_def)
qed

text \<open>
  C23: The writing traversal never needs more stack than was reserved for it: after a
  successful measurement, in every state the loop reaches, the pending items are at most the
  measured nodes, so the infallible pushes of the loop cannot reallocate.
\<close>

theorem write_stack_reserved:
  assumes "measure_sexpr mem v ParseLimits_default = Ok lay" and "write_reaches v out pending out'"
  shows "length pending \<le> lay_nodes lay"
proof -
  have "lay_nodes lay = nodes v" using measure_sexpr_spec [of mem v] assms(1) by simp
  then show ?thesis
    using write_reaches_nodes [OF assms(2)] item_nodes_length [of pending] by simp
qed

theorem write_stack_reserved_witness:
  "write_reaches (SList [Atom [], Atom []]) [] [PValue (Atom []), PValue (Atom []), CloseList] [LPAREN]
   \<and> length [PValue (Atom []), PValue (Atom []), CloseList] \<le> nodes (SList [Atom [], Atom []])"
proof -
  let ?v = "SList [Atom [], Atom []]"
  have "is_ok (measure_sexpr (\<lambda>_. True) ?v ParseLimits_default)"
    using measure_sexpr_spec [of "\<lambda>_. True" ?v]
    by (simp add: fits_def ParseLimits_default_def dec.simps)
  then obtain lay where m: "measure_sexpr (\<lambda>_. True) ?v ParseLimits_default = Ok lay"
    and n: "lay_nodes lay = nodes ?v"
    using measure_sexpr_spec [of "\<lambda>_. True" ?v] by (auto simp: is_ok_def split: result.splits)
  have r: "write_reaches ?v [] [PValue (Atom []), PValue (Atom []), CloseList] [LPAREN]"
    by (rule write_reaches.step [OF write_reaches.start]) simp
  show ?thesis using r write_stack_reserved [OF m r] n by simp
qed

end
