(* ===== verification/Runtime.thy ===== *)
theory Runtime
  imports Frame Secret
begin

text \<open>
  The asynchronous runtime as the sources see it. Everything that the operating system, the
  peer and the scheduler decide is a script in the record \<open>world\<close>: what successive reads of
  the stream return, what becomes of successive writes, what successive readings of the
  clock show, and the bytes the peer has been given. A script that is used up behaves like
  a stream that stays pending until the deadline. So every operation is a total function of
  the world, and a theorem about all worlds is a theorem about all behaviours of the
  environment, failures, timeouts and cancellations included.

  \<open>async\<close> is how an \<open>async fn\<close> can end: with a value, with an error, with a panic, or dropped
  by its caller at a suspension point. \<open>bindM\<close> sequences operations on a state, as \<open>?\<close> and
  \<open>.await\<close> do.
\<close>

section \<open>The environment\<close>

record io_error =
  io_kind :: nat
  io_detail :: bytes

datatype read_event =
    Chunk bytes        \<comment> \<open>the read returned these bytes; none at end of stream\<close>
  | ReadError io_error
  | ReadElapsed        \<comment> \<open>the deadline passed while the read was pending\<close>
  | ReadDropped        \<comment> \<open>the future was dropped while the read was pending\<close>

datatype write_event =
    Flushed            \<comment> \<open>everything written and flushed\<close>
  | WriteError nat io_error
  | WriteElapsed nat   \<comment> \<open>deadline passed after that many bytes\<close>
  | WriteDropped nat   \<comment> \<open>future dropped after that many bytes\<close>

record world =
  w_reads :: "read_event list"
  w_writes :: "write_event list"
  w_clock :: "nat list"
  w_sent :: bytes
  w_instant_max :: nat \<comment> \<open>the latest instant the platform represents\<close>

definition now :: "world \<Rightarrow> nat \<times> world" where
  "now w = (case w_clock w of [] \<Rightarrow> (0, w) | t # ts \<Rightarrow> (t, w\<lparr>w_clock := ts\<rparr>))"

definition next_read :: "world \<Rightarrow> read_event \<times> world" where
  "next_read w = (case w_reads w of [] \<Rightarrow> (ReadElapsed, w) | e # es \<Rightarrow> (e, w\<lparr>w_reads := es\<rparr>))"

definition next_write :: "world \<Rightarrow> write_event \<times> world" where
  "next_write w = (case w_writes w of [] \<Rightarrow> (WriteElapsed 0, w) | e # es \<Rightarrow> (e, w\<lparr>w_writes := es\<rparr>))"

lemma now_keeps [simp]:
  "w_reads (snd (now w)) = w_reads w" "w_writes (snd (now w)) = w_writes w" "w_sent (snd (now w)) = w_sent w"
  "w_instant_max (snd (now w)) = w_instant_max w"
  by (simp_all add: now_def split: list.splits)

section \<open>Asynchronous outcomes\<close>

datatype ('a, 'e) async = Done 'a | Fail 'e | Abort | Cancelled

definition is_done :: "('a, 'e) async \<Rightarrow> bool" where
  "is_done r = (case r of Done _ \<Rightarrow> True | _ \<Rightarrow> False)"

lemma is_done_simps [simp]: "is_done (Done x)" "\<not> is_done (Fail e)" "\<not> is_done Abort" "\<not> is_done Cancelled"
  by (simp_all add: is_done_def)

type_synonym ('s, 'a, 'e) io = "'s \<Rightarrow> ('a, 'e) async \<times> 's"

definition returnM :: "'a \<Rightarrow> ('s, 'a, 'e) io" where
  "returnM x s = (Done x, s)"

definition failM :: "'e \<Rightarrow> ('s, 'a, 'e) io" where
  "failM e s = (Fail e, s)"

definition bindM :: "('s, 'a, 'e) io \<Rightarrow> ('a \<Rightarrow> ('s, 'b, 'e) io) \<Rightarrow> ('s, 'b, 'e) io" where
  "bindM m f s =
     (case m s of
        (Done x, s') \<Rightarrow> f x s'
      | (Fail e, s') \<Rightarrow> (Fail e, s')
      | (Abort, s') \<Rightarrow> (Abort, s')
      | (Cancelled, s') \<Rightarrow> (Cancelled, s'))"

definition map_fail :: "('e \<Rightarrow> 'f) \<Rightarrow> ('a, 'e) async \<Rightarrow> ('a, 'f) async" where
  "map_fail g r =
     (case r of Done x \<Rightarrow> Done x | Fail e \<Rightarrow> Fail (g e) | Abort \<Rightarrow> Abort | Cancelled \<Rightarrow> Cancelled)"

text \<open>A synchronous result used inside an asynchronous function.\<close>

definition lift_result :: "('e \<Rightarrow> 'f) \<Rightarrow> ('a, 'e) result \<Rightarrow> ('a, 'f) async" where
  "lift_result g r = (case r of Ok x \<Rightarrow> Done x | Err e \<Rightarrow> Fail (g e) | Panic \<Rightarrow> Abort)"

lemma map_fail_simps [simp]:
  "map_fail g (Done x) = Done x" "map_fail g (Fail e) = Fail (g e)"
  "map_fail g Abort = Abort" "map_fail g Cancelled = Cancelled"
  by (simp_all add: map_fail_def)

lemma lift_result_simps [simp]:
  "lift_result g (Ok x) = Done x" "lift_result g (Err e) = Fail (g e)" "lift_result g Panic = Abort"
  by (simp_all add: lift_result_def)

lemma bindM_Done: "bindM m f s = (Done y, s'') \<longleftrightarrow> (\<exists>x s'. m s = (Done x, s') \<and> f x s' = (Done y, s''))"
  by (auto simp: bindM_def split: prod.splits async.splits)

end
