(* ===== verification/Channel.thy ===== *)
theory Channel
  imports Runtime
begin

text \<open>
  The transport channel (\<open>assuan-transport/src/channel.rs\<close>) with its errors
  (\<open>error.rs\<close>): bounded line framing over a stream, read-ahead, the write scratch buffer, and
  the guard that wipes everything unless an operation completes. The stream itself is the
  environment of \<open>Runtime\<close>; \<open>ch_open\<close> says whether the channel still owns it.
\<close>

section \<open>Errors\<close>

datatype DiscoveryError = ProcessFailed | UnsupportedFormat | NotFound | InvalidOutput | OutputLimit

fun discovery_error_display :: "DiscoveryError \<Rightarrow> string" where
  "discovery_error_display ProcessFailed = ''endpoint discovery process failed''"
| "discovery_error_display UnsupportedFormat = ''unsupported endpoint file format''"
| "discovery_error_display NotFound = ''no endpoint was found''"
| "discovery_error_display InvalidOutput = ''invalid endpoint discovery output''"
| "discovery_error_display OutputLimit = ''endpoint discovery output limit exceeded''"

datatype TransportError =
    TClosed
  | TProtocol ProtocolError
  | TLimit LimitError
  | TIo io_error
  | TTimeout
  | TInvalidEndpoint
  | TInvalidOptions
  | TAccessPolicy
  | TDiscovery DiscoveryError

fun transport_error_display :: "TransportError \<Rightarrow> string" where
  "transport_error_display TClosed = ''transport channel is closed''"
| "transport_error_display (TProtocol _) = ''transport framing failed''"
| "transport_error_display (TLimit _) = ''transport storage limit failure''"
| "transport_error_display (TIo _) = ''transport I/O failed''"
| "transport_error_display TTimeout = ''transport operation timed out''"
| "transport_error_display TInvalidEndpoint = ''invalid transport endpoint''"
| "transport_error_display TInvalidOptions = ''invalid transport options''"
| "transport_error_display TAccessPolicy = ''local transport access policy could not be enforced''"
| "transport_error_display (TDiscovery _) = ''endpoint discovery failed''"

text \<open>The derived \<open>Debug\<close> of the fieldless inner errors prints the constructor's name.\<close>

fun limit_error_name :: "LimitError \<Rightarrow> string" where
  "limit_error_name AllocationFailed = ''AllocationFailed''"
| "limit_error_name LengthOverflow = ''LengthOverflow''"
| "limit_error_name CapacityExceeded = ''CapacityExceeded''"

fun protocol_error_name :: "ProtocolError \<Rightarrow> string" where
  "protocol_error_name InvalidLine = ''InvalidLine''"
| "protocol_error_name InvalidToken = ''InvalidToken''"
| "protocol_error_name InvalidResponse = ''InvalidResponse''"
| "protocol_error_name InvalidErrorCode = ''InvalidErrorCode''"
| "protocol_error_name InvalidEscape = ''InvalidEscape''"
| "protocol_error_name LineTooLong = ''LineTooLong''"
| "protocol_error_name UnexpectedEof = ''UnexpectedEof''"

fun discovery_error_name :: "DiscoveryError \<Rightarrow> string" where
  "discovery_error_name ProcessFailed = ''ProcessFailed''"
| "discovery_error_name UnsupportedFormat = ''UnsupportedFormat''"
| "discovery_error_name NotFound = ''NotFound''"
| "discovery_error_name InvalidOutput = ''InvalidOutput''"
| "discovery_error_name OutputLimit = ''OutputLimit''"

definition transport_error_debug :: "TransportError \<Rightarrow> dbg" where
  "transport_error_debug e =
     (case e of
        TClosed \<Rightarrow> DText ''Closed''
      | TProtocol error \<Rightarrow> DTuple ''Protocol'' [DText (protocol_error_name error)]
      | TLimit error \<Rightarrow> DTuple ''Limit'' [DText (limit_error_name error)]
      | TIo error \<Rightarrow> DStruct ''Io'' [(''kind'', DNum (io_kind error))] True
      | TTimeout \<Rightarrow> DText ''Timeout''
      | TInvalidEndpoint \<Rightarrow> DText ''InvalidEndpoint''
      | TInvalidOptions \<Rightarrow> DText ''InvalidOptions''
      | TAccessPolicy \<Rightarrow> DText ''AccessPolicy''
      | TDiscovery error \<Rightarrow> DTuple ''Discovery'' [DText (discovery_error_name error)])"

section \<open>The channel\<close>

record Channel =
  ch_open :: bool
  ch_line :: LineBuffer
  ch_ahead :: bytes
  ch_pending :: nat
  ch_write :: bytes

definition ch_new :: Channel where
  "ch_new = \<lparr>ch_open = True, ch_line = lb_new, ch_ahead = replicate MAX_LINE_BYTES 0,
             ch_pending = 0, ch_write = replicate MAX_LINE_BYTES 0\<rparr>"

definition has_buffered_input :: "Channel \<Rightarrow> bool" where
  "has_buffered_input c \<longleftrightarrow> ch_pending c \<noteq> 0"

definition received_line :: "Channel \<Rightarrow> bytes option" where
  "received_line c = lb_line (ch_line c)"

definition ch_clear :: "Channel \<Rightarrow> Channel" where
  "ch_clear c = c\<lparr>ch_line := lb_clear (ch_line c), ch_ahead := zeroize (ch_ahead c),
                  ch_write := zeroize (ch_write c), ch_pending := 0\<rparr>"

definition ch_close :: "Channel \<Rightarrow> Channel" where
  "ch_close c = ch_clear (c\<lparr>ch_open := False\<rparr>)"

definition ch_debug :: "Channel \<Rightarrow> dbg" where
  "ch_debug c = DStruct ''Channel'' [(''closed'', DBool (\<not> ch_open c))] True"

text \<open>\<open>Operation\<close> and its \<open>Drop\<close>: any exit before completion clears the channel.\<close>

definition operation ::
  "(Channel \<times> world, 'a, TransportError) io \<Rightarrow> (Channel \<times> world, 'a, TransportError) io" where
  "operation body s =
     (case body s of
        (Done x, s') \<Rightarrow> (Done x, s')
      | (r, (c, w)) \<Rightarrow> (r, (ch_clear c, w)))"

text \<open>
  One pass over the read-ahead bytes: feed them to the line buffer, move the rest to the
  front, wipe behind it. The value says whether a line is complete.
\<close>

definition feed_ahead :: "Channel \<Rightarrow> (bool, TransportError) async \<times> Channel" where
  "feed_ahead c =
     (case get_range (ch_ahead c) 0 (ch_pending c) of
        None \<Rightarrow> (Abort, c)
      | Some piece \<Rightarrow>
          (case lb_feed (ch_line c) piece of
             (Err e, lb) \<Rightarrow> (Fail (TProtocol e), c\<lparr>ch_line := lb\<rparr>)
           | (Panic, lb) \<Rightarrow> (Abort, c\<lparr>ch_line := lb\<rparr>)
           | (Ok used, lb) \<Rightarrow>
               (case get_range (ch_ahead c) used (ch_pending c) of
                  None \<Rightarrow> (Abort, c\<lparr>ch_line := lb\<rparr>)
                | Some rest \<Rightarrow>
                    let ahead = rest @ drop (length rest) (ch_ahead c);
                        pending = ch_pending c - used
                    in (Done (lb_line lb \<noteq> None),
                        c\<lparr>ch_line := lb, ch_pending := pending,
                          ch_ahead := take pending ahead @ zeroize (drop pending ahead)\<rparr>))))"

text \<open>
  The reading loop. \<open>read\<close> stores what it got at the front of the read-ahead buffer; a
  stream that reports more bytes than the buffer holds violates its contract and panics.
\<close>

function receive_loop :: "(Channel \<times> world, unit, TransportError) io" where
  "receive_loop (c, w) =
     (case (if ch_pending c \<noteq> 0 then feed_ahead c else (Done False, c)) of
        (Done True, c) \<Rightarrow> (Done (), (c, w))
      | (Fail e, c) \<Rightarrow> (Fail e, (c, w))
      | (Abort, c) \<Rightarrow> (Abort, (c, w))
      | (Cancelled, c) \<Rightarrow> (Cancelled, (c, w))
      | (Done False, c) \<Rightarrow>
          (case w_reads w of
             [] \<Rightarrow> (Fail TTimeout, (c, w))
           | e # es \<Rightarrow>
               let w = w\<lparr>w_reads := es\<rparr> in
               (case e of
                  ReadError err \<Rightarrow> (Fail (TIo err), (c, w))
                | ReadElapsed \<Rightarrow> (Fail TTimeout, (c, w))
                | ReadDropped \<Rightarrow> (Cancelled, (c, w))
                | Chunk bs \<Rightarrow>
                    (case copy_at (ch_ahead c) 0 bs of
                       None \<Rightarrow> (Abort, (c, w))
                     | Some ahead \<Rightarrow>
                         let c = c\<lparr>ch_ahead := ahead, ch_pending := length bs\<rparr> in
                         if length bs = 0 then
                           (lift_result TProtocol (lb_finish_eof (ch_line c)), (c, w))
                         else receive_loop (c, w)))))"
  by pat_completeness auto

termination
  by (relation "measure (\<lambda>(c, w). length (w_reads w))") auto

declare receive_loop.simps [simp del]

definition receive :: "(Channel \<times> world, unit, TransportError) io" where
  "receive s = (if \<not> ch_open (fst s) then (Fail TClosed, s) else receive_loop s)"

definition read_line_or_eof ::
  "nat \<Rightarrow> Sensitivity \<Rightarrow> (Channel \<times> world, bytes option, TransportError) io" where
  "read_line_or_eof deadline sensitivity s =
     (case operation (\<lambda>(c, w).
             let c = c\<lparr>ch_line := lb_clear (ch_line c)\<rparr>; (t, w) = now w in
             if deadline \<le> t then (Fail TTimeout, (c, w)) else receive (c, w)) s of
        (Done _, (c, w)) \<Rightarrow> (Done (lb_line (ch_line c)), (c, w))
      | (Fail e, s') \<Rightarrow> (Fail e, s')
      | (Abort, s') \<Rightarrow> (Abort, s')
      | (Cancelled, s') \<Rightarrow> (Cancelled, s'))"

definition read_line :: "nat \<Rightarrow> Sensitivity \<Rightarrow> (Channel \<times> world, bytes, TransportError) io" where
  "read_line deadline sensitivity =
     bindM (read_line_or_eof deadline sensitivity)
       (\<lambda>line. case line of None \<Rightarrow> failM (TProtocol UnexpectedEof) | Some bs \<Rightarrow> returnM bs)"

text \<open>The borrowed line may be rewritten in place before the next operation.\<close>

definition edit_line :: "(bytes \<Rightarrow> bytes) \<Rightarrow> Channel \<Rightarrow> Channel" where
  "edit_line f c = c\<lparr>ch_line := lb_line_mut (ch_line c) f\<rparr>"

definition deliver_bytes :: "bytes \<Rightarrow> world \<Rightarrow> world" where
  "deliver_bytes bs w = w\<lparr>w_sent := w_sent w @ bs\<rparr>"

definition write_line ::
  "bytes \<Rightarrow> nat \<Rightarrow> Sensitivity \<Rightarrow> (Channel \<times> world, unit, TransportError) io" where
  "write_line bs deadline sensitivity =
     operation (\<lambda>(c, w).
       if length bs > MAX_LINE_BYTES then (Fail (TProtocol LineTooLong), (c, w))
       else case strip_suffix [LF] bs of
         None \<Rightarrow> (Fail (TProtocol InvalidLine), (c, w))
       | Some body \<Rightarrow>
           let body = (case strip_suffix [CR] body of None \<Rightarrow> body | Some b \<Rightarrow> b) in
           if list_ex forbidden body then (Fail (TProtocol InvalidLine), (c, w))
           else let (t, w) = now w in
           if deadline \<le> t then (Fail TTimeout, (c, w))
           else if \<not> ch_open c then (Fail TClosed, (c, w))
           else case copy_at (ch_write c) 0 bs of
             None \<Rightarrow> (Abort, (c, w))
           | Some scratch \<Rightarrow>
               let c = c\<lparr>ch_write := scratch\<rparr>; wire = take (length bs) scratch; (e, w) = next_write w in
               (case e of
                  Flushed \<Rightarrow> (Done (), (c\<lparr>ch_write := zeroize scratch\<rparr>, deliver_bytes wire w))
                | WriteError n err \<Rightarrow> (Fail (TIo err), (c, deliver_bytes (take n wire) w))
                | WriteElapsed n \<Rightarrow> (Fail TTimeout, (c, deliver_bytes (take n wire) w))
                | WriteDropped n \<Rightarrow> (Cancelled, (c, deliver_bytes (take n wire) w))))"

section \<open>The invariant\<close>

definition ch_shape :: "Channel \<Rightarrow> bool" where
  "ch_shape c \<longleftrightarrow> lb_inv (ch_line c) \<and> length (ch_ahead c) = MAX_LINE_BYTES
     \<and> length (ch_write c) = MAX_LINE_BYTES"

definition ch_inv :: "Channel \<Rightarrow> bool" where
  "ch_inv c \<longleftrightarrow> ch_shape c \<and> ch_pending c \<le> MAX_LINE_BYTES
     \<and> wiped (drop (ch_pending c) (ch_ahead c)) \<and> wiped (ch_write c)"

definition buffered :: "Channel \<Rightarrow> bytes" where
  "buffered c = take (ch_pending c) (ch_ahead c)"

text \<open>Nothing of what passed through the channel is left in it.\<close>

definition ch_wiped :: "Channel \<Rightarrow> bool" where
  "ch_wiped c \<longleftrightarrow> ch_pending c = 0 \<and> wiped (ch_ahead c) \<and> wiped (ch_write c)
     \<and> wiped (lb_storage (ch_line c)) \<and> received_line c = None"

lemma ch_clear_wiped: "ch_shape c \<Longrightarrow> ch_inv (ch_clear c) \<and> ch_wiped (ch_clear c)"
  using lines.clear_abs [of "ch_line c"]
  by (auto simp: ch_clear_def ch_inv_def ch_shape_def ch_wiped_def received_line_def lb_clear_def
        lb_line_def wiped_drop)

lemma ch_new_inv: "ch_inv ch_new"
  using lines.fresh_abs by (simp add: ch_new_def ch_inv_def ch_shape_def)

lemma ch_close_inv: "ch_shape c \<Longrightarrow> ch_inv (ch_close c) \<and> ch_wiped (ch_close c) \<and> \<not> ch_open (ch_close c)"
  using ch_clear_wiped [of "c\<lparr>ch_open := False\<rparr>"]
  by (auto simp: ch_close_def ch_shape_def) (simp add: ch_clear_def)

section \<open>Reading\<close>

lemma frame_feed_append:
  "frame_feed acc (xs @ ys) =
     (case frame_feed acc xs of
        (n, Partial acc') \<Rightarrow> (let (m, st) = frame_feed acc' ys in (n + m, st))
      | r \<Rightarrow> r)"
  by (induction acc xs rule: frame_feed.induct)
     (auto simp: Let_def split: framing.splits prod.splits)

lemma feed_ahead_cases:
  assumes inv: "ch_inv c" and ab: "lb_abs (ch_line c) = Partial acc"
  shows "(\<exists>lb n. frame_feed acc (buffered c) = (n, Overflow) \<and> lb_inv lb
            \<and> feed_ahead c = (Fail (TProtocol LineTooLong), c\<lparr>ch_line := lb\<rparr>))
       \<or> (\<exists>c' n l. frame_feed acc (buffered c) = (n, Complete l) \<and> feed_ahead c = (Done True, c')
            \<and> ch_inv c' \<and> lb_abs (ch_line c') = Complete l \<and> buffered c' = drop n (buffered c)
            \<and> ch_open c' = ch_open c \<and> n \<le> length (buffered c))
       \<or> (\<exists>c'. frame_feed acc (buffered c) = (length (buffered c), Partial (acc @ buffered c))
            \<and> feed_ahead c = (Done False, c') \<and> ch_inv c' \<and> lb_abs (ch_line c') = Partial (acc @ buffered c)
            \<and> ch_pending c' = 0 \<and> ch_open c' = ch_open c)"
proof -
  have lb: "lb_inv (ch_line c)" and len: "length (ch_ahead c) = MAX_LINE_BYTES" "ch_pending c \<le> MAX_LINE_BYTES"
    using inv by (auto simp: ch_inv_def ch_shape_def)
  have piece: "get_range (ch_ahead c) 0 (ch_pending c) = Some (buffered c)"
    using len by (simp add: get_range_def buffered_def)
  have blen: "length (buffered c) = ch_pending c" using len by (simp add: buffered_def)
  let ?next = "\<lambda>used lb. c\<lparr>ch_line := lb, ch_pending := ch_pending c - used,
      ch_ahead := (drop used (buffered c)) @ zeroize (drop (ch_pending c - used) (ch_ahead c))\<rparr>"
  have ok: "feed_ahead c = (Done (lb_line lb \<noteq> None), ?next used lb)
      \<and> (lb_inv lb \<longrightarrow> ch_inv (?next used lb)) \<and> buffered (?next used lb) = drop used (buffered c)"
    if "lb_feed (ch_line c) (buffered c) = (Ok used, lb)" "used \<le> ch_pending c" for used lb
  proof -
    have "get_range (ch_ahead c) used (ch_pending c) = Some (drop used (buffered c))"
      using that len by (simp add: get_range_def buffered_def drop_take)
    then show ?thesis
      using that piece len inv blen
      by (auto simp: feed_ahead_def Let_def ch_inv_def ch_shape_def buffered_def)
  qed
  from lb_feed_partial [OF lb ab, of "buffered c"] show ?thesis
  proof (elim disjE exE conjE)
    fix lb' assume a: "lb_feed (ch_line c) (buffered c) = (Ok (length (buffered c)), lb')" "lb_inv lb'"
      "lb_abs lb' = Partial (acc @ buffered c)"
      "frame_feed acc (buffered c) = (length (buffered c), Partial (acc @ buffered c))"
    have "lb_line lb' = None" using a(2,3) by (simp add: lines.line_abs)
    with ok [OF a(1)] a blen show ?thesis by auto
  next
    fix lb' n l assume a: "lb_feed (ch_line c) (buffered c) = (Ok n, lb')" "lb_inv lb'"
      "lb_abs lb' = Complete l" "n \<le> length (buffered c)" "frame_feed acc (buffered c) = (n, Complete l)"
    have "lb_line lb' = Some l" using a(2,3) by (simp add: lines.line_abs)
    with ok [OF a(1)] a blen show ?thesis by auto
  next
    fix lb' n assume "lb_feed (ch_line c) (buffered c) = (Err LineTooLong, lb')" "lb_inv lb'"
      "frame_feed acc (buffered c) = (n, Overflow)"
    then show ?thesis using piece by (auto simp: feed_ahead_def)
  qed
qed

text \<open>
  The bytes a script of reads delivers before it stops, what stops it, and the contract of
  \<open>AsyncRead\<close>: a read reports at most as many bytes as the buffer holds.
\<close>

fun incoming :: "read_event list \<Rightarrow> bytes" where
  "incoming (Chunk bs # es) = (if bs = [] then [] else bs @ incoming es)"
| "incoming _ = []"

fun stops :: "read_event list \<Rightarrow> read_event" where
  "stops [] = ReadElapsed"
| "stops (Chunk bs # es) = (if bs = [] then Chunk [] else stops es)"
| "stops (e # es) = e"

definition reads_ok :: "world \<Rightarrow> bool" where
  "reads_ok w \<longleftrightarrow> list_all (\<lambda>e. case e of Chunk bs \<Rightarrow> length bs \<le> MAX_LINE_BYTES | _ \<Rightarrow> True) (w_reads w)"

text \<open>What the loop promises, by where the stream ahead of it leads the framing.\<close>

definition reads_as ::
  "bytes \<Rightarrow> Channel \<Rightarrow> world \<Rightarrow> (unit, TransportError) async \<Rightarrow> Channel \<Rightarrow> world \<Rightarrow> bool" where
  "reads_as acc c w r c' w' \<longleftrightarrow>
     (let ahead = buffered c @ incoming (w_reads w) in
      case frame_feed acc ahead of
        (n, Complete l) \<Rightarrow>
          r = Done () \<and> ch_inv c' \<and> lb_abs (ch_line c') = Complete l
          \<and> buffered c' @ incoming (w_reads w') = drop n ahead \<and> stops (w_reads w') = stops (w_reads w)
      | (_, Overflow) \<Rightarrow> r = Fail (TProtocol LineTooLong)
      | (_, Partial acc') \<Rightarrow>
          (case stops (w_reads w) of
             Chunk _ \<Rightarrow>
               if acc' = [] then r = Done () \<and> ch_inv c' \<and> lb_abs (ch_line c') = Partial [] \<and> buffered c' = []
               else r = Fail (TProtocol UnexpectedEof)
           | ReadError e \<Rightarrow> r = Fail (TIo e)
           | ReadElapsed \<Rightarrow> r = Fail TTimeout
           | ReadDropped \<Rightarrow> r = Cancelled))"

definition read_frame :: "Channel \<Rightarrow> world \<Rightarrow> Channel \<Rightarrow> world \<Rightarrow> bool" where
  "read_frame c w c' w' \<longleftrightarrow> ch_shape c' \<and> ch_open c' = ch_open c
     \<and> (\<exists>es es'. w_reads w = es @ es' \<and> w' = w\<lparr>w_reads := es'\<rparr>)"

lemma read_frame_refl: "ch_shape c' \<Longrightarrow> ch_open c' = ch_open c \<Longrightarrow> read_frame c w c' w"
  unfolding read_frame_def by (intro conjI exI [of _ "[]"] exI [of _ "w_reads w"]) simp_all

lemma ch_inv_shape: "ch_inv c \<Longrightarrow> ch_shape c"
  by (simp add: ch_inv_def)

lemma partial_eof:
  assumes "lb_inv lb" and "lb_abs lb = Partial acc"
  shows "lb_finish_eof lb = (if acc = [] then Ok () else Err UnexpectedEof)"
proof -
  have "\<not> lb_failed lb" "\<not> lb_ready lb" "acc = take (lb_len lb) (lb_storage lb)"
    using assms(2) by (auto simp: lb_abs_def split: if_splits)
  moreover have "lb_len lb \<le> length (lb_storage lb)" using assms(1) by (simp add: lb_inv_def)
  ultimately show ?thesis by (auto simp: lb_finish_eof_def)
qed

text \<open>The loop with nothing left ahead: it asks the stream.\<close>

definition refill :: "Channel \<Rightarrow> bytes \<Rightarrow> Channel" where
  "refill c bs = c\<lparr>ch_ahead := bs @ drop (length bs) (ch_ahead c), ch_pending := length bs\<rparr>"

lemma receive_loop_ask:
  assumes "ch_inv c" "ch_pending c = 0" "reads_ok w"
  shows "receive_loop (c, w) =
     (case w_reads w of
        [] \<Rightarrow> (Fail TTimeout, (c, w))
      | ReadError err # es \<Rightarrow> (Fail (TIo err), (c, w\<lparr>w_reads := es\<rparr>))
      | ReadElapsed # es \<Rightarrow> (Fail TTimeout, (c, w\<lparr>w_reads := es\<rparr>))
      | ReadDropped # es \<Rightarrow> (Cancelled, (c, w\<lparr>w_reads := es\<rparr>))
      | Chunk bs # es \<Rightarrow>
          if bs = [] then (lift_result TProtocol (lb_finish_eof (ch_line c)), (refill c [], w\<lparr>w_reads := es\<rparr>))
          else receive_loop (refill c bs, w\<lparr>w_reads := es\<rparr>))"
proof -
  have "copy_at (ch_ahead c) 0 bs = Some (bs @ drop (length bs) (ch_ahead c))"
    if "w_reads w = Chunk bs # es" for bs es
    using assms that by (simp add: copy_at_def reads_ok_def ch_inv_def ch_shape_def)
  then show ?thesis
    using assms(2)
    by (subst receive_loop.simps)
       (auto simp: Let_def refill_def split: list.split read_event.split)
qed

lemma refill_inv:
  assumes "ch_inv c" "ch_pending c = 0" "length bs \<le> MAX_LINE_BYTES"
  shows "ch_inv (refill c bs) \<and> buffered (refill c bs) = bs"
  using assms wiped_drop [of "ch_ahead c" "length bs"]
  by (auto simp: ch_inv_def ch_shape_def refill_def buffered_def)

text \<open>The loop on a channel with bytes ahead: one pass, then it either ends or asks.\<close>

lemma receive_loop_pass:
  assumes "ch_pending c \<noteq> 0"
  shows "feed_ahead c = (Fail e, c') \<Longrightarrow> receive_loop (c, w) = (Fail e, (c', w))"
    and "feed_ahead c = (Done True, c') \<Longrightarrow> receive_loop (c, w) = (Done (), (c', w))"
    and "feed_ahead c = (Done False, c') \<Longrightarrow> ch_pending c' = 0 \<Longrightarrow> receive_loop (c, w) = receive_loop (c', w)"
  using assms by (simp_all add: receive_loop.simps [of c w] receive_loop.simps [of c' w])

lemma read_frame_step:
  assumes "read_frame (refill c bs) (w\<lparr>w_reads := es\<rparr>) c' w'" and "w_reads w = e # es"
  shows "read_frame c w c' w'"
proof -
  obtain es1 es2 where "es = es1 @ es2" "w' = w\<lparr>w_reads := es2\<rparr>"
    using assms(1) by (auto simp: read_frame_def)
  then have "\<exists>xs ys. w_reads w = xs @ ys \<and> w' = w\<lparr>w_reads := ys\<rparr>"
    using assms(2) by (intro exI [of _ "e # es1"] exI [of _ es2]) simp
  then show ?thesis using assms(1) by (auto simp: read_frame_def refill_def)
qed

lemma received_shift:
  assumes "reads_as (acc @ buffered c) c' w r d w'" and "buffered c' = []"
    and "frame_feed acc (buffered c) = (length (buffered c), Partial (acc @ buffered c))"
  shows "reads_as acc c w r d w'"
proof -
  obtain m st where ff: "frame_feed (acc @ buffered c) (incoming (w_reads w)) = (m, st)" by force
  then have "frame_feed acc (buffered c @ incoming (w_reads w)) = (length (buffered c) + m, st)"
    using assms(3) by (simp add: frame_feed_append)
  then show ?thesis using assms(1,2) ff by (cases st) (simp_all add: reads_as_def)
qed

lemma received_ask:
  assumes inv: "ch_inv c" "ch_pending c = 0" "lb_abs (ch_line c) = Partial acc" and ok: "reads_ok w"
    and IH: "\<And>bs es. w_reads w = Chunk bs # es \<Longrightarrow> bs \<noteq> [] \<Longrightarrow>
      \<exists>r c' w'. receive_loop (refill c bs, w\<lparr>w_reads := es\<rparr>) = (r, (c', w'))
        \<and> reads_as acc (refill c bs) (w\<lparr>w_reads := es\<rparr>) r c' w' \<and> read_frame (refill c bs) (w\<lparr>w_reads := es\<rparr>) c' w'"
  shows "\<exists>r c' w'. receive_loop (c, w) = (r, (c', w')) \<and> reads_as acc c w r c' w' \<and> read_frame c w c' w'"
proof -
  have buf: "buffered c = []" using inv(2) by (simp add: buffered_def)
  have lb: "lb_inv (ch_line c)" using inv(1) by (simp add: ch_inv_def ch_shape_def)
  note ask = receive_loop_ask [OF inv(1,2) ok]
  show ?thesis
  proof (cases "w_reads w")
    case Nil
    then show ?thesis
      using ask buf read_frame_refl [OF ch_inv_shape [OF inv(1)] refl, of w] by (auto simp: reads_as_def)
  next
    case (Cons e es)
    note [simp] = Cons
    have frame: "read_frame c w c (w\<lparr>w_reads := es\<rparr>)"
      using inv(1) by (auto simp: read_frame_def ch_inv_shape intro: exI [of _ "[e]"])
    show ?thesis
    proof (cases e)
      case (Chunk bs)
      have len: "length bs \<le> MAX_LINE_BYTES" using ok Chunk by (simp add: reads_ok_def)
      note fill = refill_inv [OF inv(1,2) len]
      show ?thesis
      proof (cases "bs = []")
        case True
        have "read_frame c w (refill c []) (w\<lparr>w_reads := es\<rparr>)"
          using fill True inv(1) by (auto simp: read_frame_def ch_inv_shape refill_def intro: exI [of _ "[e]"])
        then show ?thesis
          using ask Chunk True buf partial_eof [OF lb inv(3)] inv(3) fill
          by (auto simp: reads_as_def refill_def)
      next
        case False
        from IH [of bs es] Chunk False obtain r c' w' where
          rec: "receive_loop (refill c bs, w\<lparr>w_reads := es\<rparr>) = (r, (c', w'))"
            "reads_as acc (refill c bs) (w\<lparr>w_reads := es\<rparr>) r c' w'"
            "read_frame (refill c bs) (w\<lparr>w_reads := es\<rparr>) c' w'" by auto
        have "reads_as acc c w r c' w'"
          using rec(2) Chunk False buf fill by (simp add: reads_as_def)
        moreover have "read_frame c w c' w'" by (rule read_frame_step [OF rec(3) Cons])
        ultimately show ?thesis using ask Chunk False rec(1) by auto
      qed
    qed (use ask buf inv(1) frame in \<open>auto simp: reads_as_def ch_inv_shape\<close>)
  qed
qed

lemma receive_loop_spec:
  "ch_inv c \<Longrightarrow> lb_abs (ch_line c) = Partial acc \<Longrightarrow> reads_ok w \<Longrightarrow>
   \<exists>r c' w'. receive_loop (c, w) = (r, (c', w')) \<and> reads_as acc c w r c' w' \<and> read_frame c w c' w'"
proof (induction "length (w_reads w)" arbitrary: c w acc rule: less_induct)
  case less
  have IH: "\<exists>r c' w'. receive_loop (refill d bs, w\<lparr>w_reads := es\<rparr>) = (r, (c', w'))
        \<and> reads_as a (refill d bs) (w\<lparr>w_reads := es\<rparr>) r c' w' \<and> read_frame (refill d bs) (w\<lparr>w_reads := es\<rparr>) c' w'"
    if "w_reads w = Chunk bs # es" "ch_inv d" "ch_pending d = 0" "lb_abs (ch_line d) = Partial a" for d a bs es
    using that less.prems refill_inv [OF that(2,3)]
    by (intro less.hyps) (auto simp: reads_ok_def refill_def)
  show ?case
  proof (cases "ch_pending c = 0")
    case True
    show ?thesis by (rule received_ask) (use less.prems True IH in auto)
  next
    case False
    from feed_ahead_cases [OF less.prems(1,2)] show ?thesis
    proof (elim disjE exE conjE)
      fix lb n assume a: "frame_feed acc (buffered c) = (n, Overflow)" "lb_inv lb"
        "feed_ahead c = (Fail (TProtocol LineTooLong), c\<lparr>ch_line := lb\<rparr>)"
      have "read_frame c w (c\<lparr>ch_line := lb\<rparr>) w"
        using a(2) less.prems(1) by (intro read_frame_refl) (auto simp: ch_inv_def ch_shape_def)
      then show ?thesis
        using receive_loop_pass(1) [OF False a(3), of w] a(1)
        by (auto simp: reads_as_def frame_feed_append)
    next
      fix c' n l assume a: "frame_feed acc (buffered c) = (n, Complete l)" "feed_ahead c = (Done True, c')"
        "ch_inv c'" "lb_abs (ch_line c') = Complete l" "buffered c' = drop n (buffered c)" "ch_open c' = ch_open c"
        "n \<le> length (buffered c)"
      have "read_frame c w c' w" using a(3,6) by (intro read_frame_refl) (auto simp: ch_inv_shape)
      then show ?thesis
        using receive_loop_pass(2) [OF False a(2), of w] a
        by (auto simp: reads_as_def frame_feed_append)
    next
      fix c' assume a: "frame_feed acc (buffered c) = (length (buffered c), Partial (acc @ buffered c))"
        "feed_ahead c = (Done False, c')" "ch_inv c'" "lb_abs (ch_line c') = Partial (acc @ buffered c)"
        "ch_pending c' = 0" "ch_open c' = ch_open c"
      obtain r d w' where rec: "receive_loop (c', w) = (r, (d, w'))"
        "reads_as (acc @ buffered c) c' w r d w'" "read_frame c' w d w'"
        using received_ask [OF a(3,5,4) less.prems(3)] IH a by blast
      have "buffered c' = []" using a(5) by (simp add: buffered_def)
      from received_shift [OF rec(2) this a(1)] have "reads_as acc c w r d w'" .
      moreover have "read_frame c w d w'" using rec(3) a(6) by (simp add: read_frame_def)
      ultimately show ?thesis using receive_loop_pass(3) [OF False a(2,5), of w] rec(1) by auto
    qed
  qed
qed

section \<open>The operations\<close>

lemma ch_clear_open [simp]: "ch_open (ch_clear c) = ch_open c"
  by (simp add: ch_clear_def)

text \<open>What every operation keeps: the shape, the ownership of the stream, and the wiping.\<close>

lemma operation_wipes:
  assumes "operation body s = (r, (c', w'))" and "body s = (r0, (c0, w0))" and "ch_shape c0"
  shows "r = r0 \<and> w' = w0 \<and> ch_open c' = ch_open c0
     \<and> (if is_done r then c' = c0 else c' = ch_clear c0 \<and> ch_inv c' \<and> ch_wiped c')"
  using assms ch_clear_wiped [OF assms(3)]
  by (cases r0) (auto simp: operation_def)

lemma clear_line_inv:
  assumes "ch_inv c"
  shows "ch_inv (c\<lparr>ch_line := lb_clear (ch_line c)\<rparr>)"
    and "lb_abs (lb_clear (ch_line c)) = Partial []"
  using assms lines.clear_abs [of "ch_line c"] by (auto simp: ch_inv_def ch_shape_def)

lemma read_line_or_eof_cases:
  assumes inv: "ch_inv c" and ok: "reads_ok w"
  shows "\<exists>r c' w'. read_line_or_eof deadline sens (c, w) = (r, (c', w'))
    \<and> ch_inv c' \<and> ch_open c' = ch_open c \<and> r \<noteq> Abort \<and> (is_done r \<or> ch_wiped c')
    \<and> (\<exists>es es'. w_reads w = es @ es' \<and> w' = (snd (now w))\<lparr>w_reads := es'\<rparr>)
    \<and> (if ch_open c \<and> fst (now w) < deadline
       then (case r of
               Done l \<Rightarrow> l = lb_line (ch_line c') \<and> reads_as [] c w (Done ()) c' w'
             | Fail e \<Rightarrow> reads_as [] c w (Fail e) c' w'
             | Abort \<Rightarrow> False
             | Cancelled \<Rightarrow> reads_as [] c w Cancelled c' w')
       else \<not> is_done r)"
proof -
  let ?c0 = "c\<lparr>ch_line := lb_clear (ch_line c)\<rparr>"
  let ?w0 = "snd (now w)"
  let ?body = "\<lambda>(c, w). let c = c\<lparr>ch_line := lb_clear (ch_line c)\<rparr>; (t, w) = now w in
             if deadline \<le> t then (Fail TTimeout, (c, w)) else receive (c, w)"
  note c0 = clear_line_inv [OF inv]
  have body: "?body (c, w) = (if deadline \<le> fst (now w) then (Fail TTimeout, (?c0, ?w0)) else receive (?c0, ?w0))"
    by (simp add: Let_def case_prod_beta)
  obtain r c1 w1 where op: "operation ?body (c, w) = (r, (c1, w1))"
    by (rule prod_cases3 [of "operation ?body (c, w)"])
  define v where "v = (case r of Done _ \<Rightarrow> Done (lb_line (ch_line c1)) | Fail e \<Rightarrow> Fail e | Abort \<Rightarrow> Abort | Cancelled \<Rightarrow> Cancelled)"
  have rd: "read_line_or_eof deadline sens (c, w) = (v, (c1, w1))"
    unfolding read_line_or_eof_def op v_def by (cases r) simp_all
  show ?thesis
  proof (cases "ch_open c \<and> fst (now w) < deadline")
    case False
    have w0: "\<exists>es es'. w_reads w = es @ es' \<and> ?w0 = ?w0\<lparr>w_reads := es'\<rparr>"
      by (intro exI [of _ "[]"] exI [of _ "w_reads w"]) (simp add: now_def split: list.split)
    define r0 :: "(unit, TransportError) async"
      where "r0 = (if deadline \<le> fst (now w) then Fail TTimeout else Fail TClosed)"
    have b: "?body (c, w) = (r0, (?c0, ?w0))" "\<not> is_done r0" "r0 \<noteq> Abort"
      unfolding body using False by (auto simp: receive_def r0_def)
    note ow = operation_wipes [OF op b(1) ch_inv_shape [OF c0(1)]]
    have "v \<noteq> Abort" "\<not> is_done v" using ow b(2,3) by (auto simp: v_def split: async.splits)
    then show ?thesis unfolding rd using ow b(2) w0 False by auto
  next
    case True
    have "lb_abs (ch_line ?c0) = Partial []" "reads_ok ?w0" using c0(2) ok by (simp_all add: reads_ok_def)
    from receive_loop_spec [OF c0(1) this] obtain r0 c2 w2 where rl: "receive_loop (?c0, ?w0) = (r0, (c2, w2))"
      "reads_as [] ?c0 ?w0 r0 c2 w2" "read_frame ?c0 ?w0 c2 w2" by blast
    have b: "?body (c, w) = (r0, (c2, w2))"
      unfolding body using True rl(1) by (auto simp: receive_def)
    have fr: "ch_shape c2" "ch_open c2 = ch_open c"
      "\<exists>es es'. w_reads w = es @ es' \<and> w2 = ?w0\<lparr>w_reads := es'\<rparr>"
      using rl(3) by (auto simp: read_frame_def)
    have rec: "reads_as [] c w r0 c2 w2"
      using rl(2) by (simp add: reads_as_def buffered_def)
    have nab: "r0 \<noteq> Abort" and inv2: "is_done r0 \<Longrightarrow> ch_inv c2"
      using rec by (auto simp: reads_as_def Let_def split: prod.splits framing.splits read_event.splits if_splits)
    note ow = operation_wipes [OF op b fr(1)]
    have fail: "reads_as [] c w (Fail e) c2 w2 \<Longrightarrow> reads_as [] c w (Fail e) c1 w2"
      "reads_as [] c w Cancelled c2 w2 \<Longrightarrow> reads_as [] c w Cancelled c1 w2" for e
      by (auto simp: reads_as_def Let_def split: prod.splits framing.splits read_event.splits if_splits)
    show ?thesis
      unfolding rd using ow fr nab inv2 rec fail True by (cases r0) (auto simp: v_def)
  qed
qed

text \<open>What a client of the channel needs of a read: the line it takes off the byte stream.\<close>

definition stream :: "Channel \<Rightarrow> world \<Rightarrow> bytes" where
  "stream c w = buffered c @ incoming (w_reads w)"

definition takes_line :: "bytes \<Rightarrow> bytes \<Rightarrow> bytes \<Rightarrow> bool" where
  "takes_line bs l rest \<longleftrightarrow> (\<exists>n. frame_feed [] bs = (n, Complete l) \<and> rest = drop n bs)"

text \<open>A line that is read fits a line buffer.\<close>

lemma takes_line_fits: "takes_line bs raw rest \<Longrightarrow> length raw \<le> MAX_LINE_BYTES"
proof -
  have "frame_feed acc bs = (n, Complete l) \<Longrightarrow> length acc < MAX_LINE_BYTES \<Longrightarrow> length l \<le> MAX_LINE_BYTES" for acc bs n l
  proof (induction acc bs arbitrary: n rule: frame_feed.induct)
    case (2 acc b bs)
    have "Partial acc' = frame_byte acc b \<Longrightarrow> length acc' < MAX_LINE_BYTES" for acc'
      using "2.prems"(2) by (auto simp: frame_byte_def split: if_splits)
    then show ?case
      using 2 by (auto simp: frame_byte_def strip_cr_def split: framing.splits prod.splits if_splits)
  qed simp
  then show "takes_line bs raw rest \<Longrightarrow> length raw \<le> MAX_LINE_BYTES"
    by (auto simp: takes_line_def MAX_LINE_BYTES_def)
qed

lemma read_line_or_eof_spec:
  assumes "ch_inv c" and "reads_ok w"
  shows "\<exists>r c' w'. read_line_or_eof d s (c, w) = (r, (c', w')) \<and> ch_inv c' \<and> ch_open c' = ch_open c
    \<and> reads_ok w' \<and> w_sent w' = w_sent w \<and> w_writes w' = w_writes w \<and> w_instant_max w' = w_instant_max w
    \<and> r \<noteq> Abort \<and> (\<forall>l. r = Done l \<longrightarrow> received_line c' = l \<and> ch_open c)
    \<and> (\<forall>l. r = Done (Some l) \<longrightarrow> takes_line (stream c w) l (stream c' w'))"
proof -
  obtain r c' w' where rd: "read_line_or_eof d s (c, w) = (r, (c', w'))"
    by (rule prod_cases3 [of "read_line_or_eof d s (c, w)"])
  from read_line_or_eof_cases [OF assms, of d s] rd
  have a: "ch_inv c'" "ch_open c' = ch_open c" "r \<noteq> Abort" "is_done r \<Longrightarrow> ch_open c"
    "\<exists>es es'. w_reads w = es @ es' \<and> w' = (snd (now w))\<lparr>w_reads := es'\<rparr>"
    and fin: "\<And>l. r = Done l \<Longrightarrow> l = lb_line (ch_line c') \<and> reads_as [] c w (Done ()) c' w'"
    by (auto split: if_splits)
  have line: "lb_line (ch_line c') = (case lb_abs (ch_line c') of Complete l \<Rightarrow> Some l | _ \<Rightarrow> None)"
    using a(1) by (intro lines.line_abs) (simp add: ch_inv_def ch_shape_def)
  have takes: "takes_line (stream c w) l (stream c' w')" if "r = Done (Some l)" for l
    using fin [OF that] line
    by (auto simp: reads_as_def takes_line_def stream_def Let_def
          split: prod.splits framing.splits read_event.splits if_splits)
  have "reads_ok w'" using a(5) assms(2) by (auto simp: reads_ok_def)
  moreover have "w_sent w' = w_sent w" "w_writes w' = w_writes w" "w_instant_max w' = w_instant_max w"
    using a(5) by auto
  ultimately show ?thesis using rd a(1-4) fin takes by (auto simp: received_line_def)
qed

text \<open>The lines that may be written: clean bytes, an optional CR, and LF, within the wire limit.\<close>

definition sendable :: "bytes \<Rightarrow> bool" where
  "sendable bs \<longleftrightarrow> length bs \<le> MAX_LINE_BYTES
     \<and> (\<exists>body. clean body \<and> (bs = body @ [LF] \<or> bs = body @ [CR, LF]))"

lemma sendable_eq:
  "sendable bs \<longleftrightarrow> length bs \<le> MAX_LINE_BYTES
     \<and> (case strip_suffix [LF] bs of None \<Rightarrow> False
        | Some body \<Rightarrow> clean (case strip_suffix [CR] body of None \<Rightarrow> body | Some b \<Rightarrow> b))"
proof (cases "strip_suffix [LF] bs")
  case None
  then have "bs \<noteq> body @ [LF]" "bs \<noteq> body @ [CR, LF]" for body
    using strip_suffix_Some [of "[LF]" bs] by (metis append.assoc append_Cons append_Nil option.distinct(1))+
  then show ?thesis using None by (auto simp: sendable_def)
next
  case (Some body)
  then have bs: "bs = body @ [LF]" by (simp add: strip_suffix_Some)
  show ?thesis
  proof (cases "strip_suffix [CR] body")
    case None
    have "body \<noteq> x @ [CR]" for x using None strip_suffix_Some [of "[CR]" body x] by simp
    then show ?thesis using Some None bs by (auto simp: sendable_def)
  next
    case (Some b)
    then have "body = b @ [CR]" by (simp add: strip_suffix_Some)
    then show ?thesis
      using \<open>strip_suffix [LF] bs = Some body\<close> Some bs
      by (auto simp: sendable_def forbidden_def)
  qed
qed

text \<open>What is written stays in the scratch buffer only while the write is in progress.\<close>

lemma write_line_cases:
  assumes inv: "ch_inv c"
  shows "\<exists>r c' w'. write_line bs deadline sens (c, w) = (r, (c', w'))
    \<and> ch_inv c' \<and> ch_open c' = ch_open c \<and> r \<noteq> Abort \<and> w_reads w' = w_reads w
    \<and> (\<exists>k \<le> length bs. w_sent w' = w_sent w @ take k bs)
    \<and> (if is_done r then sendable bs \<and> ch_open c \<and> w_sent w' = w_sent w @ bs \<and> c' = c
       else ch_wiped c')
    \<and> (sendable bs \<and> ch_open c \<or> w_sent w' = w_sent w \<and> w_writes w' = w_writes w)"
proof -
  let ?send = "\<lambda>(c, w). let (t, w) = now w in
           if deadline \<le> t then (Fail TTimeout, (c, w))
           else if \<not> ch_open c then (Fail TClosed, (c, w))
           else case copy_at (ch_write c) 0 bs of
             None \<Rightarrow> (Abort, (c, w))
           | Some scratch \<Rightarrow>
               let c = c\<lparr>ch_write := scratch\<rparr>; wire = take (length bs) scratch; (e, w) = next_write w in
               (case e of
                  Flushed \<Rightarrow> (Done (), (c\<lparr>ch_write := zeroize scratch\<rparr>, deliver_bytes wire w))
                | WriteError n err \<Rightarrow> (Fail (TIo err), (c, deliver_bytes (take n wire) w))
                | WriteElapsed n \<Rightarrow> (Fail TTimeout, (c, deliver_bytes (take n wire) w))
                | WriteDropped n \<Rightarrow> (Cancelled, (c, deliver_bytes (take n wire) w)))"
  have wl: "write_line bs deadline sens (c, w) =
      (if length bs > MAX_LINE_BYTES then (Fail (TProtocol LineTooLong), (ch_clear c, w))
       else if \<not> sendable bs then (Fail (TProtocol InvalidLine), (ch_clear c, w))
       else operation ?send (c, w))"
    by (simp add: write_line_def operation_def sendable_eq clean_def Let_def split: option.split)
  note cl = ch_clear_wiped [OF ch_inv_shape [OF inv]]
  show ?thesis
  proof (cases "length bs \<le> MAX_LINE_BYTES \<and> sendable bs \<and> fst (now w) < deadline \<and> ch_open c")
    case False
    then have "\<exists>e w'. write_line bs deadline sens (c, w) = (Fail e, (ch_clear c, w'))
        \<and> w_sent w' = w_sent w \<and> w_reads w' = w_reads w \<and> w_writes w' = w_writes w"
      unfolding wl by (auto simp: operation_def case_prod_beta)
    then obtain e w' where a: "write_line bs deadline sens (c, w) = (Fail e, (ch_clear c, w'))"
      "w_sent w' = w_sent w" "w_reads w' = w_reads w" "w_writes w' = w_writes w" by blast
    have "\<exists>k \<le> length bs. w_sent w' = w_sent w @ take k bs" using a(2) by (intro exI [of _ 0]) simp
    then show ?thesis using a cl by auto
  next
    case True
    let ?scratch = "bs @ drop (length bs) (ch_write c)"
    have len: "length bs \<le> length (ch_write c)" and wp: "zeroize ?scratch = ch_write c"
      using True inv wiped_eq_replicate [of "ch_write c"]
      by (auto simp: ch_inv_def ch_shape_def zeroize_def)
    have cp: "copy_at (ch_write c) 0 bs = Some ?scratch" using len by (simp add: copy_at_def)
    obtain e w1 where nw: "next_write (snd (now w)) = (e, w1)" by force
    have keep: "w_sent w1 = w_sent w" "w_reads w1 = w_reads w"
      using nw by (auto simp: next_write_def split: list.splits)
    have sc: "ch_shape (c\<lparr>ch_write := ?scratch\<rparr>)" using inv len by (auto simp: ch_inv_def ch_shape_def)
    note cs = ch_clear_wiped [OF sc]
    have part: "\<exists>k \<le> length bs. take n bs = take k bs" for n
      by (rule exI [of _ "min n (length bs)"]) (simp add: min_def)
    have full: "\<exists>k \<le> length bs. bs = take k bs" by (rule exI [of _ "length bs"]) simp
    have eq: "write_line bs deadline sens (c, w) =
        (case e of
           Flushed \<Rightarrow> (Done (), (c, deliver_bytes bs w1))
         | WriteError n err \<Rightarrow> (Fail (TIo err), (ch_clear (c\<lparr>ch_write := ?scratch\<rparr>), deliver_bytes (take n bs) w1))
         | WriteElapsed n \<Rightarrow> (Fail TTimeout, (ch_clear (c\<lparr>ch_write := ?scratch\<rparr>), deliver_bytes (take n bs) w1))
         | WriteDropped n \<Rightarrow> (Cancelled, (ch_clear (c\<lparr>ch_write := ?scratch\<rparr>), deliver_bytes (take n bs) w1)))"
      using True cp nw wp unfolding wl
      by (cases e) (auto simp: operation_def case_prod_beta Let_def)
    show ?thesis
      unfolding eq using True inv cs keep part full
      by (cases e) (auto simp: deliver_bytes_def)
  qed
qed

section \<open>What a session may rely on\<close>

text \<open>
  The contract of a line channel for the client and the server session: what a successful
  or failed operation leaves, and that nothing is sent but whole valid lines, or a prefix
  of one line by the operation that fails.
\<close>

locale line_channel =
  fixes inv :: "'c \<Rightarrow> bool"
    and is_open :: "'c \<Rightarrow> bool"
    and clean_of :: "'c \<Rightarrow> bool"
    and get :: "nat \<Rightarrow> Sensitivity \<Rightarrow> ('c \<times> world, bytes option, TransportError) io"
    and put :: "bytes \<Rightarrow> nat \<Rightarrow> Sensitivity \<Rightarrow> ('c \<times> world, unit, TransportError) io"
    and close :: "'c \<Rightarrow> 'c"
  assumes read_law: "inv c \<Longrightarrow> reads_ok w \<Longrightarrow> get d s (c, w) = (x, (c', w')) \<Longrightarrow>
      inv c' \<and> is_open c' = is_open c \<and> reads_ok w' \<and> w_sent w' = w_sent w \<and> x \<noteq> Abort
      \<and> (is_done x \<or> clean_of c') \<and> (is_open c \<or> \<not> is_done x)"
    and write_law: "inv c \<Longrightarrow> reads_ok w \<Longrightarrow> put bs d s (c, w) = (r, (c', w')) \<Longrightarrow>
      inv c' \<and> is_open c' = is_open c \<and> reads_ok w' \<and> r \<noteq> Abort
      \<and> (if is_done r then sendable bs \<and> is_open c \<and> w_sent w' = w_sent w @ bs
         else clean_of c' \<and> (\<exists>k \<le> length bs. w_sent w' = w_sent w @ take k bs)
            \<and> (is_open c \<or> w_sent w' = w_sent w))"
    and close_law: "inv c \<Longrightarrow> inv (close c) \<and> \<not> is_open (close c) \<and> clean_of (close c)"
begin

text \<open>Writing a list of lines, one after the other, until one fails.\<close>

fun write_all :: "bytes list \<Rightarrow> nat \<Rightarrow> Sensitivity \<Rightarrow> ('c \<times> world, unit, TransportError) io" where
  "write_all [] d s st = (Done (), st)"
| "write_all (l # ls) d s st =
     (case put l d s st of
        (Done _, st') \<Rightarrow> write_all ls d s st'
      | (Fail e, st') \<Rightarrow> (Fail e, st')
      | (Abort, st') \<Rightarrow> (Abort, st')
      | (Cancelled, st') \<Rightarrow> (Cancelled, st'))"

lemma write_all_spec:
  "inv c \<Longrightarrow> reads_ok w \<Longrightarrow> write_all ls d s (c, w) = (r, (c', w')) \<Longrightarrow>
   inv c' \<and> is_open c' = is_open c \<and> reads_ok w' \<and> r \<noteq> Abort
   \<and> (if is_done r then list_all sendable ls \<and> w_sent w' = w_sent w @ concat ls
      else \<exists>k. w_sent w' = w_sent w @ take k (concat ls))"
proof (induction ls arbitrary: c w)
  case (Cons l ls)
  obtain r1 c1 w1 where wr: "put l d s (c, w) = (r1, (c1, w1))"
    by (rule prod_cases3 [of "put l d s (c, w)"])
  note law = write_law [OF Cons.prems(1,2) wr]
  show ?case
  proof (cases "is_done r1")
    case True
    then have rest: "write_all ls d s (c1, w1) = (r, (c', w'))"
      using Cons.prems(3) wr by (cases r1) auto
    have one: "inv c1" "reads_ok w1" "w_sent w1 = w_sent w @ l" "sendable l" "is_open c1 = is_open c"
      using law True by auto
    note IH = Cons.IH [OF one(1,2) rest]
    show ?thesis
    proof (cases "is_done r")
      case False
      then obtain k where "w_sent w' = w_sent w1 @ take k (concat ls)" using IH by auto
      then have "\<exists>k. w_sent w' = w_sent w @ take k (concat (l # ls))"
        using one(3) by (intro exI [of _ "length l + k"]) simp
      then show ?thesis using False IH one(5) by simp
    qed (use IH one in auto)
  next
    case False
    then have "r = r1" "c' = c1" "w' = w1" using Cons.prems(3) wr by (cases r1; auto)+
    moreover have "\<exists>k. w_sent w1 = w_sent w @ take k (concat (l # ls))"
    proof -
      obtain k where "k \<le> length l" "w_sent w1 = w_sent w @ take k l" using law False by auto
      then show ?thesis by (intro exI [of _ k]) simp
    qed
    ultimately show ?thesis using law False by auto
  qed
qed auto

text \<open>A closed channel sends nothing, whatever is asked of it.\<close>

lemma closed_silent:
  "inv c \<Longrightarrow> reads_ok w \<Longrightarrow> put bs d s (close c, w) = (r, (c', w')) \<Longrightarrow> w_sent w' = w_sent w \<and> \<not> is_done r"
  using close_law [of c] write_law [of "close c" w bs d s r c' w'] by (auto split: if_splits)

end

lemma reads_ok_suffix: "reads_ok w \<Longrightarrow> w_reads w = es @ w_reads w' \<Longrightarrow> reads_ok w'"
  by (simp add: reads_ok_def)

interpretation channel: line_channel ch_inv ch_open ch_wiped read_line_or_eof write_line ch_close
proof (unfold_locales, goal_cases)
  case (1 c w d s r c' w')
  from read_line_or_eof_cases [OF 1(1,2), of d s] 1(3) show ?case
    using reads_ok_suffix [OF 1(2), of _ w'] by (fastforce split: if_splits async.splits)
next
  case (2 c w bs d s r c' w')
  from write_line_cases [OF 2(1), of bs d s w] 2(3) show ?case
    using reads_ok_suffix [OF 2(2), of "[]" w'] by (auto split: if_splits)
next
  case (3 c)
  then show ?case using ch_close_inv [OF ch_inv_shape] by blast
qed

section \<open>Fail-stop sessions\<close>

text \<open>The stream is left alone; only the clock may have been read.\<close>

definition quiet :: "world \<Rightarrow> world \<Rightarrow> bool" where
  "quiet w w' \<longleftrightarrow> w_reads w' = w_reads w \<and> w_writes w' = w_writes w \<and> w_sent w' = w_sent w"

lemma quiet_refl [simp]: "quiet w w"
  by (simp add: quiet_def)

lemma quiet_trans: "quiet w w1 \<Longrightarrow> quiet w1 w2 \<Longrightarrow> quiet w w2"
  by (simp add: quiet_def)

lemma quiet_now: "now w = (t, w') \<Longrightarrow> quiet w w'"
  using now_keeps [of w] by (simp add: quiet_def)

lemma edit_line_inv:
  assumes "ch_inv c" and "received_line c = Some line" and "length line' = length line"
  shows "ch_inv (edit_line (\<lambda>_. line') c)" and "received_line (edit_line (\<lambda>_. line') c) = Some line'"
    and "ch_pending (edit_line (\<lambda>_. line') c) = ch_pending c"
    and "ch_open (edit_line (\<lambda>_. line') c) = ch_open c"
    and "buffered (edit_line (\<lambda>_. line') c) = buffered c"
  using assms
  by (auto simp: edit_line_def ch_inv_def ch_shape_def lb_inv_def received_line_def lb_line_mut_def
        lb_line_def buffered_def split: if_splits)

lemma read_line_spec:
  assumes "ch_inv c" and "reads_ok w"
  shows "\<exists>r c' w'. read_line d s (c, w) = (r, (c', w')) \<and> ch_inv c' \<and> reads_ok w' \<and> w_sent w' = w_sent w
    \<and> r \<noteq> Abort \<and> (\<forall>l. r = Done l \<longrightarrow> received_line c' = Some l \<and> takes_line (stream c w) l (stream c' w'))
    \<and> (\<not> ch_open c \<longrightarrow> \<not> is_done r \<and> quiet w w')"
proof -
  obtain r c' w' where rd: "read_line_or_eof d s (c, w) = (r, (c', w'))" by (metis prod_cases3)
  have a: "ch_inv c'" "reads_ok w'" "w_sent w' = w_sent w" "r \<noteq> Abort" "\<forall>l. r = Done l \<longrightarrow> received_line c' = l \<and> ch_open c"
    "\<forall>l. r = Done (Some l) \<longrightarrow> takes_line (stream c w) l (stream c' w')"
    using read_line_or_eof_spec [OF assms, of d s] rd by auto
  have q: "\<not> ch_open c \<Longrightarrow> quiet w w'"
    using rd quiet_now [of w "fst (now w)" "snd (now w)"]
    by (auto simp: read_line_or_eof_def operation_def receive_def Let_def split: prod.splits async.splits if_splits)
  show ?thesis
    using rd a q by (cases r) (auto simp: read_line_def bindM_def failM_def returnM_def split: option.splits)
qed

text \<open>
  What both sessions build on the channel: an operation that does not complete poisons the
  session, and a poisoned session refuses everything without touching the stream. Inside
  the locale this becomes a statement about whole programs: after the first failure
  nothing is read, nothing is sent and nothing succeeds.
\<close>

locale fail_stop =
  fixes inv :: "'s \<times> world \<Rightarrow> bool"
    and poisoned :: "'s \<Rightarrow> bool"
    and step :: "'op \<Rightarrow> 's \<times> world \<Rightarrow> bool \<times> 's \<times> world"
  assumes step_inv: "inv st \<Longrightarrow> inv (snd (step a st))"
    and poisoned_step: "inv (k, w) \<Longrightarrow> poisoned k \<Longrightarrow> step a (k, w) = (ok, (k', w')) \<Longrightarrow> \<not> ok \<and> poisoned k' \<and> quiet w w'"
    and failed_step: "inv (k, w) \<Longrightarrow> step a (k, w) = (ok, (k', w')) \<Longrightarrow> \<not> ok \<Longrightarrow> poisoned k'"
begin

fun run :: "'op list \<Rightarrow> 's \<times> world \<Rightarrow> bool list \<times> 's \<times> world" where
  "run [] st = ([], st)"
| "run (a # ops) st = (case step a st of (ok, st') \<Rightarrow> (case run ops st' of (oks, st'') \<Rightarrow> (ok # oks, st'')))"

lemma run_length: "run ops st = (oks, st') \<Longrightarrow> length oks = length ops"
  by (induction ops arbitrary: st oks) (auto split: prod.splits)

lemma run_inv: "inv st \<Longrightarrow> inv (snd (run ops st))"
proof (induction ops arbitrary: st)
  case (Cons a ops)
  then have "inv (snd (run ops (snd (step a st))))" by (simp add: step_inv)
  then show ?case by (auto split: prod.splits)
qed simp

lemma run_poisoned:
  "inv (k, w) \<Longrightarrow> poisoned k \<Longrightarrow> run ops (k, w) = (oks, (k', w')) \<Longrightarrow> poisoned k' \<and> quiet w w' \<and> True \<notin> set oks"
proof (induction ops arbitrary: k w oks)
  case (Cons a ops)
  obtain ok k1 w1 where st: "step a (k, w) = (ok, (k1, w1))" by (rule prod_cases3 [of "step a (k, w)"])
  obtain oks1 where rest: "run ops (k1, w1) = (oks1, (k', w'))" and oks: "oks = ok # oks1"
    using Cons.prems(3) st by (auto split: prod.splits)
  have "\<not> ok" "poisoned k1" "quiet w w1" using poisoned_step [OF Cons.prems(1,2) st] by auto
  moreover have "inv (k1, w1)" using step_inv [OF Cons.prems(1), of a] st by simp
  ultimately show ?case using Cons.IH [of k1 w1 oks1] rest oks by (auto intro: quiet_trans)
qed simp

text \<open>The successes of a program come first: after the first failure there are none.\<close>

lemma run_successes_first:
  "inv (k, w) \<Longrightarrow> run ops (k, w) = (oks, (k', w')) \<Longrightarrow>
   (\<exists>n. oks = replicate n True @ replicate (length ops - n) False \<and> n \<le> length ops)
   \<and> (False \<in> set oks \<longrightarrow> poisoned k')"
proof (induction ops arbitrary: k w oks)
  case (Cons a ops)
  obtain ok k1 w1 where st: "step a (k, w) = (ok, (k1, w1))" by (rule prod_cases3 [of "step a (k, w)"])
  obtain oks1 where rest: "run ops (k1, w1) = (oks1, (k', w'))" and oks: "oks = ok # oks1"
    using Cons.prems(2) st by (auto split: prod.splits)
  have inv1: "inv (k1, w1)" using step_inv [OF Cons.prems(1), of a] st by simp
  show ?case
  proof (cases ok)
    case True
    from Cons.IH [OF inv1 rest] obtain n where n:
      "oks1 = replicate n True @ replicate (length ops - n) False" "n \<le> length ops" "False \<in> set oks1 \<longrightarrow> poisoned k'"
      by blast
    have "oks = replicate (Suc n) True @ replicate (length (a # ops) - Suc n) False"
      using n(1) oks True by simp
    moreover have "Suc n \<le> length (a # ops)" using n(2) by simp
    moreover have "False \<in> set oks \<longrightarrow> poisoned k'" using n(3) oks True by simp
    ultimately show ?thesis by blast
  next
    case False
    have pk: "poisoned k1" using failed_step [OF Cons.prems(1) st] False by simp
    from run_poisoned [OF inv1 pk rest] have no: "poisoned k'" "True \<notin> set oks1" by auto
    have "length oks1 = length ops" by (rule run_length [OF rest])
    then have "oks1 = replicate (length ops) False" using no(2) by (metis (full_types) replicate_eqI)
    then have "oks = replicate 0 True @ replicate (length (a # ops) - 0) False" using oks False by simp
    then show ?thesis using no(1) by blast
  qed
qed auto

text \<open>From a failure on, the stream is left alone.\<close>

lemma run_after_failure:
  "inv (k, w) \<Longrightarrow> run ops (k, w) = (oks, (k', w')) \<Longrightarrow> n < length ops \<Longrightarrow> \<not> oks ! n \<Longrightarrow>
   poisoned k' \<and> quiet (snd (snd (run (take (Suc n) ops) (k, w)))) w'"
proof (induction ops arbitrary: k w oks n)
  case (Cons a ops)
  obtain ok k1 w1 where st: "step a (k, w) = (ok, (k1, w1))" by (rule prod_cases3 [of "step a (k, w)"])
  obtain oks1 where rest: "run ops (k1, w1) = (oks1, (k', w'))" and oks: "oks = ok # oks1"
    using Cons.prems(2) st by (auto split: prod.splits)
  have inv1: "inv (k1, w1)" using step_inv [OF Cons.prems(1), of a] st by simp
  show ?case
  proof (cases n)
    case 0
    then have "poisoned k1" using failed_step [OF Cons.prems(1) st] Cons.prems(4) oks by simp
    from run_poisoned [OF inv1 this rest] show ?thesis using 0 st by simp
  next
    case (Suc m)
    then have "poisoned k' \<and> quiet (snd (snd (run (take (Suc m) ops) (k1, w1)))) w'"
      using Cons.IH [OF inv1 rest, of m] Cons.prems(3,4) oks by simp
    then show ?thesis using Suc st by (auto split: prod.splits)
  qed
qed simp

lemma run_fail_stop:
  assumes "inv (k, w)"
  shows "case run ops (k, w) of (oks, (k', w')) \<Rightarrow>
     \<exists>n \<le> length ops. oks = replicate n True @ replicate (length ops - n) False
       \<and> (if n = length ops then inv (k', w')
          else poisoned k' \<and> quiet (snd (snd (run (take (Suc n) ops) (k, w)))) w')"
proof -
  obtain oks k' w' where run: "run ops (k, w) = (oks, (k', w'))" by (metis prod_cases3)
  obtain n where n: "oks = replicate n True @ replicate (length ops - n) False" "n \<le> length ops"
    using run_successes_first [OF assms run] by blast
  have "n \<noteq> length ops \<Longrightarrow> \<not> oks ! n" using n by (simp add: nth_append)
  then have "n \<noteq> length ops \<Longrightarrow> poisoned k' \<and> quiet (snd (snd (run (take (Suc n) ops) (k, w)))) w'"
    using run_after_failure [OF assms run, of n] n(2) by simp
  moreover have "inv (k', w')" using run_inv [OF assms, of ops] run by simp
  ultimately have "if n = length ops then inv (k', w')
      else poisoned k' \<and> quiet (snd (snd (run (take (Suc n) ops) (k, w)))) w'" by simp
  then show ?thesis unfolding run using n by (simp only: prod.case) blast
qed

end

text \<open>
  C12: Reading refines framing. On an open channel before its deadline, a read returns the
  next line of the bytes that are buffered and still to come, leaves exactly the bytes
  behind it for the next read (nothing lost, repeated or reordered, however the stream is
  cut), reports a line over the limit, and otherwise reports what stopped the stream; the
  end of the stream is clean only at a line boundary.
\<close>

theorem channel_reads_next_line:
  assumes "ch_inv c" and "reads_ok w" and "ch_open c" and "fst (now w) < deadline"
  shows "case read_line_or_eof deadline sens (c, w) of (r, (c', w')) \<Rightarrow>
     (case frame_feed [] (buffered c @ incoming (w_reads w)) of
        (n, Complete l) \<Rightarrow>
          r = Done (Some l) \<and> stops (w_reads w') = stops (w_reads w)
          \<and> buffered c' @ incoming (w_reads w') = drop n (buffered c @ incoming (w_reads w))
      | (_, Overflow) \<Rightarrow> r = Fail (TProtocol LineTooLong)
      | (_, Partial acc) \<Rightarrow>
          (case stops (w_reads w) of
             Chunk _ \<Rightarrow> r = (if acc = [] then Done None else Fail (TProtocol UnexpectedEof))
           | ReadError e \<Rightarrow> r = Fail (TIo e)
           | ReadElapsed \<Rightarrow> r = Fail TTimeout
           | ReadDropped \<Rightarrow> r = Cancelled))"
proof -
  obtain r c' w' where a: "read_line_or_eof deadline sens (c, w) = (r, (c', w'))" "ch_inv c'"
    "case r of Done l \<Rightarrow> l = lb_line (ch_line c') \<and> reads_as [] c w (Done ()) c' w'
       | Fail e \<Rightarrow> reads_as [] c w (Fail e) c' w' | Abort \<Rightarrow> False | Cancelled \<Rightarrow> reads_as [] c w Cancelled c' w'"
    using read_line_or_eof_cases [OF assms(1,2), of deadline sens] assms(3,4) by auto
  have line: "lb_line (ch_line c') = (case lb_abs (ch_line c') of Complete l \<Rightarrow> Some l | _ \<Rightarrow> None)"
    using a(2) by (intro lines.line_abs) (simp add: ch_inv_def ch_shape_def)
  show ?thesis
    unfolding a(1) using a(3) line
    by (cases r)
       (auto simp: reads_as_def Let_def split: prod.splits framing.splits read_event.splits if_splits)
qed

definition sample_world :: world where
  "sample_world = \<lparr>w_reads = [Chunk (lit ''OK''), Chunk [CR, LF, 0x44]], w_writes = [Flushed], w_clock = [], w_sent = [], w_instant_max = 1000\<rparr>"

lemma sample_ok: "reads_ok sample_world" "fst (now sample_world) < 5"
  by (simp_all add: reads_ok_def sample_world_def MAX_LINE_BYTES_def now_def)

theorem channel_reads_next_line_witness:
  "fst (read_line_or_eof 5 Public (ch_new, sample_world)) = Done (Some (lit ''OK''))"
proof -
  have op: "ch_open ch_new" by (simp add: ch_new_def)
  have "frame_feed [] (buffered ch_new @ incoming (w_reads sample_world)) = (4, Complete (lit ''OK''))"
    by (simp add: sample_world_def buffered_def ch_new_def frame_byte_def MAX_LINE_BYTES_def lit_def strip_cr_def)
  then show ?thesis
    using channel_reads_next_line [OF ch_new_inv sample_ok(1) op sample_ok(2), of Public]
    by (auto split: prod.splits)
qed

text \<open>
  C13: Nothing that passed through a channel outlives a failure. Whatever the environment does
  (an error, a timeout, a caller that drops the future), an operation that does not complete
  leaves every buffer of the channel wiped and no line readable; a completed one leaves no
  byte behind the read-ahead and nothing in the write buffer; closing wipes everything and
  nothing is ever sent afterwards.
\<close>

theorem channel_wipes:
  assumes "ch_inv c" and "reads_ok w"
  shows "(case read_line_or_eof deadline sens (c, w) of (r, (c', w')) \<Rightarrow>
            r \<noteq> Abort \<and> (is_done r \<or> ch_wiped c')
            \<and> wiped (ch_write c') \<and> wiped (drop (ch_pending c') (ch_ahead c')))
       \<and> (case write_line bs deadline sens (c, w) of (r, (c', w')) \<Rightarrow>
            r \<noteq> Abort \<and> (is_done r \<or> ch_wiped c')
            \<and> wiped (ch_write c') \<and> wiped (drop (ch_pending c') (ch_ahead c')))
       \<and> ch_wiped (ch_close c)
       \<and> w_sent (snd (snd (write_line bs deadline sens (ch_close c, w)))) = w_sent w"
proof -
  obtain r c' w' where rd: "read_line_or_eof deadline sens (c, w) = (r, (c', w'))"
    by (rule prod_cases3 [of "read_line_or_eof deadline sens (c, w)"])
  obtain q d v where wr: "write_line bs deadline sens (c, w) = (q, (d, v))"
    by (rule prod_cases3 [of "write_line bs deadline sens (c, w)"])
  obtain q' d' v' where cl: "write_line bs deadline sens (ch_close c, w) = (q', (d', v'))"
    by (rule prod_cases3 [of "write_line bs deadline sens (ch_close c, w)"])
  show ?thesis
    using channel.read_law [OF assms rd] channel.write_law [OF assms wr] channel.close_law [OF assms(1)]
      channel.closed_silent [OF assms cl] rd wr cl
    by (auto simp: ch_inv_def split: if_splits)
qed

theorem channel_wipes_witness:
  "ch_wiped (ch_close ch_new)
   \<and> w_sent (snd (snd (write_line (lit ''OK'' @ [LF]) 5 Secret (ch_close ch_new, sample_world)))) = []"
  using channel_wipes [OF ch_new_inv sample_ok(1), of 5 Secret "lit ''OK'' @ [LF]"]
  by (simp add: sample_world_def)

text \<open>
  What a write sends. A completed write has sent exactly the given bytes, and they are one
  line: bytes other than NUL, CR and LF, an optional CR, LF, at most the wire limit. A line
  that is not of this form, or a closed channel, is refused before the stream is touched.
  A failed write may have sent a prefix, never anything else.
\<close>

theorem channel_writes_lines:
  assumes "ch_inv c"
  shows "case write_line bs deadline sens (c, w) of (r, (c', w')) \<Rightarrow>
     (if is_done r then sendable bs \<and> w_sent w' = w_sent w @ bs \<and> c' = c
      else (\<exists>k \<le> length bs. w_sent w' = w_sent w @ take k bs))
     \<and> (sendable bs \<and> ch_open c \<or> w_sent w' = w_sent w \<and> w_writes w' = w_writes w)"
  using write_line_cases [OF assms, of bs deadline sens w] by (auto split: if_splits)

theorem channel_writes_lines_witness:
  "w_sent (snd (snd (write_line (lit ''a'' @ [CR, LF, LF]) 5 Public (ch_new, sample_world)))) = []"
proof -
  have "\<not> sendable (lit ''a'' @ [CR, LF, LF])"
    by (simp add: sendable_eq strip_suffix_def lit_def forbidden_def)
  then show ?thesis
    using channel_writes_lines [OF ch_new_inv, where bs = "lit ''a'' @ [CR, LF, LF]" and deadline = 5 and sens = Public
        and w = sample_world]
    by (auto simp: sample_world_def split: prod.splits)
qed

end
