(* ===== verification/Channel_Left.thy ===== *)
theory Channel_Left
  imports Channel
begin

text \<open>
  A measure for the loops that read from a channel: the bytes it can still deliver. Every
  line that is read uses some of them up and no operation gives any back, which is why the
  reading loops of clients and servers end on every finite script.
\<close>

section \<open>Every line read uses up input\<close>

text \<open>
  The bytes a session can still read. A completed read takes at least the line's terminator
  from them, whatever the state of the buffers, which is why the reading loops of the
  client end on every finite script.
\<close>

definition chunk_bytes :: "read_event \<Rightarrow> nat" where
  "chunk_bytes e = (case e of Chunk bs \<Rightarrow> length bs | _ \<Rightarrow> 0)"

definition left :: "Channel \<Rightarrow> world \<Rightarrow> nat" where
  "left c w = ch_pending c + sum_list (map chunk_bytes (w_reads w))"

lemma feed_loop_uses:
  "feed_loop lb index input = (Ok n, lb') \<Longrightarrow> \<not> lb_ready lb \<Longrightarrow> lb_ready lb' \<Longrightarrow> index < n"
proof (induction lb index input rule: feed_loop.induct)
  case (2 lb index b input)
  show ?case
  proof (cases "set_at (lb_storage lb) (lb_len lb) b")
    case None
    then show ?thesis using 2 by simp
  next
    case (Some storage)
    let ?lb = "lb\<lparr>lb_storage := storage, lb_len := lb_len lb + 1\<rparr>"
    have IH: "b \<noteq> LF \<Longrightarrow> lb_len ?lb \<noteq> MAX_LINE_BYTES \<Longrightarrow> feed_loop ?lb (index + 1) input = (Ok n, lb')
        \<Longrightarrow> index + 1 < n"
      using "2.IH" [OF Some refl] "2.prems" by simp
    then show ?thesis using "2.prems" Some by (auto simp: Let_def split: if_splits)
  qed
qed simp

lemma lb_line_ready: "lb_line lb \<noteq> None \<longleftrightarrow> lb_ready lb"
  by (simp add: lb_line_def)

lemma feed_ahead_uses:
  assumes "feed_ahead c = (Done b, c')" and "\<not> lb_ready (ch_line c)"
  shows "ch_pending c' + (if b then 1 else 0) \<le> ch_pending c \<and> lb_ready (ch_line c') = b"
proof -
  obtain piece used lb where f: "lb_feed (ch_line c) piece = (Ok used, lb)"
    "get_range (ch_ahead c) used (ch_pending c) \<noteq> None"
    "b = (lb_line lb \<noteq> None)" "ch_pending c' = ch_pending c - used" "ch_line c' = lb"
    using assms(1)
    by (auto simp: feed_ahead_def Let_def split: option.splits prod.splits result.splits)
  have "lb_ready lb \<Longrightarrow> 0 < used"
    using f(1) assms(2) feed_loop_uses [of "ch_line c" 0 piece used lb]
    by (auto simp: lb_feed_def split: if_splits)
  moreover have "used \<le> ch_pending c" using f(2) by (auto simp: get_range_def split: if_splits)
  moreover have "b = lb_ready lb" using f(3) lb_line_ready [of lb] by simp
  ultimately show ?thesis using f(4,5) by auto
qed

lemma receive_loop_uses:
  "receive_loop (c, w) = (Done (), (c', w')) \<Longrightarrow> \<not> lb_ready (ch_line c) \<Longrightarrow>
   left c' w' + (if lb_ready (ch_line c') then 1 else 0) \<le> left c w"
proof (induction "length (w_reads w)" arbitrary: c w rule: less_induct)
  case less
  let ?first = "if ch_pending c \<noteq> 0 then feed_ahead c else (Done False, c)"
  obtain r d where first: "?first = (r, d)" by force
  show ?case
  proof (cases "r = Done False")
    case False
    then have "r = Done True" "c' = d" "w' = w"
      using less.prems(1) first by (subst (asm) receive_loop.simps, cases r; force)+
    then show ?thesis
      using feed_ahead_uses [of c True d] first less.prems(2)
      by (auto simp: left_def split: if_splits)
  next
    case True
    have d: "ch_pending d \<le> ch_pending c" "\<not> lb_ready (ch_line d)"
      using feed_ahead_uses [of c False d] first less.prems(2) True by (auto split: if_splits)
    obtain e es where reads: "w_reads w = e # es"
      using less.prems(1) first True by (subst (asm) receive_loop.simps) (auto split: list.splits)
    let ?w = "w\<lparr>w_reads := es\<rparr>"
    obtain bs ahead where e: "e = Chunk bs" "copy_at (ch_ahead d) 0 bs = Some ahead"
      using less.prems(1) first True reads
      by (subst (asm) receive_loop.simps) (auto simp: Let_def split: read_event.splits option.splits)
    let ?d = "d\<lparr>ch_ahead := ahead, ch_pending := length bs\<rparr>"
    show ?thesis
    proof (cases "bs = []")
      case True
      then have "c' = ?d" "w' = ?w"
        using less.prems(1) first \<open>r = Done False\<close> reads e
        by (subst (asm) receive_loop.simps, simp add: lift_result_def split: result.splits)+
      then show ?thesis using d reads e True by (simp add: left_def chunk_bytes_def)
    next
      case False
      then have rec: "receive_loop (?d, ?w) = (Done (), (c', w'))"
        using less.prems(1) first \<open>r = Done False\<close> reads e
        by (subst (asm) receive_loop.simps) simp
      have "left c' w' + (if lb_ready (ch_line c') then 1 else 0) \<le> left ?d ?w"
        by (rule less.hyps [OF _ rec]) (use reads d in simp_all)
      then show ?thesis using reads e by (simp add: left_def chunk_bytes_def)
    qed
  qed
qed

lemma read_line_or_eof_uses:
  assumes "read_line_or_eof d s (c, w) = (Done (Some line), (c', w'))"
  shows "left c' w' < left c w"
proof -
  from assms have r: "receive_loop (c\<lparr>ch_line := lb_clear (ch_line c)\<rparr>, snd (now w)) = (Done (), (c', w'))"
    and l: "lb_line (ch_line c') = Some line"
    by (auto simp: read_line_or_eof_def operation_def receive_def Let_def split: prod.splits async.splits if_splits)
  have "\<not> lb_ready (ch_line (c\<lparr>ch_line := lb_clear (ch_line c)\<rparr>))" by (simp add: lb_clear_def)
  from receive_loop_uses [OF r this] l lb_line_ready [of "ch_line c'"] show ?thesis
    by (auto simp: left_def)
qed

lemma read_line_uses:
  assumes "read_line d s (c, w) = (Done line, (c', w'))"
  shows "left c' w' < left c w"
proof -
  have "read_line_or_eof d s (c, w) = (Done (Some line), (c', w'))"
    using assms by (auto simp: read_line_def bindM_Done failM_def returnM_def split: option.splits)
  then show ?thesis by (rule read_line_or_eof_uses)
qed

lemma now_reads: "now w = (t, w') \<Longrightarrow> w_reads w' = w_reads w"
  by (auto simp: now_def split: list.splits)

lemma write_line_left:
  "write_line bs d s (c, w) = (r, (c', w')) \<Longrightarrow> ch_pending c' \<le> ch_pending c \<and> w_reads w' = w_reads w"
  by (auto simp: write_line_def operation_def next_write_def deliver_bytes_def Let_def ch_clear_def
        split: option.splits if_splits prod.splits write_event.splits list.splits async.splits dest!: now_reads)

end
