(* ===== verification/Client_Session.thy ===== *)
theory Client_Session
  imports Channel_Left Machines
begin

text \<open>
  The core of a client session (\<open>assuan-client/src/error.rs\<close>, \<open>options.rs\<close>, \<open>session.rs\<close>):
  errors, options and deadlines, \<open>SessionCore\<close> with its uncertainty marker, the
  classification of a received line with its in-place decoding, and the guarded read and
  write. Durations and instants are natural numbers of nanoseconds.
\<close>

section \<open>Errors\<close>

datatype ClientError =
    CeTransport TransportError
  | CeProtocol ProtocolError
  | CeState StateError
  | CeRemote u32
  | CeGreetingRejected u32
  | CeInvalidOptions
  | CeIncomplete
  | CeLimit LimitError

definition client_error_display :: "ClientError \<Rightarrow> bytes" where
  "client_error_display e =
     (case e of
        CeTransport _ \<Rightarrow> lit ''client transport failed''
      | CeProtocol _ \<Rightarrow> lit ''invalid client protocol data''
      | CeState _ \<Rightarrow> lit ''invalid client session state''
      | CeRemote code \<Rightarrow> lit ''remote command failed with code '' @ dec (unat code)
      | CeGreetingRejected code \<Rightarrow> lit ''server rejected greeting with code '' @ dec (unat code)
      | CeInvalidOptions \<Rightarrow> lit ''invalid client options''
      | CeIncomplete \<Rightarrow> lit ''transaction is incomplete''
      | CeLimit _ \<Rightarrow> lit ''client resource limit exceeded'')"

section \<open>Options\<close>

record ClientOptions =
  co_inquiry_timeout :: nat
  co_max_inquiry_bytes :: nat
  co_connect_timeout :: nat
  co_greeting_timeout :: nat
  co_command_timeout :: nat

definition from_secs :: "nat \<Rightarrow> nat" where
  "from_secs n = n * 10 ^ 9"

definition ClientOptions_default :: ClientOptions where
  "ClientOptions_default =
     \<lparr>co_inquiry_timeout = from_secs 120, co_max_inquiry_bytes = 1024 * 1024,
      co_connect_timeout = from_secs 10, co_greeting_timeout = from_secs 120,
      co_command_timeout = from_secs 300\<rparr>"

definition checked_deadline :: "nat \<Rightarrow> world \<Rightarrow> nat option \<times> world" where
  "checked_deadline duration w =
     (let (t, w) = now w in (if t + duration \<le> w_instant_max w then Some (t + duration) else None, w))"

definition co_deadline :: "nat \<Rightarrow> world \<Rightarrow> (nat, ClientError) result \<times> world" where
  "co_deadline duration w =
     (if duration = 0 then (Err CeInvalidOptions, w)
      else let (d, w) = checked_deadline duration w in (ok_or d CeInvalidOptions, w))"

fun validate_durations :: "nat list \<Rightarrow> world \<Rightarrow> (unit, ClientError) result \<times> world" where
  "validate_durations [] w = (Ok (), w)"
| "validate_durations (d # ds) w =
     (case co_deadline d w of
        (Ok _, w) \<Rightarrow> validate_durations ds w
      | (Err e, w) \<Rightarrow> (Err e, w)
      | (Panic, w) \<Rightarrow> (Panic, w))"

definition co_validate :: "ClientOptions \<Rightarrow> world \<Rightarrow> (unit, ClientError) result \<times> world" where
  "co_validate opts w =
     (if co_max_inquiry_bytes opts = 0 then (Err CeInvalidOptions, w)
      else validate_durations
        [co_connect_timeout opts, co_greeting_timeout opts, co_command_timeout opts, co_inquiry_timeout opts] w)"

section \<open>The session core\<close>

record SessionCore =
  sc_channel :: Channel
  sc_machine :: ClientMachine
  sc_io_uncertain :: bool
  sc_deadline :: nat
  sc_sensitivity :: Sensitivity
  sc_inquiry_timeout :: nat
  sc_max_inquiry_bytes :: nat

record Received =
  rc_kind :: LineKind
  rc_code :: "u32 option"
  rc_payload :: "nat \<times> nat"
  rc_keyword :: "nat \<times> nat"

definition sc_invalidate :: "SessionCore \<Rightarrow> SessionCore" where
  "sc_invalidate k = k\<lparr>sc_machine := cm_invalidate (sc_machine k), sc_channel := ch_close (sc_channel k)\<rparr>"

definition sc_check :: "SessionCore \<Rightarrow> (unit, ClientError) result \<times> SessionCore" where
  "sc_check k =
     (if sc_io_uncertain k \<or> cm_state (sc_machine k) \<in> {CInvalid, CClosed}
      then (Err (CeState Unusable), sc_invalidate k) else (Ok (), k))"

text \<open>
  \<open>classify\<close>: where the fields of the parsed line are, the decoding of data in place, and
  the transition. It gives the outcome, the line as it is afterwards, and the machine.
\<close>

definition locate :: "bytes \<Rightarrow> ServerLine \<Rightarrow> Received" where
  "locate line parsed =
     (let rcv = \<lparr>rc_kind = kind parsed, rc_code = None, rc_payload = (0, 0), rc_keyword = (0, 0)\<rparr>;
          tail = (\<lambda>txt. (length line - length txt, length line))
      in case parsed of
           LineOk txt \<Rightarrow> rcv\<lparr>rc_payload := tail txt\<rparr>
         | LineComment txt \<Rightarrow> rcv\<lparr>rc_payload := tail txt\<rparr>
         | LineData txt \<Rightarrow> rcv\<lparr>rc_payload := tail txt\<rparr>
         | LineErr code txt \<Rightarrow> rcv\<lparr>rc_code := Some code, rc_payload := tail txt\<rparr>
         | LineStatus kw args \<Rightarrow> rcv\<lparr>rc_keyword := (2, 2 + length kw), rc_payload := tail args\<rparr>
         | LineInquire kw args \<Rightarrow> rcv\<lparr>rc_keyword := (8, 8 + length kw), rc_payload := tail args\<rparr>
         | LineEnd \<Rightarrow> rcv
         | LineEmpty \<Rightarrow> rcv)"

definition decode_received :: "Received \<Rightarrow> bytes \<Rightarrow> (Received, ClientError) result \<times> bytes" where
  "decode_received rcv line =
     (if rc_kind rcv = KData then
        (let (lo, hi) = rc_payload rcv in
         case get_range line lo hi of
           None \<Rightarrow> (Panic, line)
         | Some part \<Rightarrow>
             (case decode_data_in_place part of
                (Ok n, part') \<Rightarrow>
                  (Ok (rcv\<lparr>rc_payload := (lo, lo + n)\<rparr>), take lo line @ part' @ drop hi line)
              | (Err e, part') \<Rightarrow> (Err (CeProtocol e), take lo line @ part' @ drop hi line)
              | (Panic, part') \<Rightarrow> (Panic, take lo line @ part' @ drop hi line)))
      else (Ok rcv, line))"

definition classify ::
  "bytes \<Rightarrow> ClientMachine \<Rightarrow> (Received, ClientError) result \<times> bytes \<times> ClientMachine" where
  "classify line m =
     (case parse_server_line line of
        Err e \<Rightarrow> (Err (CeProtocol e), line, m)
      | Panic \<Rightarrow> (Panic, line, m)
      | Ok parsed \<Rightarrow>
          (case decode_received (locate line parsed) line of
             (Err e, line') \<Rightarrow> (Err e, line', m)
           | (Panic, line') \<Rightarrow> (Panic, line', m)
           | (Ok rcv, line') \<Rightarrow>
               (case cm_receive m (kind parsed) of
                  (Ok _, m') \<Rightarrow> (Ok rcv, line', m')
                | (Err e, m') \<Rightarrow>
                    (Err (if e = GreetingRejected
                          then CeGreetingRejected (case rc_code rcv of None \<Rightarrow> 0 | Some code \<Rightarrow> code)
                          else CeState e), line', m')
                | (Panic, m') \<Rightarrow> (Panic, line', m'))))"

text \<open>
  Reading one line: the marker is set before the channel is touched and reset only when the
  line has been classified; a failure invalidates, a dropped future leaves the marker set.
\<close>

definition sc_read :: "(SessionCore \<times> world, Received, ClientError) io" where
  "sc_read s =
     (case s of (k, w) \<Rightarrow>
      case sc_check k of
        (Err e, k) \<Rightarrow> (Fail e, (k, w))
      | (Panic, k) \<Rightarrow> (Abort, (k, w))
      | (Ok _, k) \<Rightarrow>
          let k = k\<lparr>sc_io_uncertain := True\<rparr> in
          (case read_line (sc_deadline k) (sc_sensitivity k) (sc_channel k, w) of
             (Done line, (c, w)) \<Rightarrow>
               (case classify line (sc_machine k) of (res, line', m) \<Rightarrow>
                  let k = k\<lparr>sc_channel := edit_line (\<lambda>_. line') c, sc_machine := m\<rparr> in
                  (case res of
                     Ok received \<Rightarrow> (Done received, (k\<lparr>sc_io_uncertain := False\<rparr>, w))
                   | Err e \<Rightarrow> (Fail e, (sc_invalidate k, w))
                   | Panic \<Rightarrow> (Abort, (k, w))))
           | (Fail e, (c, w)) \<Rightarrow> (Fail (CeTransport e), (sc_invalidate (k\<lparr>sc_channel := c\<rparr>), w))
           | (Abort, (c, w)) \<Rightarrow> (Abort, (k\<lparr>sc_channel := c\<rparr>, w))
           | (Cancelled, (c, w)) \<Rightarrow> (Cancelled, (k\<lparr>sc_channel := c\<rparr>, w))))"

definition sc_write_at :: "bytes \<Rightarrow> nat \<Rightarrow> Sensitivity \<Rightarrow> (SessionCore \<times> world, unit, ClientError) io" where
  "sc_write_at bs deadline sensitivity s =
     (case s of (k, w) \<Rightarrow>
      case sc_check k of
        (Err e, k) \<Rightarrow> (Fail e, (k, w))
      | (Panic, k) \<Rightarrow> (Abort, (k, w))
      | (Ok _, k) \<Rightarrow>
          let k = k\<lparr>sc_io_uncertain := True\<rparr> in
          (case write_line bs deadline sensitivity (sc_channel k, w) of
             (Done _, (c, w)) \<Rightarrow> (Done (), (k\<lparr>sc_channel := c, sc_io_uncertain := False\<rparr>, w))
           | (Fail e, (c, w)) \<Rightarrow> (Fail (CeTransport e), (sc_invalidate (k\<lparr>sc_channel := c\<rparr>), w))
           | (Abort, (c, w)) \<Rightarrow> (Abort, (k\<lparr>sc_channel := c\<rparr>, w))
           | (Cancelled, (c, w)) \<Rightarrow> (Cancelled, (k\<lparr>sc_channel := c\<rparr>, w))))"

definition sc_write :: "bytes \<Rightarrow> (SessionCore \<times> world, unit, ClientError) io" where
  "sc_write bs s = sc_write_at bs (sc_deadline (fst s)) (sc_sensitivity (fst s)) s"

section \<open>Classification\<close>

text \<open>What a response says: its payload (data percent-decoded), keyword and code.\<close>

definition line_payload :: "ServerLine \<Rightarrow> bytes option" where
  "line_payload l =
     (case l of
        LineOk t \<Rightarrow> Some t | LineErr _ t \<Rightarrow> Some t | LineData d \<Rightarrow> decode d | LineStatus _ a \<Rightarrow> Some a
      | LineInquire _ a \<Rightarrow> Some a | LineEnd \<Rightarrow> Some [] | LineComment t \<Rightarrow> Some t | LineEmpty \<Rightarrow> Some [])"

definition line_keyword :: "ServerLine \<Rightarrow> bytes" where
  "line_keyword l = (case l of LineStatus k _ \<Rightarrow> k | LineInquire k _ \<Rightarrow> k | _ \<Rightarrow> [])"

definition line_code :: "ServerLine \<Rightarrow> u32 option" where
  "line_code l = (case l of LineErr code _ \<Rightarrow> Some code | _ \<Rightarrow> None)"

text \<open>A received record points at these fields of the line it was made from.\<close>

definition points_at :: "Received \<Rightarrow> bytes \<Rightarrow> ServerLine \<Rightarrow> bool" where
  "points_at rcv line l \<longleftrightarrow>
     rc_kind rcv = kind l \<and> rc_code rcv = line_code l
   \<and> get_range line (fst (rc_payload rcv)) (snd (rc_payload rcv)) = line_payload l
   \<and> get_range line (fst (rc_keyword rcv)) (snd (rc_keyword rcv)) = Some (line_keyword l)"

lemma get_range_tail [simp]: "get_range (p @ t) (length p) (length p + length t) = Some t"
  by (simp add: get_range_def)

lemma get_range_empty [simp]: "get_range xs 0 0 = Some []"
  by (simp add: get_range_def)

lemma locate_simps [simp]: "rc_kind (locate line l) = kind l" "rc_code (locate line l) = line_code l"
  by (cases l; simp add: locate_def kind_def line_code_def)+

lemma locate_fields:
  assumes "parse_server_line line = Ok l"
  shows "get_range line (fst (rc_payload (locate line l))) (snd (rc_payload (locate line l)))
           = (case l of LineData d \<Rightarrow> Some d | _ \<Rightarrow> line_payload l)
       \<and> get_range line (fst (rc_keyword (locate line l))) (snd (rc_keyword (locate line l)))
           = Some (line_keyword l)"
proof -
  note shape = parse_server_line_shape [OF assms]
  have field: "get_range (pre @ k @ p @ a) n (n + length k) = Some k" if "n = length pre" for pre k p a n
    using that by (simp add: get_range_def)
  have tail: "get_range line (length line - length t) (length line) = Some t" if "line = p @ t" for p t
    using that by (simp add: get_range_def)
  show ?thesis
  proof (cases l)
    case (LineStatus k a)
    then obtain p where line: "line = lit ''S '' @ k @ p @ a" using shape by auto
    have "get_range line 2 (2 + length k) = Some k" unfolding line by (rule field) (simp add: lit_def)
    then show ?thesis
      using LineStatus tail [of "lit ''S '' @ k @ p" a] line
      by (simp add: locate_def line_payload_def line_keyword_def)
  next
    case (LineInquire k a)
    then obtain p where line: "line = lit ''INQUIRE '' @ k @ p @ a" using shape by auto
    have "get_range line 8 (8 + length k) = Some k" unfolding line by (rule field) (simp add: lit_def)
    then show ?thesis
      using LineInquire tail [of "lit ''INQUIRE '' @ k @ p" a] line
      by (simp add: locate_def line_payload_def line_keyword_def)
  qed (use shape in \<open>auto simp: locate_def line_payload_def line_keyword_def get_range_def lit_def\<close>)
qed

lemma decode_received_spec:
  assumes p: "parse_server_line line = Ok l" and d: "decode_received (locate line l) line = (r, line')"
  shows "length line' = length line \<and> r \<noteq> Panic
     \<and> (\<forall>rcv. r = Ok rcv \<longrightarrow> points_at rcv line' l \<and> line_payload l \<noteq> None)"
proof (cases "\<exists>x. l = LineData x")
  case False
  then have "kind l \<noteq> KData" "line_payload l \<noteq> None" by (cases l; simp add: kind_def line_payload_def)+
  then show ?thesis
    using d locate_fields [OF p] False by (cases l) (auto simp: decode_received_def points_at_def)
next
  case True
  then obtain x where x: "l = LineData x" by blast
  have line: "line = [0x44, SP] @ x" using parse_server_line_shape [OF p] x by (simp add: lit_def)
  have pay: "rc_payload (locate line l) = (2, 2 + length x)" by (simp add: x line locate_def)
  have dr: "decode_received (locate line l) line =
      (case decode x of
         None \<Rightarrow> (Err (CeProtocol InvalidEscape), line)
       | Some ds \<Rightarrow> (Ok ((locate line l)\<lparr>rc_payload := (2, 2 + length ds)\<rparr>), [0x44, SP] @ ds @ drop (length ds) x))"
    using pay by (simp add: decode_received_def x kind_def decode_in_place_eq get_range_def line split: option.split)
  show ?thesis
  proof (cases "decode x")
    case None
    then show ?thesis using d dr by auto
  next
    case (Some ds)
    have "get_range ([0x44, SP] @ ds @ drop (length ds) x) 2 (2 + length ds) = Some ds"
      by (simp add: get_range_def)
    then show ?thesis
      using d dr Some decode_length [OF Some] x
      by (auto simp: points_at_def line_payload_def line_keyword_def line_code_def line locate_def)
  qed
qed

lemma classify_cases:
  assumes "classify line m = (r, line', m')"
  shows "r \<noteq> Panic \<and> length line' = length line \<and> (m' = m \<or> (\<exists>k. m' = snd (cm_receive m k)))
    \<and> (\<forall>rcv. r = Ok rcv \<longrightarrow> (\<exists>l. parse_server_line line = Ok l \<and> points_at rcv line' l
         \<and> line_payload l \<noteq> None \<and> cm_receive m (kind l) = (Ok (), m')))"
proof (cases "parse_server_line line")
  case (Ok l)
  obtain q line1 where d: "decode_received (locate line l) line = (q, line1)" by force
  obtain t m1 where st: "cm_receive m (kind l) = (t, m1)" by force
  have np: "t \<noteq> Panic" using client.no_panic [of m "CReceive (kind l)"] st by simp
  have m1: "\<exists>k. m1 = snd (cm_receive m k)" by (rule exI [of _ "kind l"]) (simp add: st)
  show ?thesis
  proof (cases q)
    case (Ok rcv)
    note here = \<open>parse_server_line line = Ok l\<close> and spec = decode_received_spec [OF \<open>parse_server_line line = Ok l\<close> d]
    have r: "line' = line1 \<and> m' = m1 \<and> (r = Ok rcv \<and> t = Ok () \<or> (\<exists>e. r = Err e))"
      using assms here d st np Ok by (cases t) (auto simp: classify_def)
    have "\<exists>l. parse_server_line line = Ok l \<and> points_at rcv line' l \<and> line_payload l \<noteq> None
         \<and> cm_receive m (kind l) = (Ok (), m')" if "r = Ok rcv"
      using that here spec Ok st r by (intro exI [of _ l]) auto
    then show ?thesis using r spec m1 by auto
  next
    case (Err e)
    then show ?thesis
      using assms \<open>parse_server_line line = Ok l\<close> d decode_received_spec [OF \<open>parse_server_line line = Ok l\<close> d]
      by (auto simp: classify_def)
  next
    case Panic
    then show ?thesis using decode_received_spec [OF \<open>parse_server_line line = Ok l\<close> d] by simp
  qed
next
  case (Err e)
  then show ?thesis using assms by (auto simp: classify_def)
next
  case Panic
  then show ?thesis using parse_server_line_no_panic by blast
qed

section \<open>Guarded reads and writes\<close>

definition sc_inv :: "SessionCore \<Rightarrow> bool" where
  "sc_inv k \<longleftrightarrow> ch_inv (sc_channel k) \<and> cm_good (sc_machine k)"

definition sc_dead :: "SessionCore \<Rightarrow> bool" where
  "sc_dead k \<longleftrightarrow> sc_io_uncertain k \<or> cm_dead (sc_machine k)"

lemma sc_check_eq:
  "sc_check k = (if sc_dead k then (Err (CeState Unusable), sc_invalidate k) else (Ok (), k))"
  by (simp add: sc_check_def sc_dead_def cm_dead_def)

lemma sc_invalidate_dead [simp]: "sc_dead (sc_invalidate k)"
  by (simp add: sc_dead_def sc_invalidate_def invalidate_dead)

lemma sc_invalidate_inv: "ch_shape (sc_channel k) \<Longrightarrow> cm_good (sc_machine k) \<Longrightarrow> sc_inv (sc_invalidate k)"
  using ch_close_inv [of "sc_channel k"]
  by (simp add: sc_inv_def sc_invalidate_def cm_good_def cm_invalidate_def)

lemma sc_dead_refuses:
  assumes "sc_dead k"
  shows "sc_read (k, w) = (Fail (CeState Unusable), (sc_invalidate k, w))"
    and "sc_write_at bs d s (k, w) = (Fail (CeState Unusable), (sc_invalidate k, w))"
  using assms by (simp_all add: sc_read_def sc_write_at_def sc_check_eq)

lemma cm_good_receive: "cm_good m \<Longrightarrow> cm_good (snd (cm_receive m k))"
  using cm_good_step [of m "CReceive k"] by simp

text \<open>
  Everything a read does to the session: it is refused, or it delivers one classified line
  that the machine accepted, or it leaves the session dead. Nothing is sent.
\<close>

lemma sc_read_cases:
  assumes inv: "sc_inv k" and ok: "reads_ok w"
  shows "\<exists>r k' w'. sc_read (k, w) = (r, (k', w')) \<and> sc_inv k' \<and> reads_ok w' \<and> w_sent w' = w_sent w
    \<and> r \<noteq> Abort
    \<and> (case r of
         Done rcv \<Rightarrow> \<not> sc_dead k \<and> \<not> sc_io_uncertain k' \<and> sc_deadline k' = sc_deadline k
           \<and> sc_sensitivity k' = sc_sensitivity k \<and> sc_inquiry_timeout k' = sc_inquiry_timeout k
           \<and> sc_max_inquiry_bytes k' = sc_max_inquiry_bytes k
           \<and> (\<exists>line raw l. received_line (sc_channel k') = Some line \<and> points_at rcv line l
               \<and> line_payload l \<noteq> None \<and> parse_server_line raw = Ok l
               \<and> takes_line (stream (sc_channel k) w) raw (stream (sc_channel k') w')
               \<and> cm_receive (sc_machine k) (kind l) = (Ok (), sc_machine k'))
       | _ \<Rightarrow> sc_dead k')"
proof (cases "sc_dead k")
  case True
  have "sc_inv (sc_invalidate k)"
    using inv by (intro sc_invalidate_inv) (auto simp: sc_inv_def ch_inv_shape)
  then show ?thesis using sc_dead_refuses(1) [OF True] ok by auto
next
  case False
  let ?k = "k\<lparr>sc_io_uncertain := True\<rparr>"
  have ci: "ch_inv (sc_channel k)" and mg: "cm_good (sc_machine k)" using inv by (auto simp: sc_inv_def)
  obtain r c w' where rd: "read_line (sc_deadline k) (sc_sensitivity k) (sc_channel k, w) = (r, (c, w'))"
    "ch_inv c" "reads_ok w'" "w_sent w' = w_sent w" "r \<noteq> Abort" "\<And>l. r = Done l \<Longrightarrow> received_line c = Some l"
    "\<And>l. r = Done l \<Longrightarrow> takes_line (stream (sc_channel k) w) l (stream c w')"
    using read_line_spec [OF ci ok] by blast
  show ?thesis
  proof (cases r)
    case (Done line)
    obtain res line' m where cl: "classify line (sc_machine k) = (res, line', m)"
      by (rule prod_cases3 [of "classify line (sc_machine k)"])
    note cc = classify_cases [OF cl]
    let ?k' = "?k\<lparr>sc_channel := edit_line (\<lambda>_. line') c, sc_machine := m\<rparr>"
    have ed: "ch_inv (edit_line (\<lambda>_. line') c)" "received_line (edit_line (\<lambda>_. line') c) = Some line'"
      "stream (edit_line (\<lambda>_. line') c) w' = stream c w'"
      using edit_line_inv [OF rd(2) rd(6) [OF Done]] cc by (auto simp: stream_def)
    have good: "cm_good m" using cc mg cm_good_receive by metis
    have read: "sc_read (k, w) =
        (case res of Ok rcv \<Rightarrow> (Done rcv, (?k'\<lparr>sc_io_uncertain := False\<rparr>, w'))
         | Err e \<Rightarrow> (Fail e, (sc_invalidate ?k', w')) | Panic \<Rightarrow> (Abort, (?k', w')))"
      using False rd(1) Done cl by (simp add: sc_read_def sc_check_eq Let_def)
    show ?thesis
    proof (cases res)
      case (Ok rcv)
      with cc obtain l where "points_at rcv line' l" "line_payload l \<noteq> None" "parse_server_line line = Ok l"
        "cm_receive (sc_machine k) (kind l) = (Ok (), m)" by blast
      moreover have "takes_line (stream (sc_channel k) w) line (stream (edit_line (\<lambda>_. line') c) w')"
        using rd(7) [OF Done] ed(3) by simp
      ultimately show ?thesis using read Ok False ed(1,2) good rd(3,4) by (auto simp: sc_inv_def)
    next
      case (Err e)
      have "sc_inv (sc_invalidate ?k')" using ed good by (intro sc_invalidate_inv) (auto simp: ch_inv_shape)
      then show ?thesis using read Err rd(3,4) by auto
    qed (use cc in auto)
  next
    case (Fail e)
    have "sc_inv (sc_invalidate (?k\<lparr>sc_channel := c\<rparr>))"
      using rd(2) mg by (intro sc_invalidate_inv) (auto simp: ch_inv_shape)
    then show ?thesis using False rd(1,3,4) Fail by (simp add: sc_read_def sc_check_eq Let_def)
  next
    case Cancelled
    then show ?thesis using False rd mg by (simp add: sc_read_def sc_check_eq Let_def sc_inv_def sc_dead_def)
  qed (use rd in auto)
qed

text \<open>The same for a write: all of the line was sent, or the session is dead.\<close>

lemma sc_write_cases:
  assumes inv: "sc_inv k" and ok: "reads_ok w"
  shows "\<exists>r k' w'. sc_write_at bs d s (k, w) = (r, (k', w')) \<and> sc_inv k' \<and> reads_ok w'
    \<and> w_reads w' = w_reads w \<and> r \<noteq> Abort
    \<and> (if is_done r then \<not> sc_dead k \<and> k' = k \<and> sendable bs \<and> w_sent w' = w_sent w @ bs
       else sc_dead k' \<and> (\<exists>n \<le> length bs. w_sent w' = w_sent w @ take n bs))"
proof (cases "sc_dead k")
  case True
  have "sc_inv (sc_invalidate k)"
    using inv by (intro sc_invalidate_inv) (auto simp: sc_inv_def ch_inv_shape)
  moreover have "\<exists>n \<le> length bs. w_sent w = w_sent w @ take n bs" by (intro exI [of _ 0]) simp
  ultimately show ?thesis using sc_dead_refuses(2) [OF True] ok by auto
next
  case False
  let ?k = "k\<lparr>sc_io_uncertain := True\<rparr>"
  have ci: "ch_inv (sc_channel k)" and mg: "cm_good (sc_machine k)" using inv by (auto simp: sc_inv_def)
  obtain r c w' where wr: "write_line bs d s (sc_channel k, w) = (r, (c, w'))" "ch_inv c" "r \<noteq> Abort"
    "w_reads w' = w_reads w" "\<exists>n \<le> length bs. w_sent w' = w_sent w @ take n bs"
    "if is_done r then sendable bs \<and> ch_open (sc_channel k) \<and> w_sent w' = w_sent w @ bs \<and> c = sc_channel k
     else ch_wiped c"
    using write_line_cases [OF ci, of bs d s w] by blast
  have ok': "reads_ok w'" using ok wr(4) by (simp add: reads_ok_def)
  have rest: "k\<lparr>sc_channel := sc_channel k, sc_io_uncertain := False\<rparr> = k" using False by (simp add: sc_dead_def)
  have bad: "sc_inv (sc_invalidate (?k\<lparr>sc_channel := c\<rparr>))"
    using wr(2) mg by (intro sc_invalidate_inv) (auto simp: ch_inv_shape)
  show ?thesis
  proof (cases r)
    case (Fail e)
    then show ?thesis using False wr ok' bad by (auto simp: sc_write_at_def sc_check_eq Let_def)
  next
    case (Done u)
    then show ?thesis using False wr ok' inv rest by (auto simp: sc_write_at_def sc_check_eq Let_def)
  next
    case Cancelled
    then show ?thesis
      using False wr ok' mg by (auto simp: sc_write_at_def sc_check_eq Let_def sc_inv_def sc_dead_def)
  qed (use wr in auto)
qed

section \<open>Every line read uses up input\<close>

lemma sc_read_uses:
  assumes "sc_read (k, w) = (Done rcv, (k', w'))"
  shows "left (sc_channel k') w' < left (sc_channel k) w"
proof -
  have "\<not> sc_dead k" using assms by (auto simp: sc_read_def sc_check_eq split: if_splits)
  then obtain line c f where r: "read_line (sc_deadline k) (sc_sensitivity k) (sc_channel k, w) = (Done line, (c, w'))"
    and c: "sc_channel k' = edit_line f c"
    using assms
    by (auto simp: sc_read_def sc_check_eq Let_def split: prod.splits async.splits result.splits)
  have "ch_pending (edit_line f c) = ch_pending c" by (simp add: edit_line_def)
  with read_line_uses [OF r] c show ?thesis by (simp add: left_def)
qed

lemma sc_write_left:
  assumes "sc_write_at bs d s (k, w) = (Done u, (k', w'))"
  shows "left (sc_channel k') w' = left (sc_channel k) w"
proof -
  have nd: "\<not> sc_dead k" using assms by (auto simp: sc_write_at_def sc_check_eq split: if_splits)
  then obtain c where wr: "write_line bs d s (sc_channel k, w) = (Done (), (c, w'))" and c: "sc_channel k' = c"
    using assms by (auto simp: sc_write_at_def sc_check_eq Let_def split: prod.splits async.splits)
  have "ch_pending c = ch_pending (sc_channel k) \<and> w_reads w' = w_reads w"
    using wr
    by (auto simp: write_line_def operation_def next_write_def now_def deliver_bytes_def Let_def
          split: option.splits if_splits prod.splits write_event.splits list.splits async.splits)
  then show ?thesis using c by (simp add: left_def)
qed

end
