(* ===== verification/Client.thy ===== *)
theory Client
  imports Client_Session
begin

text \<open>
  The client API (\<open>assuan-client/src/transaction.rs\<close>, \<open>inquiry.rs\<close>, \<open>client.rs\<close>,
  \<open>handshake.rs\<close>, \<open>response.rs\<close>): events, transactions and their drop guard, inquiries,
  commands, the interactive greeting, and the bounded collectors. Guards that borrow the
  session are values beside the session core they borrow; their \<open>Drop\<close> is written out where
  the source lets them go out of scope. \<open>alloc\<close> says which protected allocations succeed.
\<close>

section \<open>Events\<close>

record Inquiry =
  iq_metadata :: SecretBytes
  iq_keyword_len :: nat
  iq_sent :: nat
  iq_deadline :: nat
  iq_completed :: bool

datatype Event =
    EvInquire Inquiry
  | EvData PayloadRef
  | EvStatus bytes PayloadRef
  | EvComment PayloadRef
  | EvEnd
  | EvFinished "u32 option" PayloadRef

definition event_debug :: "Event \<Rightarrow> dbg" where
  "event_debug e = DText
     (case e of
        EvInquire _ \<Rightarrow> ''Inquire { .. }''
      | EvData _ \<Rightarrow> ''Data { .. }''
      | EvStatus _ _ \<Rightarrow> ''Status { .. }''
      | EvComment _ \<Rightarrow> ''Comment { .. }''
      | EvEnd \<Rightarrow> ''End''
      | EvFinished _ _ \<Rightarrow> ''Finished { .. }'')"

datatype Completion = ComPending | ComSuccess | ComRemote u32

definition payload_of :: "bytes \<Rightarrow> Sensitivity \<Rightarrow> PayloadRef" where
  "payload_of bs sensitivity =
     (case sensitivity of Public \<Rightarrow> PublicPayload bs | Secret \<Rightarrow> SecretPayload (sr_new bs))"

type_synonym 'a session = "(SessionCore \<times> world, 'a, ClientError) io"

section \<open>Inquiries\<close>

text \<open>The closure of \<open>Inquiry::new\<close>: metadata and deadline, or an error that invalidates.\<close>

definition inquiry_parts ::
  "(nat \<Rightarrow> bool) \<Rightarrow> Received \<Rightarrow> SessionCore \<Rightarrow> world \<Rightarrow> (SecretBytes \<times> nat, ClientError) result \<times> world" where
  "inquiry_parts alloc rcv k w =
     (case sb_with_capacity alloc MAX_LINE_BYTES of
        Err e \<Rightarrow> (Err (CeLimit e), w)
      | Panic \<Rightarrow> (Panic, w)
      | Ok metadata \<Rightarrow>
          (case received_line (sc_channel k) of
             None \<Rightarrow> (Err CeIncomplete, w)
           | Some line \<Rightarrow>
               (case get_range line (fst (rc_keyword rcv)) (snd (rc_keyword rcv)) of
                  None \<Rightarrow> (Panic, w)
                | Some kw \<Rightarrow>
                    (case sb_extend_from_slice metadata kw of
                       (Err e, _) \<Rightarrow> (Err (CeLimit e), w)
                     | (Panic, _) \<Rightarrow> (Panic, w)
                     | (Ok _, metadata) \<Rightarrow>
                         (case get_range line (fst (rc_payload rcv)) (snd (rc_payload rcv)) of
                            None \<Rightarrow> (Panic, w)
                          | Some args \<Rightarrow>
                              (case sb_extend_from_slice metadata args of
                                 (Err e, _) \<Rightarrow> (Err (CeLimit e), w)
                               | (Panic, _) \<Rightarrow> (Panic, w)
                               | (Ok _, metadata) \<Rightarrow>
                                   (case checked_deadline (sc_inquiry_timeout k) w of
                                      (None, w) \<Rightarrow> (Err CeInvalidOptions, w)
                                    | (Some local, w) \<Rightarrow> (Ok (metadata, min (sc_deadline k) local), w))))))))"

definition inquiry_new :: "(nat \<Rightarrow> bool) \<Rightarrow> Received \<Rightarrow> Inquiry session" where
  "inquiry_new alloc rcv s =
     (case s of (k, w) \<Rightarrow>
      case inquiry_parts alloc rcv k w of
        (Ok (metadata, deadline), w) \<Rightarrow>
          (Done \<lparr>iq_metadata = metadata, iq_keyword_len = snd (rc_keyword rcv) - fst (rc_keyword rcv),
                 iq_sent = 0, iq_deadline = deadline, iq_completed = False\<rparr>, (k, w))
      | (Err e, w) \<Rightarrow> (Fail e, (sc_invalidate k, w))
      | (Panic, w) \<Rightarrow> (Abort, (k, w)))"

definition inquiry_keyword :: "Inquiry \<Rightarrow> bytes" where
  "inquiry_keyword q =
     (let kw = take (iq_keyword_len q) (sb_expose (iq_metadata q)) in if utf8_valid kw then kw else [])"

definition inquiry_args :: "Inquiry \<Rightarrow> SessionCore \<Rightarrow> PayloadRef" where
  "inquiry_args q k = payload_of (drop (iq_keyword_len q) (sb_expose (iq_metadata q))) (sc_sensitivity k)"

definition inquiry_check :: "SessionCore \<Rightarrow> (unit, ClientError) result \<times> SessionCore" where
  "inquiry_check k =
     (case sc_check k of
        (Err e, k) \<Rightarrow> (Err e, k)
      | (Panic, k) \<Rightarrow> (Panic, k)
      | (Ok _, k) \<Rightarrow>
          if cm_state (sc_machine k) \<noteq> CInquiry then (Err (CeState NotReady), sc_invalidate k) else (Ok (), k))"

lemma encode_into_scratch:
  "encode_data_chunk rest (replicate MAX_LINE_BYTES 0) =
     (Ok (chunk_len 2 rest, Suc (length (data_body rest))),
      data_body rest @ LF # drop (Suc (length (data_body rest))) (replicate MAX_LINE_BYTES 0))"
  by (rule encode_data_chunk_eq) simp

text \<open>The chunk loop of \<open>Inquiry::send\<close>; the scratch line is all zero before each chunk.\<close>

function send_loop :: "bytes \<Rightarrow> nat \<Rightarrow> Sensitivity \<Rightarrow> unit session" where
  "send_loop rest deadline sensitivity s =
     (case encode_data_chunk rest (replicate MAX_LINE_BYTES 0) of
        (Err e, _) \<Rightarrow> (Fail (CeProtocol e), s)
      | (Panic, _) \<Rightarrow> (Abort, s)
      | (Ok (used, written), scratch) \<Rightarrow>
          (case sc_write_at (take written scratch) deadline sensitivity s of
             (Done _, s) \<Rightarrow>
               (if drop used rest = [] then (Done (), s) else send_loop (drop used rest) deadline sensitivity s)
           | (Fail e, s) \<Rightarrow> (Fail e, s)
           | (Abort, s) \<Rightarrow> (Abort, s)
           | (Cancelled, s) \<Rightarrow> (Cancelled, s)))"
  by pat_completeness auto

termination
proof (relation "measure (\<lambda>(rest, d, s, st). length rest)")
  fix rest :: bytes and used written and scratch :: bytes
    and x y xa ya and deadline :: nat and sensitivity :: Sensitivity
    and s s' :: "SessionCore \<times> world" and u :: unit and z
  assume "(x, y) = encode_data_chunk rest (replicate MAX_LINE_BYTES 0)" "x = Ok z" "(used, written) = z"
    "drop used rest \<noteq> []"
  then have "used = chunk_len 2 rest" "rest \<noteq> []" by (auto simp: encode_into_scratch)
  then show "((drop used rest, deadline, sensitivity, s'), (rest, deadline, sensitivity, s))
      \<in> measure (\<lambda>(rest, d, s, st). length rest)"
    using chunk_len_progress [of rest] by (cases rest) auto
qed simp

declare send_loop.simps [simp del]

definition inquiry_send :: "bytes \<Rightarrow> Sensitivity \<Rightarrow> Inquiry \<Rightarrow> Inquiry session" where
  "inquiry_send bs sensitivity q s =
     (case s of (k, w) \<Rightarrow>
      case inquiry_check k of
        (Err e, k) \<Rightarrow> (Fail e, (k, w))
      | (Panic, k) \<Rightarrow> (Abort, (k, w))
      | (Ok _, k) \<Rightarrow>
          (case usize_checked_add (iq_sent q) (length bs) of
             None \<Rightarrow> (Fail (CeLimit CapacityExceeded), (sc_invalidate k, w))
           | Some tot \<Rightarrow>
               if tot > sc_max_inquiry_bytes k
               then (Fail (CeLimit CapacityExceeded), (sc_invalidate k, w))
               else bindM (send_loop bs (iq_deadline q) sensitivity)
                      (\<lambda>_. returnM (q\<lparr>iq_sent := tot\<rparr>)) (k, w)))"

definition inquiry_complete :: "bool \<Rightarrow> Inquiry \<Rightarrow> Inquiry session" where
  "inquiry_complete cancelled q s =
     (case s of (k, w) \<Rightarrow>
      case inquiry_check k of
        (Err e, k) \<Rightarrow> (Fail e, (k, w))
      | (Panic, k) \<Rightarrow> (Abort, (k, w))
      | (Ok _, k) \<Rightarrow>
          (case sc_write_at ((if cancelled then lit ''CAN'' else lit ''END'') @ [LF])
                  (iq_deadline q) (sc_sensitivity k) (k, w) of
             (Done _, (k, w)) \<Rightarrow>
               (case cm_finish_inquiry (sc_machine k) cancelled of
                  (Ok _, m) \<Rightarrow> (Done (q\<lparr>iq_completed := True\<rparr>), (k\<lparr>sc_machine := m\<rparr>, w))
                | (Err e, m) \<Rightarrow> (Fail (CeState e), (k\<lparr>sc_machine := m\<rparr>, w))
                | (Panic, m) \<Rightarrow> (Abort, (k\<lparr>sc_machine := m\<rparr>, w)))
           | (Fail e, s) \<Rightarrow> (Fail e, s)
           | (Abort, s) \<Rightarrow> (Abort, s)
           | (Cancelled, s) \<Rightarrow> (Cancelled, s)))"

definition inquiry_drop :: "Inquiry \<Rightarrow> SessionCore \<Rightarrow> SessionCore" where
  "inquiry_drop q k = (if \<not> iq_completed q then sc_invalidate k else k)"

text \<open>
  \<open>finish\<close> and \<open>cancel\<close> consume the guard: it is dropped on every way out, as it is after
  completion on success and unfinished otherwise.
\<close>

definition inquiry_end :: "bool \<Rightarrow> Inquiry \<Rightarrow> unit session" where
  "inquiry_end cancelled q s =
     (case inquiry_complete cancelled q s of
        (Done q, (k, w)) \<Rightarrow> (Done (), (inquiry_drop q k, w))
      | (Fail e, (k, w)) \<Rightarrow> (Fail e, (inquiry_drop q k, w))
      | (Abort, (k, w)) \<Rightarrow> (Abort, (inquiry_drop q k, w))
      | (Cancelled, (k, w)) \<Rightarrow> (Cancelled, (inquiry_drop q k, w)))"

section \<open>Transactions\<close>

text \<open>The loop of \<open>next_event\<close> that skips empty lines.\<close>

function read_nonempty :: "Received session" where
  "read_nonempty s =
     (case sc_read s of
        (Done rcv, s') \<Rightarrow> if rc_kind rcv \<noteq> KEmpty then (Done rcv, s') else read_nonempty s'
      | (Fail e, s') \<Rightarrow> (Fail e, s')
      | (Abort, s') \<Rightarrow> (Abort, s')
      | (Cancelled, s') \<Rightarrow> (Cancelled, s'))"
  by pat_completeness auto

termination
proof (relation "measure (\<lambda>(k, w). left (sc_channel k) w)", goal_cases)
  case 1
  show ?case by simp
next
  case (2 s x s' rcv)
  then show ?case by (cases s; cases s') (auto dest!: sc_read_uses [OF sym])
qed

declare read_nonempty.simps [simp del]

definition event_of :: "Received \<Rightarrow> bytes \<Rightarrow> Sensitivity \<Rightarrow> (Event, ClientError) result" where
  "event_of rcv line sensitivity =
     (case get_range line (fst (rc_payload rcv)) (snd (rc_payload rcv)) of
        None \<Rightarrow> Panic
      | Some bs \<Rightarrow>
          let p = payload_of bs sensitivity in
          (case rc_kind rcv of
             KData \<Rightarrow> Ok (EvData p)
           | KComment \<Rightarrow> Ok (EvComment p)
           | KEnd \<Rightarrow> Ok EvEnd
           | KStatus \<Rightarrow>
               (case get_range line (fst (rc_keyword rcv)) (snd (rc_keyword rcv)) of
                  None \<Rightarrow> Panic
                | Some kw \<Rightarrow> if utf8_valid kw then Ok (EvStatus kw p) else Err CeIncomplete)
           | KOk \<Rightarrow> Ok (EvFinished (rc_code rcv) p)
           | KErr \<Rightarrow> Ok (EvFinished (rc_code rcv) p)
           | KEmpty \<Rightarrow> Err CeIncomplete
           | KInquire \<Rightarrow> Err CeIncomplete))"

definition next_event ::
  "(nat \<Rightarrow> bool) \<Rightarrow> Completion \<Rightarrow> SessionCore \<times> world
   \<Rightarrow> (Event option, ClientError) async \<times> Completion \<times> SessionCore \<times> world" where
  "next_event alloc completion s =
     (case s of (k, w) \<Rightarrow>
      case sc_check k of
        (Err e, k) \<Rightarrow> (Fail e, completion, k, w)
      | (Panic, k) \<Rightarrow> (Abort, completion, k, w)
      | (Ok _, k) \<Rightarrow>
          if cm_state (sc_machine k) = CInquiry then
            (Fail (CeState NotReady), completion, sc_invalidate k, w)
          else if completion \<noteq> ComPending then (Done None, completion, k, w)
          else
            (case read_nonempty (k, w) of
               (Fail e, s) \<Rightarrow> (Fail e, completion, s)
             | (Abort, s) \<Rightarrow> (Abort, completion, s)
             | (Cancelled, s) \<Rightarrow> (Cancelled, completion, s)
             | (Done rcv, (k, w)) \<Rightarrow>
                 let completion =
                   (if rc_kind rcv \<in> {KOk, KErr}
                    then (case rc_code rcv of None \<Rightarrow> ComSuccess | Some code \<Rightarrow> ComRemote code)
                    else completion) in
                 if rc_kind rcv = KInquire then
                   (case inquiry_new alloc rcv (k, w) of
                      (Done q, s) \<Rightarrow> (Done (Some (EvInquire q)), completion, s)
                    | (Fail e, s) \<Rightarrow> (Fail e, completion, s)
                    | (Abort, s) \<Rightarrow> (Abort, completion, s)
                    | (Cancelled, s) \<Rightarrow> (Cancelled, completion, s))
                 else
                   (case received_line (sc_channel k) of
                      None \<Rightarrow> (Fail CeIncomplete, completion, k, w)
                    | Some line \<Rightarrow>
                        (case event_of rcv line (sc_sensitivity k) of
                           Ok ev \<Rightarrow> (Done (Some ev), completion, k, w)
                         | Err e \<Rightarrow> (Fail e, completion, k, w)
                         | Panic \<Rightarrow> (Abort, completion, k, w)))))"

definition tx_drop :: "SessionCore \<Rightarrow> SessionCore" where
  "tx_drop k = (if sc_io_uncertain k \<or> cm_state (sc_machine k) \<noteq> CReady then sc_invalidate k else k)"

definition tx_finish :: "Completion \<Rightarrow> SessionCore \<Rightarrow> (unit, ClientError) result \<times> SessionCore" where
  "tx_finish completion k =
     (case sc_check k of
        (Err e, k) \<Rightarrow> (Err e, tx_drop k)
      | (Panic, k) \<Rightarrow> (Panic, tx_drop k)
      | (Ok _, k) \<Rightarrow>
          ((case completion of
              ComRemote code \<Rightarrow> Err (CeRemote code)
            | ComSuccess \<Rightarrow> Ok ()
            | ComPending \<Rightarrow> Err CeIncomplete), tx_drop k))"

section \<open>Commands\<close>

record Client =
  cl_core :: SessionCore
  cl_options :: ClientOptions

text \<open>Lines already read ahead are taken in the Ready phase before a command is sent.\<close>

function drain_buffered :: "unit session" where
  "drain_buffered s =
     (if has_buffered_input (sc_channel (fst s)) then
        (case sc_read s of
           (Done _, s') \<Rightarrow> drain_buffered s'
         | (Fail e, s') \<Rightarrow> (Fail e, s')
         | (Abort, s') \<Rightarrow> (Abort, s')
         | (Cancelled, s') \<Rightarrow> (Cancelled, s'))
      else (Done (), s))"
  by pat_completeness auto

termination
proof (relation "measure (\<lambda>(k, w). left (sc_channel k) w)", goal_cases)
  case 1
  show ?case by simp
next
  case (2 s x s' rcv)
  then show ?case by (cases s; cases s') (auto dest!: sc_read_uses [OF sym])
qed

declare drain_buffered.simps [simp del]

definition command_with ::
  "ClientOptions \<Rightarrow> Command \<Rightarrow> Sensitivity \<Rightarrow> Completion session" where
  "command_with opts cmd sensitivity s =
     (case s of (k, w) \<Rightarrow>
      case sc_check k of
        (Err e, k) \<Rightarrow> (Fail e, (k, w))
      | (Panic, k) \<Rightarrow> (Abort, (k, w))
      | (Ok _, k) \<Rightarrow>
          if cm_state (sc_machine k) \<noteq> CReady then (Fail (CeState NotReady), (sc_invalidate k, w))
          else
            (case encode_command cmd (replicate MAX_LINE_BYTES 0) of
               (Err e, _) \<Rightarrow> (Fail (CeProtocol e), (k, w))
             | (Panic, _) \<Rightarrow> (Abort, (k, w))
             | (Ok len, encoded) \<Rightarrow>
                 (case co_deadline (co_command_timeout opts) w of
                    (Err e, w) \<Rightarrow> (Fail e, (k, w))
                  | (Panic, w) \<Rightarrow> (Abort, (k, w))
                  | (Ok deadline, w) \<Rightarrow>
                      bindM drain_buffered (\<lambda>_ (k, w).
                        let k = k\<lparr>sc_sensitivity := sensitivity\<rparr> in
                        (case cm_begin_command (sc_machine k) of
                           (Err e, m) \<Rightarrow> (Fail (CeState e), (k\<lparr>sc_machine := m\<rparr>, w))
                         | (Panic, m) \<Rightarrow> (Abort, (k\<lparr>sc_machine := m\<rparr>, w))
                         | (Ok _, m) \<Rightarrow>
                             bindM (sc_write (take len encoded)) (\<lambda>_. returnM ComPending)
                               (k\<lparr>sc_machine := m\<rparr>, w)))
                        (k\<lparr>sc_deadline := deadline\<rparr>, w))))"

definition is_usable :: "SessionCore \<Rightarrow> bool" where
  "is_usable k \<longleftrightarrow> \<not> sc_io_uncertain k \<and> cm_state (sc_machine k) = CReady"

section \<open>The greeting\<close>

record Handshake =
  hs_client :: "Client option"
  hs_completion :: Completion
  hs_error :: "ClientError option"

definition client_handshake :: "ClientOptions \<Rightarrow> world \<Rightarrow> Handshake \<times> world" where
  "client_handshake opts w =
     (let (validated, w) =
            (case co_validate opts w of
               (Ok _, w) \<Rightarrow> co_deadline (co_greeting_timeout opts) w
             | (Err e, w) \<Rightarrow> (Err e, w)
             | (Panic, w) \<Rightarrow> (Panic, w));
          ((deadline, error), w) =
            (case validated of
               Ok d \<Rightarrow> ((d, None), w)
             | Err e \<Rightarrow> (let (t, w) = now w in ((t, Some e), w))
             | Panic \<Rightarrow> ((0, None), w));
          core = \<lparr>sc_channel = ch_new, sc_machine = cm_new, sc_io_uncertain = False,
                  sc_deadline = deadline, sc_sensitivity = Public,
                  sc_inquiry_timeout = co_inquiry_timeout opts,
                  sc_max_inquiry_bytes = co_max_inquiry_bytes opts\<rparr>
      in (\<lparr>hs_client = Some \<lparr>cl_core = core, cl_options = opts\<rparr>, hs_completion = ComPending,
           hs_error = error\<rparr>, w))"

definition hs_next ::
  "(nat \<Rightarrow> bool) \<Rightarrow> Handshake \<times> world \<Rightarrow> (Event option, ClientError) async \<times> Handshake \<times> world" where
  "hs_next alloc s =
     (case s of (h, w) \<Rightarrow>
      case hs_error h of
        Some e \<Rightarrow>
          (Fail e, h\<lparr>hs_error := None,
             hs_client := map_option (\<lambda>c. c\<lparr>cl_core := sc_invalidate (cl_core c)\<rparr>) (hs_client h)\<rparr>, w)
      | None \<Rightarrow>
          (case hs_client h of
             None \<Rightarrow> (Fail CeIncomplete, h, w)
           | Some c \<Rightarrow>
               (case next_event alloc (hs_completion h) (cl_core c, w) of
                  (r, completion, k, w) \<Rightarrow>
                    (r, h\<lparr>hs_client := Some (c\<lparr>cl_core := k\<rparr>), hs_completion := completion\<rparr>, w))))"

definition hs_finish :: "Handshake \<Rightarrow> (Client, ClientError) result" where
  "hs_finish h =
     (case hs_error h of
        Some e \<Rightarrow> Err e
      | None \<Rightarrow>
          (case hs_client h of
             None \<Rightarrow> Err CeIncomplete
           | Some c \<Rightarrow>
               (case sc_check (cl_core c) of
                  (Err e, _) \<Rightarrow> Err e
                | (Panic, _) \<Rightarrow> Panic
                | (Ok _, k) \<Rightarrow>
                    (case hs_completion h of
                       ComSuccess \<Rightarrow> Ok (c\<lparr>cl_core := k\<rparr>)
                     | ComRemote code \<Rightarrow> Err (CeGreetingRejected code)
                     | ComPending \<Rightarrow> Err CeIncomplete))))"

text \<open>
  What a greeting handler does with its inquiry: send data any number of times, looking at
  each outcome, and then complete it, or let it go unfinished, or stay pending until the
  deadline or until the caller drops the whole future. A completed inquiry is consumed, so
  only the handler's own result can follow.
\<close>

datatype greeting_prog =
    GReturn "ClientError option"
  | GSend Sensitivity bytes "ClientError option \<Rightarrow> greeting_prog"
  | GComplete bool "ClientError option \<Rightarrow> ClientError option"
  | GElapsed
  | GDropped

definition as_result :: "ClientError option \<Rightarrow> (unit, ClientError) async" where
  "as_result e = (case e of None \<Rightarrow> Done () | Some e \<Rightarrow> Fail e)"

primrec respond :: "greeting_prog \<Rightarrow> Inquiry \<Rightarrow> unit session" where
  "respond (GReturn e) = (\<lambda>q (k, w). (as_result e, (inquiry_drop q k, w)))"
| "respond (GSend sensitivity bs f) = (\<lambda>q (k, w).
     (case inquiry_send bs sensitivity q (k, w) of
        (Done q', s) \<Rightarrow> respond (f None) q' s
      | (Fail e, s) \<Rightarrow> respond (f (Some e)) q s
      | (Abort, (k, w)) \<Rightarrow> (Abort, (inquiry_drop q k, w))
      | (Cancelled, (k, w)) \<Rightarrow> (Cancelled, (inquiry_drop q k, w))))"
| "respond (GComplete cancelled f) = (\<lambda>q (k, w).
     (case inquiry_end cancelled q (k, w) of
        (Done _, s) \<Rightarrow> (as_result (f None), s)
      | (Fail e, s) \<Rightarrow> (as_result (f (Some e)), s)
      | (Abort, s) \<Rightarrow> (Abort, s)
      | (Cancelled, s) \<Rightarrow> (Cancelled, s)))"
| "respond GElapsed = (\<lambda>q (k, w). (Fail (CeTransport TTimeout), (inquiry_drop q k, w)))"
| "respond GDropped = (\<lambda>q (k, w). (Cancelled, (inquiry_drop q k, w)))"

section \<open>Collected responses\<close>

record CollectLimits =
  cx_max_bytes :: nat
  cx_max_events :: nat

definition CollectLimits_default :: CollectLimits where
  "CollectLimits_default = \<lparr>cx_max_bytes = 16 * 1024 * 1024, cx_max_events = 4096\<rparr>"

definition CollectLimits_new :: "nat \<Rightarrow> nat \<Rightarrow> (CollectLimits, ClientError) result" where
  "CollectLimits_new max_bytes max_events =
     (if max_bytes = 0 \<or> max_events = 0 then Err CeInvalidOptions
      else Ok \<lparr>cx_max_bytes = max_bytes, cx_max_events = max_events\<rparr>)"

text \<open>What is being collected: the public data, the protected data, statuses, comments, and the count.\<close>

record Collected =
  cd_data :: bytes
  cd_secret :: SecretBytes
  cd_statuses :: "(bytes \<times> bytes) list"
  cd_comments :: "bytes list"
  cd_events :: nat

definition payload_slice :: "PayloadRef \<Rightarrow> bytes" where
  "payload_slice p = (case p of PublicPayload bs \<Rightarrow> bs | SecretPayload r \<Rightarrow> sr_expose r)"

definition payload_len_ref :: "PayloadRef \<Rightarrow> nat" where
  "payload_len_ref p = (case p of PublicPayload bs \<Rightarrow> length bs | SecretPayload r \<Rightarrow> length (sr_expose r))"

definition retained :: "Collected \<Rightarrow> nat" where
  "retained d = length (cd_data d) + sb_len (cd_secret d)
     + sum_list (map (\<lambda>(kw, v). length kw + length v + 1) (cd_statuses d))
     + sum_list (map length (cd_comments d))"

definition ensure_room :: "nat \<Rightarrow> Collected \<Rightarrow> nat \<Rightarrow> (unit, ClientError) result" where
  "ensure_room add d limit =
     (case usize_checked_add (retained d) add of
        None \<Rightarrow> Err (CeLimit CapacityExceeded)
      | Some n \<Rightarrow> if n > limit then Err (CeLimit CapacityExceeded) else Ok ())"

text \<open>One event other than an inquiry or the final: what is kept of it.\<close>

definition collect_event :: "CollectLimits \<Rightarrow> bool \<Rightarrow> Event \<Rightarrow> Collected \<Rightarrow> (Collected, ClientError) result" where
  "collect_event limits secret ev d =
     (case ev of
        EvData p \<Rightarrow>
          bind (ensure_room (length (payload_slice p)) d (cx_max_bytes limits)) (\<lambda>_.
          if secret then
            (case sb_extend_from_slice (cd_secret d) (payload_slice p) of
               (Ok _, s) \<Rightarrow> Ok (d\<lparr>cd_secret := s\<rparr>)
             | (Err e, _) \<Rightarrow> Err (CeLimit e)
             | (Panic, _) \<Rightarrow> Panic)
          else Ok (d\<lparr>cd_data := cd_data d @ payload_slice p\<rparr>))
      | EvStatus kw args \<Rightarrow>
          bind (ok_or (usize_checked_add (length kw) (payload_len_ref args)) (CeLimit LengthOverflow)) (\<lambda>n.
          bind (ok_or (usize_checked_add n 1) (CeLimit LengthOverflow)) (\<lambda>n.
          bind (ensure_room n d (cx_max_bytes limits)) (\<lambda>_.
          Ok (d\<lparr>cd_statuses := cd_statuses d @ [(kw, payload_slice args)]\<rparr>))))
      | EvComment p \<Rightarrow>
          bind (ensure_room (payload_len_ref p) d (cx_max_bytes limits)) (\<lambda>_.
          Ok (d\<lparr>cd_comments := cd_comments d @ [payload_slice p]\<rparr>))
      | _ \<Rightarrow> Ok d)"

definition response_debug :: "string \<Rightarrow> nat \<Rightarrow> Collected \<Rightarrow> dbg" where
  "response_debug name bytes_len d = DStruct name
     [(''data_bytes'', DNum bytes_len), (''status_count'', DNum (length (cd_statuses d))),
      (''comment_count'', DNum (length (cd_comments d)))] True"

section \<open>Driving the loops\<close>

text \<open>No operation gives input back: what can still be read never grows.\<close>

definition core_left :: "SessionCore \<times> world \<Rightarrow> nat" where
  "core_left s = left (sc_channel (fst s)) (snd s)"

lemma invalidate_left: "core_left (sc_invalidate k, w) \<le> core_left (k', w)"
  by (simp add: core_left_def left_def sc_invalidate_def ch_close_def ch_clear_def)

lemma invalidate_pending [simp]: "ch_pending (sc_channel (sc_invalidate k)) = 0"
  by (simp add: sc_invalidate_def ch_close_def ch_clear_def)

lemma sc_write_left_le:
  assumes "sc_write_at bs d s (k, w) = (r, st)"
  shows "core_left st \<le> core_left (k, w)"
proof (cases "sc_dead k")
  case True
  then show ?thesis using assms sc_dead_refuses(2) [OF True] invalidate_left by auto
next
  case False
  obtain q c w' where wr: "write_line bs d s (sc_channel k, w) = (q, (c, w'))"
    by (rule prod_cases3 [of "write_line bs d s (sc_channel k, w)"])
  note l = write_line_left [OF wr]
  show ?thesis
    using assms False wr l
    by (cases q) (auto simp: sc_write_at_def sc_check_eq Let_def core_left_def left_def)
qed

lemma inquiry_check_cases:
  "inquiry_check k =
     (if sc_dead k then (Err (CeState Unusable), sc_invalidate k)
      else if cm_state (sc_machine k) \<noteq> CInquiry then (Err (CeState NotReady), sc_invalidate k)
      else (Ok (), k))"
  by (simp add: inquiry_check_def sc_check_eq)

lemma send_loop_left: "send_loop rest d s st = (r, st') \<Longrightarrow> core_left st' \<le> core_left st"
proof (induction rest d s st rule: send_loop.induct)
  case (1 rest d s st)
  let ?line = "take (Suc (length (data_body rest))) (data_body rest @ LF # drop (Suc (length (data_body rest))) (replicate MAX_LINE_BYTES 0))"
  obtain q k' w' where wr: "sc_write_at ?line d s st = (q, (k', w'))"
    by (rule prod_cases3 [of "sc_write_at ?line d s st"])
  have le: "core_left (k', w') \<le> core_left st"
    using sc_write_left_le [of ?line d s "fst st" "snd st"] wr by simp
  have IH: "q = Done () \<Longrightarrow> drop (chunk_len 2 rest) rest \<noteq> [] \<Longrightarrow>
      send_loop (drop (chunk_len 2 rest) rest) d s (k', w') = (r, st') \<Longrightarrow> core_left st' \<le> core_left (k', w')"
    using "1.IH" wr by (simp add: encode_into_scratch)
  show ?case
    using "1.prems" wr le IH
    by (cases q) (force simp: send_loop.simps [of rest] encode_into_scratch split: if_splits)+
qed

lemma inquiry_end_left:
  assumes "inquiry_end b q (k, w) = (r, st)"
  shows "core_left st \<le> core_left (k, w)"
proof -
  have "core_left st' \<le> core_left (k, w)" if "inquiry_complete b q (k, w) = (r', st')" for r' st'
    using that invalidate_left [of k w k]
    by (auto simp: inquiry_complete_def inquiry_check_cases core_left_def
          split: if_splits prod.splits async.splits result.splits dest!: sc_write_left_le)
  moreover have "core_left (inquiry_drop q' k', w') \<le> core_left (k', w')" for q' k' w'
    by (simp add: inquiry_drop_def invalidate_left)
  ultimately show ?thesis
    using assms by (auto simp: inquiry_end_def split: prod.splits async.splits intro: order_trans)
qed

lemma inquiry_send_left:
  assumes "inquiry_send bs s q (k, w) = (r, st)"
  shows "core_left st \<le> core_left (k, w)"
proof -
  have loop: "core_left st' \<le> core_left (k, w)"
    if "bindM (send_loop bs (iq_deadline q) s) (\<lambda>_. returnM x) (k, w) = (r', st')" for x r' st'
  proof -
    obtain r1 st1 where sl: "send_loop bs (iq_deadline q) s (k, w) = (r1, st1)" by (meson surj_pair)
    then have "st' = st1" using that by (cases r1) (auto simp: bindM_def returnM_def)
    then show ?thesis using send_loop_left [OF sl] by simp
  qed
  show ?thesis
    using assms invalidate_left [of k w k]
    by (auto simp: inquiry_send_def inquiry_check_cases split: if_splits option.splits dest: loop)
qed

lemma respond_left: "respond p q (k, w) = (r, st) \<Longrightarrow> core_left st \<le> core_left (k, w)"
proof (induction p arbitrary: q k w)
  case (GSend s bs f)
  obtain x k' w' where se: "inquiry_send bs s q (k, w) = (x, (k', w'))"
    by (rule prod_cases3 [of "inquiry_send bs s q (k, w)"])
  have le: "core_left (k', w') \<le> core_left (k, w)" by (rule inquiry_send_left [OF se])
  have dr: "core_left (inquiry_drop q k', w') \<le> core_left (k', w')"
    by (simp add: inquiry_drop_def invalidate_left)
  show ?case
  proof (cases x)
    case (Done q')
    then have "core_left st \<le> core_left (k', w')"
      using GSend.IH [of "f None" q' k' w'] GSend.prems se by simp
    then show ?thesis using le by simp
  next
    case (Fail e)
    then have "core_left st \<le> core_left (k', w')"
      using GSend.IH [of "f (Some e)" q k' w'] GSend.prems se by simp
    then show ?thesis using le by simp
  qed (use GSend.prems se le dr in auto)
next
  case (GComplete b f)
  then show ?case by (auto split: prod.splits async.splits dest!: inquiry_end_left)
qed (auto simp: inquiry_drop_def invalidate_left split: if_splits)

lemma read_nonempty_uses: "read_nonempty s = (Done rcv, s') \<Longrightarrow> core_left s' < core_left s"
proof (induction s rule: read_nonempty.induct)
  case (1 s)
  obtain x k' w' where rd: "sc_read s = (x, (k', w'))" by (rule prod_cases3 [of "sc_read s"])
  obtain k w where s: "s = (k, w)" by force
  show ?case
  proof (cases x)
    case (Done r)
    have less: "core_left (k', w') < core_left s"
      using sc_read_uses [of k w r k' w'] rd s Done by (simp add: core_left_def)
    show ?thesis
    proof (cases "rc_kind r = KEmpty")
      case True
      then have "read_nonempty (k', w') = (Done rcv, s')"
        using "1.prems" rd Done by (simp add: read_nonempty.simps [of s])
      then have "core_left s' < core_left (k', w')" using "1.IH" [OF rd [symmetric] Done] True by simp
      then show ?thesis using less by simp
    next
      case False
      then show ?thesis using "1.prems" rd Done less by (simp add: read_nonempty.simps [of s])
    qed
  qed (use "1.prems" rd in \<open>simp_all add: read_nonempty.simps [of s]\<close>)
qed

lemma checked_deadline_reads: "checked_deadline t w = (d, w') \<Longrightarrow> w_reads w' = w_reads w"
  by (auto simp: checked_deadline_def Let_def split: prod.splits dest!: now_reads)

lemma inquiry_parts_reads: "inquiry_parts alloc rcv k w = (r, w') \<Longrightarrow> w_reads w' = w_reads w"
  by (auto simp: inquiry_parts_def split: result.splits option.splits prod.splits dest!: checked_deadline_reads)

lemma next_event_uses:
  assumes "next_event alloc com (k, w) = (Done (Some ev), com', k', w')"
  shows "core_left (k', w') < core_left (k, w)"
proof -
  have nd: "\<not> sc_dead k" "cm_state (sc_machine k) \<noteq> CInquiry" "com = ComPending"
    using assms by (auto simp: next_event_def sc_check_eq split: if_splits)
  obtain rcv k1 w1 where rd: "read_nonempty (k, w) = (Done rcv, (k1, w1))"
    using assms nd by (auto simp: next_event_def sc_check_eq split: prod.splits async.splits)
  have "core_left (k', w') = core_left (k1, w1)"
    using assms nd rd
    by (auto simp: next_event_def sc_check_eq inquiry_new_def core_left_def left_def Let_def
          split: if_splits prod.splits async.splits result.splits option.splits dest!: inquiry_parts_reads)
  then show ?thesis using read_nonempty_uses [OF rd] by simp
qed

text \<open>\<open>Handshake::drive\<close>, with the number of inquiries answered so far for the handler.\<close>

definition hs_left :: "Handshake \<times> world \<Rightarrow> nat" where
  "hs_left s = (case hs_client (fst s) of None \<Rightarrow> 0 | Some c \<Rightarrow> core_left (cl_core c, snd s))"

lemma hs_next_uses:
  assumes "hs_next alloc s = (Done (Some ev), h', w')"
  shows "hs_left (h', w') < hs_left s"
proof -
  obtain h w where s: "s = (h, w)" by force
  obtain c where c: "hs_error h = None" "hs_client h = Some c"
    using assms s by (auto simp: hs_next_def split: option.splits)
  obtain com k where "next_event alloc (hs_completion h) (cl_core c, w) = (Done (Some ev), com, k, w')"
    and "h' = h\<lparr>hs_client := Some (c\<lparr>cl_core := k\<rparr>), hs_completion := com\<rparr>"
    using assms s c by (auto simp: hs_next_def split: prod.splits)
  then show ?thesis using next_event_uses c s by (auto simp: hs_left_def)
qed

type_synonym greeting_handler = "nat \<Rightarrow> Inquiry \<Rightarrow> greeting_prog"

definition answer_greeting :: "greeting_handler option \<Rightarrow> nat \<Rightarrow> Inquiry \<Rightarrow> unit session" where
  "answer_greeting handler n q =
     (case handler of Some f \<Rightarrow> respond (f n q) q | None \<Rightarrow> inquiry_end True q)"

lemma answer_greeting_left: "answer_greeting handler n q (k, w) = (r, st) \<Longrightarrow> core_left st \<le> core_left (k, w)"
  by (auto simp: answer_greeting_def split: option.splits dest: respond_left inquiry_end_left)

function hs_drive ::
  "(nat \<Rightarrow> bool) \<Rightarrow> greeting_handler option \<Rightarrow> nat \<Rightarrow> Handshake \<times> world \<Rightarrow> (Client, ClientError) async \<times> world" where
  "hs_drive alloc handler n s =
     (case hs_next alloc s of
        (Done None, h, w) \<Rightarrow> (lift_result id (hs_finish h), w)
      | (Done (Some ev), h, w) \<Rightarrow>
          (case ev of
             EvInquire q \<Rightarrow>
               (case hs_client h of
                  None \<Rightarrow> (Abort, w)
                | Some c \<Rightarrow>
                    (case answer_greeting handler n q (cl_core c, w) of
                       (Done _, (k, w)) \<Rightarrow>
                         hs_drive alloc handler (n + 1) (h\<lparr>hs_client := Some (c\<lparr>cl_core := k\<rparr>)\<rparr>, w)
                     | (Fail e, (k, w)) \<Rightarrow> (Fail e, w)
                     | (Abort, (k, w)) \<Rightarrow> (Abort, w)
                     | (Cancelled, (k, w)) \<Rightarrow> (Cancelled, w)))
           | _ \<Rightarrow> hs_drive alloc handler n (h, w))
      | (Fail e, h, w) \<Rightarrow> (Fail e, w)
      | (Abort, h, w) \<Rightarrow> (Abort, w)
      | (Cancelled, h, w) \<Rightarrow> (Cancelled, w))"
  by pat_completeness auto

termination
  by (relation "measure (\<lambda>(alloc, handler, n, s). hs_left s)")
     (auto dest!: hs_next_uses [OF sym] answer_greeting_left [OF sym] simp: hs_left_def)

declare hs_drive.simps [simp del]

definition client_from_stream :: "(nat \<Rightarrow> bool) \<Rightarrow> ClientOptions \<Rightarrow> world \<Rightarrow> (Client, ClientError) async \<times> world" where
  "client_from_stream alloc opts w = hs_drive alloc None 0 (client_handshake opts w)"

text \<open>
  The loop of \<open>collect_transaction\<close>. Its value is what was collected and whether a final
  response ended it. An event that is not consumed is dropped, which matters for an
  inquiry.
\<close>

definition event_drop :: "Event \<Rightarrow> SessionCore \<Rightarrow> SessionCore" where
  "event_drop ev k = (case ev of EvInquire q \<Rightarrow> inquiry_drop q k | _ \<Rightarrow> k)"

type_synonym 'a transaction = "(Completion \<times> SessionCore \<times> world, 'a, ClientError) io"

lemma collect_step_less:
  "(Done (Some ev), com', k', w') = next_event alloc com (k, w) \<Longrightarrow>
   (Done u, st) = inquiry_end b q (k', w') \<Longrightarrow> core_left st < core_left (k, w)"
  by (metis next_event_uses inquiry_end_left le_less_trans)

function collect_loop ::
  "(nat \<Rightarrow> bool) \<Rightarrow> CollectLimits \<Rightarrow> bool \<Rightarrow> Collected \<Rightarrow> (Collected \<times> bool) transaction" where
  "collect_loop alloc limits secret d (com, s) =
     (case next_event alloc com s of
        (Fail e, com, s) \<Rightarrow> (Fail e, (com, s))
      | (Abort, com, s) \<Rightarrow> (Abort, (com, s))
      | (Cancelled, com, s) \<Rightarrow> (Cancelled, (com, s))
      | (Done None, com, s) \<Rightarrow> (Done (d, False), (com, s))
      | (Done (Some ev), com, (k, w)) \<Rightarrow>
          (case usize_checked_add (cd_events d) 1 of
             None \<Rightarrow> (Fail (CeLimit LengthOverflow), (com, (event_drop ev k, w)))
           | Some n \<Rightarrow>
               if n > cx_max_events limits
               then (Fail (CeLimit CapacityExceeded), (com, (event_drop ev k, w)))
               else
                 let d = d\<lparr>cd_events := n\<rparr> in
                 (case ev of
                    EvInquire q \<Rightarrow>
                      (case inquiry_end True q (k, w) of
                         (Done _, s) \<Rightarrow> collect_loop alloc limits secret d (com, s)
                       | (Fail e, s) \<Rightarrow> (Fail e, (com, s))
                       | (Abort, s) \<Rightarrow> (Abort, (com, s))
                       | (Cancelled, s) \<Rightarrow> (Cancelled, (com, s)))
                  | EvFinished _ _ \<Rightarrow> (Done (d, True), (com, (k, w)))
                  | _ \<Rightarrow>
                      (case collect_event limits secret ev d of
                         Ok d \<Rightarrow> collect_loop alloc limits secret d (com, (k, w))
                       | Err e \<Rightarrow> (Fail e, (com, (k, w)))
                       | Panic \<Rightarrow> (Abort, (com, (k, w)))))))"
  by pat_completeness auto

termination
proof (relation "measure (\<lambda>(alloc, limits, secret, d, com, s). core_left s)", goal_cases)
  case 1
  show ?case by simp
qed (auto intro: collect_step_less next_event_uses [OF sym])

declare collect_loop.simps [simp del]

definition collect_transaction ::
  "(nat \<Rightarrow> bool) \<Rightarrow> CollectLimits \<Rightarrow> bool \<Rightarrow> Completion \<Rightarrow> Collected session" where
  "collect_transaction alloc limits secret com s =
     (case s of (k, w) \<Rightarrow>
      case sb_with_capacity alloc (if secret then cx_max_bytes limits else 0) of
        Err e \<Rightarrow> (Fail (CeLimit e), (tx_drop k, w))
      | Panic \<Rightarrow> (Abort, (tx_drop k, w))
      | Ok store \<Rightarrow>
          (case collect_loop alloc limits secret
                  \<lparr>cd_data = [], cd_secret = store, cd_statuses = [], cd_comments = [], cd_events = 0\<rparr>
                  (com, (k, w)) of
             (Fail e, com, (k, w)) \<Rightarrow> (Fail e, (tx_drop k, w))
           | (Abort, com, (k, w)) \<Rightarrow> (Abort, (tx_drop k, w))
           | (Cancelled, com, (k, w)) \<Rightarrow> (Cancelled, (tx_drop k, w))
           | (Done (d, finished), com, (k, w)) \<Rightarrow>
               if finished then
                 (case tx_finish com k of
                    (Ok _, k) \<Rightarrow> (Done d, (k, w))
                  | (Err e, k) \<Rightarrow> (Fail e, (k, w))
                  | (Panic, k) \<Rightarrow> (Abort, (k, w)))
               else (Done d, (tx_drop k, w))))"

definition collect_as :: "Sensitivity \<Rightarrow> (nat \<Rightarrow> bool) \<Rightarrow> ClientOptions \<Rightarrow> Command \<Rightarrow> CollectLimits \<Rightarrow> Collected session" where
  "collect_as sensitivity alloc opts cmd limits =
     bindM (command_with opts cmd sensitivity)
       (\<lambda>com. collect_transaction alloc limits (sensitivity = Secret) com)"

text \<open>The entry points with a fixed classification, and the transaction's view of the next event.\<close>

definition client_command :: "ClientOptions \<Rightarrow> Command \<Rightarrow> Completion session" where
  "client_command opts cmd = command_with opts cmd Public"

definition inquiry_send_data :: "bytes \<Rightarrow> Inquiry \<Rightarrow> Inquiry session" where
  "inquiry_send_data bs = inquiry_send bs Public"

definition inquiry_send_secret :: "SecretRef \<Rightarrow> Inquiry \<Rightarrow> Inquiry session" where
  "inquiry_send_secret r = inquiry_send (sr_expose r) Secret"

definition tx_next ::
  "(nat \<Rightarrow> bool) \<Rightarrow> Completion \<times> SessionCore \<times> world \<Rightarrow> (Event option, ClientError) async \<times> Completion \<times> SessionCore \<times> world" where
  "tx_next alloc s = (case s of (completion, core) \<Rightarrow> next_event alloc completion core)"

definition collect :: "(nat \<Rightarrow> bool) \<Rightarrow> ClientOptions \<Rightarrow> Command \<Rightarrow> CollectLimits \<Rightarrow> Collected session" where
  "collect = collect_as Public"

definition collect_secret :: "(nat \<Rightarrow> bool) \<Rightarrow> ClientOptions \<Rightarrow> Command \<Rightarrow> CollectLimits \<Rightarrow> Collected session" where
  "collect_secret = collect_as Secret"

end
