(* ===== verification/Client_Props.thy ===== *)
theory Client_Props
  imports Client
begin

text \<open>
  What the client API promises, over every environment: events say what the received lines
  say; a session is reusable exactly when its operation ended with a final response; any
  failure, timeout or cancellation poisons it for good (the interpretation
  \<open>client_io\<close> of \<open>fail_stop\<close>); commands and inquiry data reach the wire exactly, or a
  prefix does and the session is dead; collected responses respect their limits.
\<close>

section \<open>Reading events\<close>

lemma receive_empty: "\<not> cm_dead m \<Longrightarrow> cm_receive m KEmpty = (Ok (), m)"
  by (simp add: cm_receive_def cm_dead_def Let_def)

text \<open>
  Taking a line off a byte stream, and taking the next one that is not empty. A read is
  good through such a relation when the line it took parses, the machine accepted it and
  the received record points at its fields.
\<close>

inductive takes_content :: "bytes \<Rightarrow> bytes \<Rightarrow> bytes \<Rightarrow> bool" where
  here: "takes_line bs raw rest \<Longrightarrow> takes_content bs raw rest"
| skip: "takes_line bs [] mid \<Longrightarrow> takes_content mid raw rest \<Longrightarrow> takes_content bs raw rest"

definition read_via ::
  "(bytes \<Rightarrow> bytes \<Rightarrow> bytes \<Rightarrow> bool) \<Rightarrow> SessionCore \<times> world \<Rightarrow> Received \<Rightarrow> SessionCore \<times> world \<Rightarrow> bool" where
  "read_via takes st rcv st' \<longleftrightarrow> (case (st, st') of ((k, w), (k', w')) \<Rightarrow>
     \<not> sc_dead k \<and> \<not> sc_io_uncertain k' \<and> sc_deadline k' = sc_deadline k
     \<and> sc_sensitivity k' = sc_sensitivity k \<and> sc_inquiry_timeout k' = sc_inquiry_timeout k
     \<and> sc_max_inquiry_bytes k' = sc_max_inquiry_bytes k
     \<and> (\<exists>line raw l. received_line (sc_channel k') = Some line \<and> points_at rcv line l
          \<and> line_payload l \<noteq> None \<and> parse_server_line raw = Ok l
          \<and> takes (stream (sc_channel k) w) raw (stream (sc_channel k') w')
          \<and> cm_receive (sc_machine k) (kind l) = (Ok (), sc_machine k')))"

lemma sc_read_spec:
  assumes "sc_inv k" and "reads_ok w"
  obtains r k' w' where "sc_read (k, w) = (r, (k', w'))" "sc_inv k'" "reads_ok w'" "w_sent w' = w_sent w"
    "r \<noteq> Abort" "\<And>rcv. r = Done rcv \<Longrightarrow> read_via takes_line (k, w) rcv (k', w')" "\<not> is_done r \<Longrightarrow> sc_dead k'"
proof -
  obtain r k' w' where rd: "sc_read (k, w) = (r, (k', w'))" by (rule prod_cases3 [of "sc_read (k, w)"])
  note c = sc_read_cases [OF assms, unfolded rd prod.inject]
  have d: "read_via takes_line (k, w) rcv (k', w')" if "r = Done rcv" for rcv
    using c that unfolding read_via_def by auto
  have f: "\<not> is_done r \<Longrightarrow> sc_dead k'" using c by (cases r) auto
  show ?thesis using that [OF rd _ _ _ _ d f] c by blast
qed

lemma read_via_mono:
  "read_via T st rcv st' \<Longrightarrow> (\<And>bs raw rest. T bs raw rest \<Longrightarrow> T' bs raw rest) \<Longrightarrow> read_via T' st rcv st'"
  unfolding read_via_def by (auto split: prod.splits) blast

text \<open>Skipping empty lines leaves the machine where it was.\<close>

lemma empty_line: "parse_server_line raw = Ok l \<Longrightarrow> kind l = KEmpty \<Longrightarrow> raw = []"
  using parse_server_line_shape [of raw l] by (cases l) (auto simp: kind_def)

lemma read_via_skip:
  assumes "read_via takes_line st rcv st1" and "rc_kind rcv = KEmpty" and "read_via takes_content st1 rcv' st2"
  shows "read_via takes_content st rcv' st2"
proof -
  obtain k w k1 w1 k2 w2 where st: "st = (k, w)" "st1 = (k1, w1)" "st2 = (k2, w2)"
    by (cases st; cases st1; cases st2)
  from assms(1) st obtain raw l line where l: "points_at rcv line l" "parse_server_line raw = Ok l"
    "takes_line (stream (sc_channel k) w) raw (stream (sc_channel k1) w1)"
    "cm_receive (sc_machine k) (kind l) = (Ok (), sc_machine k1)"
    unfolding read_via_def by auto
  have e: "kind l = KEmpty" using l(1) assms(2) by (simp add: points_at_def)
  have "\<not> cm_dead (sc_machine k)" using assms(1) st by (simp add: read_via_def sc_dead_def)
  then have m: "sc_machine k1 = sc_machine k" using l(4) e by (simp add: receive_empty)
  have t: "takes_line (stream (sc_channel k) w) [] (stream (sc_channel k1) w1)"
    using l(3) empty_line [OF l(2) e] by simp
  have "takes_content (stream (sc_channel k) w) raw' (stream (sc_channel k2) w2)"
    if "takes_content (stream (sc_channel k1) w1) raw' (stream (sc_channel k2) w2)" for raw'
    by (rule takes_content.skip [OF t that])
  then show ?thesis using assms(1,3) st m unfolding read_via_def by auto
qed

lemma read_nonempty_spec:
  "sc_inv k \<Longrightarrow> reads_ok w \<Longrightarrow>
   \<exists>r k' w'. read_nonempty (k, w) = (r, (k', w')) \<and> sc_inv k' \<and> reads_ok w' \<and> w_sent w' = w_sent w \<and> r \<noteq> Abort
     \<and> (\<forall>rcv. r = Done rcv \<longrightarrow> read_via takes_content (k, w) rcv (k', w') \<and> rc_kind rcv \<noteq> KEmpty)
     \<and> (\<not> is_done r \<longrightarrow> sc_dead k')"
proof (induction "core_left (k, w)" arbitrary: k w rule: less_induct)
  case less
  obtain r k1 w1 where rd: "sc_read (k, w) = (r, (k1, w1))" "sc_inv k1" "reads_ok w1" "w_sent w1 = w_sent w"
    "r \<noteq> Abort" "\<And>rcv. r = Done rcv \<Longrightarrow> read_via takes_line (k, w) rcv (k1, w1)" "\<not> is_done r \<Longrightarrow> sc_dead k1"
    using sc_read_spec [OF less.prems] by metis
  show ?case
  proof (cases "\<exists>rcv. r = Done rcv \<and> rc_kind rcv = KEmpty")
    case True
    then obtain rcv where rcv: "r = Done rcv" "rc_kind rcv = KEmpty" by blast
    have "core_left (k1, w1) < core_left (k, w)"
      using sc_read_uses [of k w rcv k1 w1] rd(1) rcv by (simp add: core_left_def)
    from less.hyps [OF this rd(2,3)] obtain r2 k2 w2 where
      ih: "read_nonempty (k1, w1) = (r2, (k2, w2))" "sc_inv k2" "reads_ok w2" "w_sent w2 = w_sent w1" "r2 \<noteq> Abort"
        "\<forall>rcv. r2 = Done rcv \<longrightarrow> read_via takes_content (k1, w1) rcv (k2, w2) \<and> rc_kind rcv \<noteq> KEmpty"
        "\<not> is_done r2 \<longrightarrow> sc_dead k2" by blast
    have "read_nonempty (k, w) = (r2, (k2, w2))"
      using rd(1) rcv ih(1) by (simp add: read_nonempty.simps [of "(k, w)"])
    then show ?thesis using ih rd(4) read_via_skip [OF rd(6) [OF rcv(1)] rcv(2)] by auto
  next
    case False
    then have "read_nonempty (k, w) = (r, (k1, w1))"
      using rd(1) by (cases r) (auto simp: read_nonempty.simps [of "(k, w)"])
    then show ?thesis using rd False read_via_mono [OF rd(6) takes_content.here] by auto
  qed
qed

section \<open>Inquiries carry their metadata\<close>

lemma with_capacity_line: "sb_with_capacity alloc MAX_LINE_BYTES = Ok m \<Longrightarrow> sb_invar m \<and> sb_expose m = [] \<and> sb_capacity m = MAX_LINE_BYTES"
  by (auto simp: sb_with_capacity_def sb_invar_def sb_expose_def sb_capacity_def MAX_LINE_BYTES_def isize_max_def
        split: if_splits)

lemma get_range_length: "get_range xs lo hi = Some ys \<Longrightarrow> length ys = hi - lo"
  by (auto simp: get_range_def split: if_splits)

definition inquiry_shows :: "Inquiry \<Rightarrow> bytes \<Rightarrow> bytes \<Rightarrow> bool" where
  "inquiry_shows q kw args \<longleftrightarrow> sb_expose (iq_metadata q) = kw @ args \<and> iq_keyword_len q = length kw
     \<and> \<not> iq_completed q \<and> iq_sent q = 0"

lemma inquiry_new_spec:
  assumes "sc_inv k" and "received_line (sc_channel k) = Some line" and "points_at rcv line l"
    and "line_payload l = Some args" and "\<not> sc_dead k"
  shows "\<exists>r k' w'. inquiry_new alloc rcv (k, w) = (r, (k', w')) \<and> r \<noteq> Abort \<and> sc_inv k'
     \<and> w_reads w' = w_reads w \<and> w_sent w' = w_sent w
     \<and> (if is_done r then \<exists>q. r = Done q \<and> k' = k \<and> inquiry_shows q (line_keyword l) args \<and> iq_deadline q \<le> sc_deadline k
        else sc_dead k')"
proof -
  have rng: "get_range line (fst (rc_keyword rcv)) (snd (rc_keyword rcv)) = Some (line_keyword l)"
    "get_range line (fst (rc_payload rcv)) (snd (rc_payload rcv)) = Some args"
    using assms(3,4) by (auto simp: points_at_def)
  have bad: "sc_inv (sc_invalidate k)" using assms(1) by (intro sc_invalidate_inv) (auto simp: sc_inv_def ch_inv_shape)
  obtain p w' where parts: "inquiry_parts alloc rcv k w = (p, w')" by force
  have keep: "w_reads w' = w_reads w \<and> w_sent w' = w_sent w"
    using parts
    by (auto simp: inquiry_parts_def checked_deadline_def now_def Let_def
          split: result.splits option.splits prod.splits list.splits)
  have "p \<noteq> Panic \<and> (\<forall>m d. p = Ok (m, d) \<longrightarrow> sb_expose m = line_keyword l @ args \<and> d \<le> sc_deadline k)"
  proof (cases "sb_with_capacity alloc MAX_LINE_BYTES")
    case (Ok m0)
    note m0 = with_capacity_line [OF Ok]
    from secret.extend_step [of m0 "line_keyword l"] m0 consider
      m1 where "sb_extend_from_slice m0 (line_keyword l) = (Ok (), m1)" "sb_invar m1" "sb_expose m1 = line_keyword l"
      | e where "sb_extend_from_slice m0 (line_keyword l) = (Err e, m0)" by auto
    then show ?thesis
    proof cases
      case (1 m1)
      from secret.extend_step [OF 1(2), of args] 1(3) consider
        m2 where "sb_extend_from_slice m1 args = (Ok (), m2)" "sb_expose m2 = line_keyword l @ args"
        | e where "sb_extend_from_slice m1 args = (Err e, m1)" by auto
      then show ?thesis
      proof cases
        case (1 m2)
        then show ?thesis
          using parts Ok rng assms(2) \<open>sb_extend_from_slice m0 (line_keyword l) = (Ok (), m1)\<close>
          by (auto simp: inquiry_parts_def split: option.splits prod.splits)
      next
        case (2 e)
        then show ?thesis
          using parts Ok rng assms(2) \<open>sb_extend_from_slice m0 (line_keyword l) = (Ok (), m1)\<close>
          by (auto simp: inquiry_parts_def)
      qed
    next
      case (2 e)
      then show ?thesis using parts Ok rng assms(2) by (auto simp: inquiry_parts_def)
    qed
  next
    case (Err e)
    then show ?thesis using parts by (auto simp: inquiry_parts_def)
  next
    case Panic
    then show ?thesis by (simp add: sb_with_capacity_def split: if_splits)
  qed
  note spec = this
  show ?thesis
  proof (cases p)
    case (Ok md)
    obtain m d where md: "md = (m, d)" by force
    then show ?thesis
      using parts keep Ok spec assms(1,5) get_range_length [OF rng(1)]
      by (simp add: inquiry_new_def inquiry_shows_def)
  next
    case (Err e)
    then show ?thesis using parts keep bad by (simp add: inquiry_new_def)
  qed (use spec in simp)
qed

section \<open>Events say what the lines say\<close>

definition event_says :: "Event \<Rightarrow> ServerLine \<Rightarrow> Sensitivity \<Rightarrow> bool" where
  "event_says ev l s =
     (case l of
        LineOk t \<Rightarrow> ev = EvFinished None (payload_of t s)
      | LineErr code t \<Rightarrow> ev = EvFinished (Some code) (payload_of t s)
      | LineData d \<Rightarrow> (case decode d of Some bs \<Rightarrow> ev = EvData (payload_of bs s) | None \<Rightarrow> False)
      | LineStatus kw a \<Rightarrow> ev = EvStatus kw (payload_of a s)
      | LineInquire kw a \<Rightarrow> (case ev of EvInquire q \<Rightarrow> inquiry_shows q kw a | _ \<Rightarrow> False)
      | LineEnd \<Rightarrow> ev = EvEnd
      | LineComment t \<Rightarrow> ev = EvComment (payload_of t s)
      | LineEmpty \<Rightarrow> False)"

definition completion_after :: "ServerLine \<Rightarrow> Completion" where
  "completion_after l = (case l of LineOk _ \<Rightarrow> ComSuccess | LineErr code _ \<Rightarrow> ComRemote code | _ \<Rightarrow> ComPending)"

lemma event_of_says:
  assumes "parse_server_line raw = Ok l" and "points_at rcv line l" and "line_payload l \<noteq> None"
    and "kind l \<noteq> KEmpty" and "kind l \<noteq> KInquire"
  shows "\<exists>ev. event_of rcv line s = Ok ev \<and> event_says ev l s"
proof -
  have "utf8_valid kw" if "keyword kw" for kw using that by (simp add: keyword_def token_utf8)
  then show ?thesis
    using assms parse_server_line_shape [OF assms(1)]
    by (cases l)
       (auto simp: points_at_def event_of_def event_says_def kind_def line_payload_def line_keyword_def line_code_def
          Let_def)
qed

definition event_ok :: "SessionCore \<times> world \<Rightarrow> Event \<Rightarrow> Completion \<Rightarrow> SessionCore \<times> world \<Rightarrow> bool" where
  "event_ok st ev com' st' \<longleftrightarrow> (case (st, st') of ((k, w), (k', w')) \<Rightarrow>
     \<not> sc_dead k \<and> \<not> sc_io_uncertain k' \<and> sc_deadline k' = sc_deadline k
     \<and> sc_max_inquiry_bytes k' = sc_max_inquiry_bytes k \<and> sc_sensitivity k' = sc_sensitivity k
     \<and> (\<exists>raw l. takes_content (stream (sc_channel k) w) raw (stream (sc_channel k') w')
          \<and> parse_server_line raw = Ok l \<and> event_says ev l (sc_sensitivity k)
          \<and> com' = completion_after l \<and> cm_receive (sc_machine k) (kind l) = (Ok (), sc_machine k')))"

lemma receive_alive: "cm_receive m k = (Ok (), m') \<Longrightarrow> \<not> cm_dead m'"
  by (auto simp: client_machine_defs cm_dead_def Let_def split: if_splits)

lemma next_event_cases:
  assumes "sc_inv k" and "reads_ok w"
  shows "\<exists>r com' k' w'. next_event alloc com (k, w) = (r, com', k', w') \<and> sc_inv k' \<and> reads_ok w'
    \<and> w_sent w' = w_sent w \<and> r \<noteq> Abort \<and> (\<not> is_done r \<longrightarrow> sc_dead k')
    \<and> (r = Done None \<longrightarrow> com \<noteq> ComPending \<and> com' = com \<and> k' = k \<and> w' = w \<and> \<not> sc_dead k)
    \<and> (\<forall>ev. r = Done (Some ev) \<longrightarrow> com = ComPending \<and> event_ok (k, w) ev com' (k', w'))"
proof -
  have bad: "sc_inv (sc_invalidate k)" using assms(1) by (intro sc_invalidate_inv) (auto simp: sc_inv_def ch_inv_shape)
  consider "sc_dead k" | "\<not> sc_dead k" "cm_state (sc_machine k) = CInquiry"
    | "\<not> sc_dead k" "cm_state (sc_machine k) \<noteq> CInquiry" "com \<noteq> ComPending"
    | "\<not> sc_dead k" "cm_state (sc_machine k) \<noteq> CInquiry" "com = ComPending" by blast
  then show ?thesis
  proof cases
    case 4
    obtain r k1 w1 where rd: "read_nonempty (k, w) = (r, (k1, w1))" "sc_inv k1" "reads_ok w1" "w_sent w1 = w_sent w"
      "r \<noteq> Abort" "\<And>rcv. r = Done rcv \<Longrightarrow> read_via takes_content (k, w) rcv (k1, w1) \<and> rc_kind rcv \<noteq> KEmpty"
      "\<not> is_done r \<Longrightarrow> sc_dead k1"
      using read_nonempty_spec [OF assms] by blast
    show ?thesis
    proof (cases r)
      case (Done rcv)
      from rd(6) [OF Done] have via: "read_via takes_content (k, w) rcv (k1, w1)" "rc_kind rcv \<noteq> KEmpty" by auto
      from via(1) obtain line raw l where l: "received_line (sc_channel k1) = Some line" "points_at rcv line l"
        "line_payload l \<noteq> None" "parse_server_line raw = Ok l"
        "takes_content (stream (sc_channel k) w) raw (stream (sc_channel k1) w1)"
        "cm_receive (sc_machine k) (kind l) = (Ok (), sc_machine k1)"
        and same: "\<not> sc_io_uncertain k1" "sc_deadline k1 = sc_deadline k" "sc_sensitivity k1 = sc_sensitivity k"
        "sc_max_inquiry_bytes k1 = sc_max_inquiry_bytes k"
        unfolding read_via_def by auto
      have alive: "\<not> sc_dead k1" using receive_alive [OF l(6)] same(1) by (simp add: sc_dead_def)
      have kind: "rc_kind rcv = kind l" "rc_code rcv = line_code l" using l(2) by (auto simp: points_at_def)
      have nonempty: "kind l \<noteq> KEmpty" using kind via(2) by simp
      have com: "(if rc_kind rcv \<in> {KOk, KErr}
            then (case rc_code rcv of None \<Rightarrow> ComSuccess | Some code \<Rightarrow> ComRemote code) else com) = completion_after l"
        using kind 4(3) by (cases l) (auto simp: kind_def line_code_def completion_after_def)
      show ?thesis
      proof (cases "kind l = KInquire")
        case True
        obtain kw args where li: "l = LineInquire kw args" using True by (cases l) (auto simp: kind_def)
        obtain q k2 w2 where iq: "inquiry_new alloc rcv (k1, w1) = (q, (k2, w2))"
          by (rule prod_cases3 [of "inquiry_new alloc rcv (k1, w1)"])
        have "line_payload l = Some args" "line_keyword l = kw" by (auto simp: li line_payload_def line_keyword_def)
        with inquiry_new_spec [OF rd(2) l(1,2) _ alive, of args alloc w1] iq
        have q: "q \<noteq> Abort" "sc_inv k2" "w_reads w2 = w_reads w1" "w_sent w2 = w_sent w1"
          "if is_done q then \<exists>i. q = Done i \<and> k2 = k1 \<and> inquiry_shows i kw args else sc_dead k2"
          by (auto split: if_splits)
        have "reads_ok w2" "stream (sc_channel k1) w2 = stream (sc_channel k1) w1"
          using q(3) rd(3) by (simp_all add: reads_ok_def stream_def)
        then show ?thesis
          using 4 rd(1,4) Done True iq q kind com li l same
          by (cases q) (auto simp: next_event_def sc_check_eq Let_def event_ok_def event_says_def)
      next
        case False
        from event_of_says [OF l(4,2,3) nonempty False, of "sc_sensitivity k"] obtain ev where
          ev: "event_of rcv line (sc_sensitivity k) = Ok ev" "event_says ev l (sc_sensitivity k)" by blast
        then show ?thesis
          using 4 rd(1-4) Done False kind com l same
          by (auto simp: next_event_def sc_check_eq Let_def event_ok_def)
      qed
    qed (use 4 rd in \<open>auto simp: next_event_def sc_check_eq\<close>)
  qed (use assms bad in \<open>auto simp: next_event_def sc_check_eq\<close>)
qed

section \<open>Answering inquiries\<close>

definition data_wire :: "bytes \<Rightarrow> bytes" where
  "data_wire bs = concat (map (\<lambda>body. body @ [LF]) (data.bodies bs))"

text \<open>What a write can do: everything was sent, or the session is dead and a prefix was.\<close>

definition sends :: "bytes \<Rightarrow> SessionCore \<times> world \<Rightarrow> ('a, ClientError) async \<Rightarrow> SessionCore \<times> world \<Rightarrow> bool" where
  "sends bs st r st' \<longleftrightarrow> (case (st, st') of ((k, w), (k', w')) \<Rightarrow>
     sc_inv k' \<and> reads_ok w' \<and> w_reads w' = w_reads w \<and> r \<noteq> Abort
     \<and> (if is_done r then \<not> sc_dead k \<and> \<not> sc_dead k' \<and> w_sent w' = w_sent w @ bs
        else sc_dead k' \<and> (\<exists>n \<le> length bs. w_sent w' = w_sent w @ take n bs)))"

lemma sends_nothing: "sc_inv k' \<Longrightarrow> reads_ok w \<Longrightarrow> sc_dead k' \<Longrightarrow> sends bs (k, w) (Fail e) (k', w)"
  by (auto simp: sends_def intro: exI [of _ 0])

lemma sends_fail_append:
  assumes "sends bs st r st'" and "\<not> is_done r"
  shows "sends (bs @ bs2) st r st'"
proof -
  have "\<exists>m \<le> length (bs @ bs2). xs = ys @ take m (bs @ bs2)" if "n \<le> length bs" "xs = ys @ take n bs" for n xs ys
    using that by (intro exI [of _ n]) simp
  then show ?thesis using assms by (auto simp: sends_def split: prod.splits)
qed

lemma sends_append:
  assumes "sends bs st r st1" and "is_done r" and "sends bs2 st1 r' st2"
  shows "sends (bs @ bs2) st r' st2"
proof -
  obtain k w k1 w1 k2 w2 where st: "st = (k, w)" "st1 = (k1, w1)" "st2 = (k2, w2)" by (cases st; cases st1; cases st2)
  have a: "\<not> sc_dead k" "w_reads w1 = w_reads w" "w_sent w1 = w_sent w @ bs"
    using assms(1,2) by (auto simp: sends_def st)
  have "\<exists>n \<le> length (bs @ bs2). w_sent w2 = w_sent w @ take n (bs @ bs2)"
    if "m \<le> length bs2" "w_sent w2 = w_sent w1 @ take m bs2" for m
    using that a by (intro exI [of _ "length bs + m"]) simp
  then show ?thesis using assms(3) a by (auto simp: sends_def st)
qed

lemma sc_write_sends:
  assumes "sc_inv k" and "reads_ok w"
  shows "\<exists>r k' w'. sc_write_at bs d s (k, w) = (r, (k', w')) \<and> sends bs (k, w) r (k', w') \<and> (is_done r \<longrightarrow> k' = k)"
  using sc_write_cases [OF assms, of bs d s] by (auto simp: sends_def split: if_splits)

lemma send_loop_sends:
  "sc_inv k \<Longrightarrow> reads_ok w \<Longrightarrow>
   \<exists>r k' w'. send_loop rest d s (k, w) = (r, (k', w')) \<and> sends (data_wire rest) (k, w) r (k', w') \<and> (is_done r \<longrightarrow> k' = k)"
proof (induction rest arbitrary: w rule: data.bodies.induct)
  case (1 rest)
  let ?line = "data_body rest @ [LF]"
  let ?rest = "drop (chunk_len 2 rest) rest"
  have line: "take (Suc (length (data_body rest)))
      (data_body rest @ LF # drop (Suc (length (data_body rest))) (replicate MAX_LINE_BYTES 0)) = ?line" by simp
  have wire: "data_wire rest = ?line @ (if ?rest = [] then [] else data_wire ?rest)"
    by (simp add: data_wire_def data.bodies.simps [of rest])
  obtain r k1 w1 where wr: "sc_write_at ?line d s (k, w) = (r, (k1, w1))" "sends ?line (k, w) r (k1, w1)"
    "is_done r \<Longrightarrow> k1 = k" using sc_write_sends [OF "1.prems"] by blast
  show ?case
  proof (cases "is_done r \<and> ?rest \<noteq> []")
    case True
    then have k1: "k1 = k" "reads_ok w1" using wr by (auto simp: sends_def)
    from "1.IH" [OF _ "1.prems"(1) k1(2)] True obtain r2 k2 w2 where
      ih: "send_loop ?rest d s (k, w1) = (r2, (k2, w2))" "sends (data_wire ?rest) (k, w1) r2 (k2, w2)"
        "is_done r2 \<longrightarrow> k2 = k" by auto
    have "send_loop rest d s (k, w) = (r2, (k2, w2))"
      using True wr(1) k1(1) ih(1) by (cases r) (simp_all add: send_loop.simps [of rest] encode_into_scratch)
    moreover have "sends (data_wire rest) (k, w) r2 (k2, w2)"
      using sends_append [OF wr(2)] True ih(2) k1(1) wire by simp
    ultimately show ?thesis using ih(3) by blast
  next
    case False
    have "send_loop rest d s (k, w) = (r, (k1, w1))"
      using False wr(1) by (cases r) (auto simp: send_loop.simps [of rest] encode_into_scratch)
    moreover have "sends (data_wire rest) (k, w) r (k1, w1)"
    proof (cases "is_done r")
      case True
      then show ?thesis using False wr(2) wire by simp
    next
      case False
      then show ?thesis using sends_fail_append [OF wr(2)] wire by simp
    qed
    ultimately show ?thesis using wr(3) by blast
  qed
qed

lemma inquiry_send_spec:
  assumes "sc_inv k" and "reads_ok w"
  shows "\<exists>r k' w'. inquiry_send bs s q (k, w) = (r, (k', w')) \<and> sends (data_wire bs) (k, w) r (k', w')
     \<and> (\<forall>q'. r = Done q' \<longrightarrow> k' = k \<and> cm_state (sc_machine k) = CInquiry \<and> q' = q\<lparr>iq_sent := iq_sent q + length bs\<rparr>
          \<and> iq_sent q' \<le> sc_max_inquiry_bytes k)"
proof -
  have bad: "sc_inv (sc_invalidate k)" using assms(1) by (intro sc_invalidate_inv) (auto simp: sc_inv_def ch_inv_shape)
  note no = sends_nothing [OF bad assms(2) sc_invalidate_dead, of "data_wire bs" k]
  obtain r k' w' where sl: "send_loop bs (iq_deadline q) s (k, w) = (r, (k', w'))"
    "sends (data_wire bs) (k, w) r (k', w')" "is_done r \<longrightarrow> k' = k" using send_loop_sends [OF assms] by blast
  consider "sc_dead k \<or> cm_state (sc_machine k) \<noteq> CInquiry"
    | "iq_sent q + length bs > usize_max"
    | "\<not> sc_dead k" "cm_state (sc_machine k) = CInquiry" "iq_sent q + length bs > sc_max_inquiry_bytes k"
    | "\<not> sc_dead k" "cm_state (sc_machine k) = CInquiry" "iq_sent q + length bs \<le> sc_max_inquiry_bytes k"
      "iq_sent q + length bs \<le> usize_max"
    by (meson not_le)
  then show ?thesis
  proof cases
    case 4
    then show ?thesis
      using sl by (cases r) (auto simp: inquiry_send_def inquiry_check_cases usize_checked_add_def bindM_def returnM_def sends_def)
  qed (use no in \<open>auto simp: inquiry_send_def inquiry_check_cases usize_checked_add_def split: if_splits\<close>)
qed

lemma invalidate_inv: "sc_inv k \<Longrightarrow> sc_inv (sc_invalidate k)"
  by (intro sc_invalidate_inv) (auto simp: sc_inv_def ch_inv_shape)

lemma sends_dropped:
  assumes "sends bs st r (k, w)" and "\<not> is_done r"
  shows "sends bs st r (inquiry_drop q k, w)"
  using assms by (auto simp: sends_def inquiry_drop_def invalidate_inv split: prod.splits)

definition end_line :: "bool \<Rightarrow> bytes" where
  "end_line cancelled = (if cancelled then lit ''CAN'' else lit ''END'') @ [LF]"

lemma finish_inquiry_alive:
  "cm_good m \<Longrightarrow> cm_state m = CInquiry \<Longrightarrow>
   \<exists>m'. cm_finish_inquiry m b = (Ok (), m') \<and> cm_good m' \<and> \<not> cm_dead m'"
  by (auto simp: cm_finish_inquiry_def cm_good_def cm_dead_def)

lemma inquiry_end_spec:
  assumes "sc_inv k" and "reads_ok w"
  shows "\<exists>r k' w'. inquiry_end b q (k, w) = (r, (k', w')) \<and> sends (end_line b) (k, w) r (k', w')
     \<and> (is_done r \<longrightarrow> cm_state (sc_machine k) = CInquiry
          \<and> (\<exists>m. cm_finish_inquiry (sc_machine k) b = (Ok (), m) \<and> k' = k\<lparr>sc_machine := m\<rparr>))"
proof (cases "sc_dead k \<or> cm_state (sc_machine k) \<noteq> CInquiry")
  case True
  have "sends (end_line b) (k, w) (Fail e) (inquiry_drop q (sc_invalidate k), w)" for e :: ClientError
    by (rule sends_dropped [OF sends_nothing]) (simp_all add: invalidate_inv assms)
  then show ?thesis using True by (auto simp: inquiry_end_def inquiry_complete_def inquiry_check_cases)
next
  case False
  obtain r k1 w1 where wr: "sc_write_at (end_line b) (iq_deadline q) (sc_sensitivity k) (k, w) = (r, (k1, w1))"
    "sends (end_line b) (k, w) r (k1, w1)" "is_done r \<longrightarrow> k1 = k" using sc_write_sends [OF assms] by blast
  have good: "cm_good (sc_machine k)" using assms(1) by (simp add: sc_inv_def)
  from finish_inquiry_alive [OF good] False obtain m where
    m: "cm_finish_inquiry (sc_machine k) b = (Ok (), m)" "cm_good m" "\<not> cm_dead m" by blast
  show ?thesis
  proof (cases "is_done r")
    case True
    then have "r = Done ()" "k1 = k" using wr(3) by (auto simp: is_done_def split: async.splits)
    then show ?thesis
      using False wr m assms(1)
      by (auto simp: inquiry_end_def inquiry_complete_def inquiry_check_cases end_line_def sends_def inquiry_drop_def
            sc_inv_def sc_dead_def)
  next
    case F: False
    have "inquiry_end b q (k, w) = (case r of Fail e \<Rightarrow> Fail e | _ \<Rightarrow> Cancelled, (inquiry_drop q k1, w1))"
      using False F wr by (cases r)
        (auto simp: inquiry_end_def inquiry_complete_def inquiry_check_cases end_line_def sends_def)
    moreover have "(case r of Fail e \<Rightarrow> Fail e | _ \<Rightarrow> Cancelled) = r"
      using F wr(2) by (cases r) (auto simp: sends_def)
    ultimately show ?thesis using sends_dropped [OF wr(2) F] F by auto
  qed
qed

section \<open>A client session fails for good\<close>

text \<open>
  Every operation of the API on a session, with whatever guard values it is applied to:
  more programs than the borrow checker admits.
\<close>

datatype client_op =
    OpRead
  | OpWrite bytes nat Sensitivity
  | OpNext Completion
  | OpSend Inquiry Sensitivity bytes
  | OpEnd Inquiry bool

fun client_op_step :: "(nat \<Rightarrow> bool) \<Rightarrow> client_op \<Rightarrow> SessionCore \<times> world \<Rightarrow> bool \<times> SessionCore \<times> world" where
  "client_op_step alloc OpRead st = (case sc_read st of (r, st') \<Rightarrow> (is_done r, st'))"
| "client_op_step alloc (OpWrite bs d s) st = (case sc_write_at bs d s st of (r, st') \<Rightarrow> (is_done r, st'))"
| "client_op_step alloc (OpNext com) st = (case next_event alloc com st of (r, _, st') \<Rightarrow> (is_done r, st'))"
| "client_op_step alloc (OpSend q s bs) st = (case inquiry_send bs s q st of (r, st') \<Rightarrow> (is_done r, st'))"
| "client_op_step alloc (OpEnd q cancelled) st = (case inquiry_end cancelled q st of (r, st') \<Rightarrow> (is_done r, st'))"

definition session_inv :: "SessionCore \<times> world \<Rightarrow> bool" where
  "session_inv st \<longleftrightarrow> sc_inv (fst st) \<and> reads_ok (snd st)"

lemma sends_keeps: "sends bs st r st' \<Longrightarrow> session_inv st'"
  by (auto simp: sends_def session_inv_def split: prod.splits)

lemma sends_fails: "sends bs st r (k', w') \<Longrightarrow> \<not> is_done r \<Longrightarrow> sc_dead k'"
  by (auto simp: sends_def split: prod.splits)

lemma client_op_step_spec:
  assumes "session_inv (k, w)" and "client_op_step alloc a (k, w) = (ok, (k', w'))"
  shows "session_inv (k', w') \<and> (\<not> ok \<longrightarrow> sc_dead k')"
proof -
  have inv: "sc_inv k" "reads_ok w" using assms(1) by (auto simp: session_inv_def)
  show ?thesis
  proof (cases a)
    case OpRead
    obtain r k1 w1 where "sc_read (k, w) = (r, (k1, w1))" "sc_inv k1" "reads_ok w1" "\<not> is_done r \<Longrightarrow> sc_dead k1"
      using sc_read_spec [OF inv] by metis
    then show ?thesis using assms(2) OpRead by (auto simp: session_inv_def)
  next
    case (OpWrite bs d s)
    then show ?thesis using assms(2) sc_write_sends [OF inv, of bs d s] sends_keeps sends_fails by fastforce
  next
    case (OpNext com)
    then show ?thesis using assms(2) next_event_cases [OF inv, of alloc com] by (auto simp: session_inv_def)
  next
    case (OpSend q s bs)
    then show ?thesis using assms(2) inquiry_send_spec [OF inv, of bs s q] sends_keeps sends_fails by fastforce
  next
    case (OpEnd q b)
    then show ?thesis using assms(2) inquiry_end_spec [OF inv, of b q] sends_keeps sends_fails by fastforce
  qed
qed

interpretation client_io: fail_stop session_inv sc_dead "client_op_step alloc" for alloc
proof (unfold_locales, goal_cases)
  case (1 st a)
  obtain k w where st: "st = (k, w)" by force
  obtain ok k' w' where s: "client_op_step alloc a (k, w) = (ok, (k', w'))"
    by (rule prod_cases3 [of "client_op_step alloc a (k, w)"])
  show ?case using client_op_step_spec [OF 1 [unfolded st] s] s st by simp
next
  case (2 k w a ok k' w')
  then show ?case
    by (cases a) (auto simp: sc_dead_refuses next_event_def sc_check_eq inquiry_send_def inquiry_check_cases
          inquiry_end_def inquiry_complete_def inquiry_drop_def)
next
  case (3 k w a ok k' w')
  then show ?case using client_op_step_spec by blast
qed

section \<open>Commands\<close>

lemma ready_receive: "cm_state m = CReady \<Longrightarrow> cm_receive m e = (Ok (), m') \<Longrightarrow> m' = m \<and> e \<in> {KComment, KEmpty}"
  by (auto simp: cm_receive_def Let_def split: if_splits)

text \<open>Lines that may be taken between two commands: comments and empty lines.\<close>

inductive drains :: "bytes \<Rightarrow> bytes \<Rightarrow> bool" where
  none [intro!]: "drains bs bs"
| one: "takes_line bs raw mid \<Longrightarrow> parse_server_line raw = Ok l \<Longrightarrow> kind l \<in> {KComment, KEmpty} \<Longrightarrow> drains mid rest \<Longrightarrow> drains bs rest"

lemma drain_buffered_spec:
  "sc_inv k \<Longrightarrow> reads_ok w \<Longrightarrow> \<not> sc_dead k \<Longrightarrow> cm_state (sc_machine k) = CReady \<Longrightarrow>
   \<exists>r k' w'. drain_buffered (k, w) = (r, (k', w')) \<and> sc_inv k' \<and> reads_ok w' \<and> w_sent w' = w_sent w \<and> r \<noteq> Abort
     \<and> (if is_done r then \<not> sc_dead k' \<and> sc_machine k' = sc_machine k \<and> \<not> has_buffered_input (sc_channel k')
          \<and> drains (stream (sc_channel k) w) (stream (sc_channel k') w')
        else sc_dead k')"
proof (induction "core_left (k, w)" arbitrary: k w rule: less_induct)
  case less
  show ?case
  proof (cases "has_buffered_input (sc_channel k)")
    case True
    obtain r k1 w1 where rd: "sc_read (k, w) = (r, (k1, w1))" "sc_inv k1" "reads_ok w1" "w_sent w1 = w_sent w"
      "r \<noteq> Abort" "\<And>rcv. r = Done rcv \<Longrightarrow> read_via takes_line (k, w) rcv (k1, w1)" "\<not> is_done r \<Longrightarrow> sc_dead k1"
      using sc_read_spec [OF less.prems(1,2)] by metis
    show ?thesis
    proof (cases r)
      case (Done rcv)
      from rd(6) [OF Done] obtain l raw where l: "cm_receive (sc_machine k) (kind l) = (Ok (), sc_machine k1)"
        "\<not> sc_io_uncertain k1" "takes_line (stream (sc_channel k) w) raw (stream (sc_channel k1) w1)" "parse_server_line raw = Ok l"
        by (auto simp: read_via_def)
      have m: "sc_machine k1 = sc_machine k" and kind: "kind l \<in> {KComment, KEmpty}"
        using ready_receive [OF less.prems(4) l(1)] by auto
      have alive: "\<not> sc_dead k1" using l(2) m less.prems(3) by (simp add: sc_dead_def)
      have "core_left (k1, w1) < core_left (k, w)"
        using sc_read_uses [of k w rcv k1 w1] rd(1) Done by (simp add: core_left_def)
      note ih = less.hyps [OF this rd(2,3) alive, unfolded m rd(4), OF less.prems(4)]
      have eq: "drain_buffered (k, w) = drain_buffered (k1, w1)"
        using True rd(1) Done by (simp add: drain_buffered.simps [of "(k, w)"])
      show ?thesis unfolding eq using ih drains.one [OF l(3,4) kind] by (metis (no_types))
    qed (use True rd in \<open>auto simp: drain_buffered.simps [of "(k, w)"]\<close>)
  next
    case False
    then show ?thesis using less.prems by (auto simp: drain_buffered.simps [of "(k, w)"])
  qed
qed

lemma co_deadline_keeps:
  assumes "co_deadline t w = (d, w')"
  shows "w_reads w' = w_reads w \<and> w_sent w' = w_sent w \<and> w_instant_max w' = w_instant_max w \<and> d \<noteq> Panic
     \<and> (\<forall>e. d = Err e \<longrightarrow> e = CeInvalidOptions)"
  using assms now_keeps [of w]
  by (cases "now w") (auto simp: co_deadline_def checked_deadline_def Let_def split: if_splits)

definition command_line :: "Command \<Rightarrow> bytes" where
  "command_line c = command_body c @ [LF]"

lemma encode_command_scratch:
  "encode_command c (replicate MAX_LINE_BYTES 0) =
     (if wire_line (command_body c)
      then (Ok (length (command_line c)), command_line c @ drop (length (command_line c)) (replicate MAX_LINE_BYTES 0))
      else (fst (encode_command c (replicate MAX_LINE_BYTES 0)), replicate MAX_LINE_BYTES 0))
   \<and> (wire_line (command_body c) \<or> (\<exists>e. fst (encode_command c (replicate MAX_LINE_BYTES 0)) = Err e))"
  using encode_command_encodes [of "replicate MAX_LINE_BYTES 0" c]
  by (auto simp: encodes_def writes_def command_line_def)

text \<open>The part of sending a command that touches the stream: once it fits and has its deadline.\<close>

lemma command_io_spec:
  assumes inv: "sc_inv k" and ok: "reads_ok w" and alive: "\<not> sc_dead k" "cm_state (sc_machine k) = CReady"
  shows "\<exists>r k' w'. bindM drain_buffered (\<lambda>_ (k, w).
            let k = k\<lparr>sc_sensitivity := s\<rparr> in
            (case cm_begin_command (sc_machine k) of
               (Err e, m) \<Rightarrow> (Fail (CeState e), (k\<lparr>sc_machine := m\<rparr>, w))
             | (Panic, m) \<Rightarrow> (Abort, (k\<lparr>sc_machine := m\<rparr>, w))
             | (Ok _, m) \<Rightarrow> bindM (sc_write bs) (\<lambda>_. returnM ComPending) (k\<lparr>sc_machine := m\<rparr>, w))) (k, w) = (r, (k', w'))
     \<and> sc_inv k' \<and> reads_ok w' \<and> r \<noteq> Abort
     \<and> (if is_done r then r = Done ComPending \<and> w_sent w' = w_sent w @ bs \<and> \<not> sc_dead k' \<and> cm_state (sc_machine k') = CCommand
          \<and> sc_sensitivity k' = s \<and> drains (stream (sc_channel k) w) (stream (sc_channel k') w')
        else sc_dead k' \<and> (\<exists>n \<le> length bs. w_sent w' = w_sent w @ take n bs))" (is "\<exists>r k' w'. ?run = _ \<and> _")
proof -
  from drain_buffered_spec [OF inv ok alive] obtain r k2 w2 where
    dr: "drain_buffered (k, w) = (r, (k2, w2))" "sc_inv k2" "reads_ok w2" "w_sent w2 = w_sent w" "r \<noteq> Abort"
      "if is_done r then \<not> sc_dead k2 \<and> sc_machine k2 = sc_machine k
         \<and> drains (stream (sc_channel k) w) (stream (sc_channel k2) w2) else sc_dead k2" by (auto split: if_splits)
  show ?thesis
  proof (cases "is_done r")
    case False
    then show ?thesis using dr by (cases r) (auto simp: bindM_def intro: exI [of _ 0])
  next
    case True
    let ?k2 = "k2\<lparr>sc_sensitivity := s, sc_machine := (sc_machine k)\<lparr>cm_state := CCommand\<rparr>\<rparr>"
    have k2: "sc_machine k2 = sc_machine k" "\<not> sc_io_uncertain k2" using dr(6) True by (auto simp: sc_dead_def)
    have inv2: "sc_inv ?k2" using dr(2) k2(1) by (simp add: sc_inv_def cm_good_def)
    obtain r3 k3 w3 where wr: "sc_write_at bs (sc_deadline ?k2) s (?k2, w2) = (r3, (k3, w3))"
      "sends bs (?k2, w2) r3 (k3, w3)" "is_done r3 \<longrightarrow> k3 = ?k2"
      using sc_write_sends [OF inv2 dr(3)] by blast
    have "?run = bindM (sc_write bs) (\<lambda>_. returnM ComPending) (?k2, w2)"
      using dr(1) True k2(1) alive(2) by (cases r) (simp_all add: bindM_def cm_begin_command_def)
    then have res: "?run = (case r3 of Done _ \<Rightarrow> Done ComPending | Fail e \<Rightarrow> Fail e | Abort \<Rightarrow> Abort | Cancelled \<Rightarrow> Cancelled, (k3, w3))"
      using wr(1) by (cases r3) (simp_all add: bindM_def sc_write_def returnM_def)
    show ?thesis unfolding res using wr(2,3) dr(4,6) True by (cases r3) (auto simp: sends_def stream_def)
  qed
qed

lemma command_with_spec:
  assumes inv: "sc_inv k" and ok: "reads_ok w"
  shows "\<exists>r k' w'. command_with opts cmd s (k, w) = (r, (k', w')) \<and> sc_inv k' \<and> reads_ok w' \<and> r \<noteq> Abort
     \<and> (\<forall>com. r = Done com \<longrightarrow> com = ComPending \<and> wire_line (command_body cmd) \<and> cm_state (sc_machine k) = CReady
          \<and> w_sent w' = w_sent w @ command_line cmd \<and> \<not> sc_dead k \<and> \<not> sc_dead k'
          \<and> cm_state (sc_machine k') = CCommand \<and> sc_sensitivity k' = s
          \<and> drains (stream (sc_channel k) w) (stream (sc_channel k') w'))
     \<and> (\<not> is_done r \<longrightarrow> sc_dead k' \<and> (\<exists>n \<le> length (command_line cmd). w_sent w' = w_sent w @ take n (command_line cmd))
          \<or> k' = k \<and> w_sent w' = w_sent w \<and> w_reads w' = w_reads w
            \<and> (r = Fail CeInvalidOptions \<or> (\<exists>e. r = Fail (CeProtocol e) \<and> \<not> wire_line (command_body cmd))))"
proof -
  have nothing: "\<exists>n \<le> length (command_line cmd). w_sent x = w_sent x @ take n (command_line cmd)" for x
    by (intro exI [of _ 0]) simp
  consider (dead) "sc_dead k \<or> cm_state (sc_machine k) \<noteq> CReady"
    | (unfit) "\<not> sc_dead k" "cm_state (sc_machine k) = CReady" "\<not> wire_line (command_body cmd)"
    | (fit) "\<not> sc_dead k" "cm_state (sc_machine k) = CReady" "wire_line (command_body cmd)" by blast
  then show ?thesis
  proof cases
    case dead
    then show ?thesis
      using nothing [of w] ok inv by (auto simp: command_with_def sc_check_eq invalidate_inv)
  next
    case unfit
    then obtain e where "encode_command cmd (replicate MAX_LINE_BYTES 0) = (Err e, replicate MAX_LINE_BYTES 0)"
      using encode_command_scratch [of cmd] by auto
    then show ?thesis using unfit inv ok by (simp add: command_with_def sc_check_eq)
  next
    case fit
    obtain len encoded where enc: "encode_command cmd (replicate MAX_LINE_BYTES 0) = (Ok len, encoded)"
      and line: "take len encoded = command_line cmd"
      using encode_command_scratch [of cmd] fit(3) by simp
    obtain d w1 where dl: "co_deadline (co_command_timeout opts) w = (d, w1)" by force
    note keep = co_deadline_keeps [OF dl]
    show ?thesis
    proof (cases d)
      case (Err e)
      then show ?thesis using fit enc dl keep inv ok by (simp add: command_with_def sc_check_eq reads_ok_def)
    next
      case (Ok t)
      let ?k = "k\<lparr>sc_deadline := t\<rparr>"
      have k: "sc_inv ?k" "reads_ok w1" "\<not> sc_dead ?k" "cm_state (sc_machine ?k) = CReady"
        using inv ok keep fit by (auto simp: sc_inv_def sc_dead_def reads_ok_def)
      have same: "stream (sc_channel ?k) w1 = stream (sc_channel k) w" "w_sent w1 = w_sent w" using keep by (simp_all add: stream_def)
      have body: "command_with opts cmd s (k, w) =
          bindM drain_buffered (\<lambda>_ (k, w).
            let k = k\<lparr>sc_sensitivity := s\<rparr> in
            (case cm_begin_command (sc_machine k) of
               (Err e, m) \<Rightarrow> (Fail (CeState e), (k\<lparr>sc_machine := m\<rparr>, w))
             | (Panic, m) \<Rightarrow> (Abort, (k\<lparr>sc_machine := m\<rparr>, w))
             | (Ok _, m) \<Rightarrow> bindM (sc_write (command_line cmd)) (\<lambda>_. returnM ComPending) (k\<lparr>sc_machine := m\<rparr>, w)))
            (?k, w1)"
        unfolding line [symmetric] using fit enc dl Ok by (simp add: command_with_def sc_check_eq)
      obtain r k' w' where io: "command_with opts cmd s (k, w) = (r, (k', w'))" "sc_inv k'" "reads_ok w'" "r \<noteq> Abort"
        "if is_done r then r = Done ComPending \<and> w_sent w' = w_sent w @ command_line cmd \<and> \<not> sc_dead k' \<and> cm_state (sc_machine k') = CCommand
           \<and> sc_sensitivity k' = s \<and> drains (stream (sc_channel k) w) (stream (sc_channel k') w')
         else sc_dead k' \<and> (\<exists>n \<le> length (command_line cmd). w_sent w' = w_sent w @ take n (command_line cmd))"
        using command_io_spec [OF k, of s "command_line cmd", unfolded same, folded body] by metis
      then show ?thesis using fit by (cases r) auto
    qed (use keep in simp)
  qed
qed

section \<open>Ending a transaction\<close>

lemma final_ready: "cm_receive m e = (Ok (), m') \<Longrightarrow> e \<in> {KOk, KErr} \<Longrightarrow> cm_state m' = CReady"
  by (auto simp: cm_receive_def cm_invalidate_def Let_def split: if_splits)

lemma finished_ready:
  "cm_receive m e = (Ok (), m') \<Longrightarrow> cm_busy m \<Longrightarrow> cm_good m \<Longrightarrow> cm_state m' = CReady \<longleftrightarrow> e \<in> {KOk, KErr}"
  by (auto simp: cm_receive_def cm_busy_def cm_good_def cm_invalidate_def Let_def split: if_splits)

lemma event_finished:
  "event_says ev l s \<Longrightarrow> (\<exists>code p. ev = EvFinished code p) \<longleftrightarrow> kind l \<in> {KOk, KErr}"
  by (cases l) (auto simp: event_says_def kind_def split: Event.splits option.splits)

lemma sc_invalidate_closed: "sc_inv k \<Longrightarrow> ch_wiped (sc_channel (sc_invalidate k)) \<and> \<not> ch_open (sc_channel (sc_invalidate k))"
  using ch_close_inv [of "sc_channel k"] by (simp add: sc_invalidate_def sc_inv_def ch_inv_shape)

end
