(* ===== verification/Client_Correct.thy ===== *)
theory Client_Correct
  imports Client_Props
begin

text \<open>
  The properties of the client API, for every environment: faithful events, progress,
  commands and inquiry data on the wire, reuse and poisoning of sessions, the greeting, the
  limits of the collectors, and the validation of options.
\<close>

section \<open>Sample sessions\<close>

definition sample_core :: SessionCore where
  "sample_core = \<lparr>sc_channel = ch_new, sc_machine = \<lparr>cm_state = CCommand, cm_inquiry_origin = CGreeting\<rparr>,
     sc_io_uncertain = False, sc_deadline = 5, sc_sensitivity = Public, sc_inquiry_timeout = 9,
     sc_max_inquiry_bytes = 100\<rparr>"

lemma sample_core_inv: "sc_inv sample_core" "\<not> sc_dead sample_core"
  by (simp_all add: sc_inv_def sample_core_def ch_new_inv cm_good_def sc_dead_def cm_dead_def)

section \<open>Reading\<close>

text \<open>
  C4: Events are faithful. Whatever the environment does, \<open>next_event\<close> sends nothing and
  does not panic. An event it delivers says exactly what the next non-empty line of the byte
  stream says, and the machine took the step of that line; \<open>None\<close> is only returned after the
  final response, with nothing touched; every other outcome, a dropped future included,
  leaves the session unusable.
\<close>

theorem next_event_faithful:
  assumes "sc_inv k" and "reads_ok w"
  shows "case next_event alloc com (k, w) of (r, com', k', w') \<Rightarrow>
     w_sent w' = w_sent w
   \<and> (case r of
        Done None \<Rightarrow> com \<noteq> ComPending \<and> com' = com \<and> k' = k \<and> w' = w
      | Done (Some ev) \<Rightarrow> com = ComPending
          \<and> (\<exists>raw l. takes_content (stream (sc_channel k) w) raw (stream (sc_channel k') w')
               \<and> parse_server_line raw = Ok l \<and> event_says ev l (sc_sensitivity k)
               \<and> com' = completion_after l
               \<and> cm_receive (sc_machine k) (kind l) = (Ok (), sc_machine k'))
      | Fail _ \<Rightarrow> sc_dead k'
      | Cancelled \<Rightarrow> sc_dead k'
      | Abort \<Rightarrow> False)"
proof -
  obtain r com' k' w' where n: "next_event alloc com (k, w) = (r, com', k', w')" by (metis prod_cases4)
  show ?thesis
    using next_event_cases [OF assms, of alloc com] unfolding n
    by (auto simp: event_ok_def split: async.splits option.splits)
qed

theorem next_event_faithful_witness:
  "case next_event (\<lambda>n. n \<le> 4096) ComPending (sample_core, sample_world) of (r, com', k', w') \<Rightarrow>
     (case r of
        Done (Some ev) \<Rightarrow>
          (\<exists>raw l. takes_content (lit ''OK'' @ [CR, LF, 0x44]) raw (stream (sc_channel k') w')
             \<and> parse_server_line raw = Ok l \<and> event_says ev l Public)
      | Done None \<Rightarrow> False | Abort \<Rightarrow> False | _ \<Rightarrow> sc_dead k')"
proof -
  have "stream ch_new sample_world = lit ''OK'' @ [CR, LF, 0x44]"
    by (simp add: stream_def buffered_def ch_new_def sample_world_def lit_def)
  then have st: "stream (sc_channel sample_core) sample_world = lit ''OK'' @ [CR, LF, 0x44]"
    by (simp add: sample_core_def)
  have pub: "sc_sensitivity sample_core = Public" by (simp add: sample_core_def)
  obtain r com' k' w' where n: "next_event (\<lambda>n. n \<le> 4096) ComPending (sample_core, sample_world) = (r, com', k', w')"
    by (metis prod_cases4)
  note f = next_event_faithful [OF sample_core_inv(1) sample_ok(1), where alloc = "\<lambda>n. n \<le> 4096" and com = ComPending,
      unfolded n prod.case st pub]
  show ?thesis unfolding n prod.case using f by (cases r) (auto split: option.splits)
qed

text \<open>
  C16: A failed client session stays failed. Take any program of the operations inside a
  transaction, reads of a line, writes, \<open>next_event\<close>, and the data and the end of an inquiry:
  its successes come first; from the first failure on, be it an error, a timeout or a dropped
  future, every one of these operations fails, the session is dead, and nothing more is read
  from or written to the stream. Sending a command and finishing a transaction are not among
  them, because these may fail and leave the session usable.
\<close>

theorem client_fail_stop:
  assumes "session_inv (k, w)"
  shows "case client_io.run alloc ops (k, w) of (oks, (k', w')) \<Rightarrow>
     \<exists>n \<le> length ops. oks = replicate n True @ replicate (length ops - n) False
       \<and> (if n = length ops then session_inv (k', w')
          else sc_dead k' \<and> quiet (snd (snd (client_io.run alloc (take (Suc n) ops) (k, w)))) w')"
  by (rule client_io.run_fail_stop [OF assms])

theorem client_fail_stop_witness:
  "case client_io.run (\<lambda>_. True) [OpRead, OpNext ComPending] (sample_core, sample_world) of (oks, (k', w')) \<Rightarrow>
     oks \<in> {[True, True], [True, False], [False, False]}"
proof -
  have inv: "session_inv (sample_core, sample_world)"
    using sample_core_inv sample_ok by (simp add: session_inv_def)
  obtain oks k' w' where run: "client_io.run (\<lambda>_. True) [OpRead, OpNext ComPending] (sample_core, sample_world) = (oks, (k', w'))"
    by (metis prod_cases3)
  obtain n where "n \<le> 2" "oks = replicate n True @ replicate (2 - n) False"
    using client_fail_stop [OF inv, where alloc = "\<lambda>_. True" and ops = "[OpRead, OpNext ComPending]",
        unfolded run prod.case] by (auto simp: numeral_2_eq_2)
  then have "oks \<in> {[True, True], [True, False], [False, False]}"
    by (auto simp: le_Suc_eq numeral_2_eq_2)
  then show ?thesis using run by simp
qed

section \<open>Progress\<close>

lemma takes_line_det: "takes_line bs l rest \<Longrightarrow> takes_line bs l' rest' \<Longrightarrow> l = l' \<and> rest = rest'"
  by (auto simp: takes_line_def)

lemma takes_content_det:
  "takes_content bs raw rest \<Longrightarrow> raw \<noteq> [] \<Longrightarrow> takes_content bs raw' rest' \<Longrightarrow> raw' \<noteq> [] \<Longrightarrow> raw = raw' \<and> rest = rest'"
proof (induction rule: takes_content.induct)
  case (here bs raw rest)
  from here(3) show ?case by cases (use here takes_line_det in blast)+
next
  case (skip bs mid raw rest)
  from skip.prems(2) show ?case by cases (use skip takes_line_det in blast)+
qed

lemma read_line_progress:
  assumes "ch_inv c" and "reads_ok w" and "ch_open c" and "fst (now w) < d" and "takes_line (stream c w) l rest"
  shows "\<exists>c' w'. read_line d s (c, w) = (Done l, (c', w')) \<and> w_clock w' = w_clock (snd (now w))
     \<and> w_instant_max w' = w_instant_max w \<and> ch_open c'"
proof -
  obtain r c' w' where rl: "read_line_or_eof d s (c, w) = (r, (c', w'))" by (metis prod_cases3)
  have rd: "read_line_or_eof d s (c, w) = (r, (c', w'))" "ch_inv c'" "ch_open c' = ch_open c" "r \<noteq> Abort"
      "\<exists>es es'. w_reads w = es @ es' \<and> w' = (snd (now w))\<lparr>w_reads := es'\<rparr>"
      "case r of Done l \<Rightarrow> l = lb_line (ch_line c') \<and> reads_as [] c w (Done ()) c' w'
       | Fail e \<Rightarrow> reads_as [] c w (Fail e) c' w' | Abort \<Rightarrow> False | Cancelled \<Rightarrow> reads_as [] c w Cancelled c' w'"
    using read_line_or_eof_cases [OF assms(1,2), of d s] assms(3,4) rl by auto
  have line: "lb_line (ch_line c') = (case lb_abs (ch_line c') of Complete l \<Rightarrow> Some l | _ \<Rightarrow> None)"
    using rd(2) by (intro lines.line_abs) (simp add: ch_inv_def ch_shape_def)
  have "r = Done (Some l)"
    using rd(6) assms(5) line by (cases r) (auto simp: reads_as_def takes_line_def stream_def Let_def)
  moreover have "w_instant_max (snd (now w)) = w_instant_max w" by (simp add: now_def split: list.splits)
  ultimately show ?thesis using rd(1,3,5) assms(3) by (auto simp: read_line_def bindM_def returnM_def)
qed

lemma decode_received_Ok:
  assumes "parse_server_line line = Ok l" and "line_payload l \<noteq> None"
  shows "\<exists>rcv line'. decode_received (locate line l) line = (Ok rcv, line')"
proof (cases l)
  case (LineData x)
  have line: "line = [0x44, SP] @ x" using parse_server_line_shape [OF assms(1)] LineData by (simp add: lit_def)
  obtain ds where "decode x = Some ds" using assms(2) LineData by (auto simp: line_payload_def)
  then show ?thesis
    by (simp add: decode_received_def locate_def LineData kind_def decode_in_place_eq get_range_def line)
qed (simp_all add: decode_received_def locate_def kind_def)

lemma sc_read_progress:
  assumes "sc_inv k" and "reads_ok w" and "\<not> sc_dead k" and "ch_open (sc_channel k)" and "fst (now w) < sc_deadline k"
    and "takes_line (stream (sc_channel k) w) raw rest" and "parse_server_line raw = Ok l" and "line_payload l \<noteq> None"
    and "cm_receive (sc_machine k) (kind l) = (Ok (), m)"
  shows "\<exists>rcv k' w'. sc_read (k, w) = (Done rcv, (k', w')) \<and> rc_kind rcv = kind l \<and> ch_open (sc_channel k')
     \<and> w_clock w' = w_clock (snd (now w)) \<and> w_instant_max w' = w_instant_max w \<and> sc_machine k' = m"
proof -
  have "ch_inv (sc_channel k)" using assms(1) by (simp add: sc_inv_def)
  from read_line_progress [OF this assms(2,4,5,6), of "sc_sensitivity k"] obtain c' w' where
    rd: "read_line (sc_deadline k) (sc_sensitivity k) (sc_channel k, w) = (Done raw, (c', w'))"
      "w_clock w' = w_clock (snd (now w))" "w_instant_max w' = w_instant_max w" "ch_open c'" by blast
  obtain rcv line' where dr: "decode_received (locate raw l) raw = (Ok rcv, line')"
    using decode_received_Ok [OF assms(7,8)] by blast
  have "classify raw (sc_machine k) = (Ok rcv, line', m)" using assms(7,9) dr by (simp add: classify_def)
  moreover have "rc_kind rcv = kind l"
    using decode_received_spec [OF assms(7) dr] by (simp add: points_at_def)
  ultimately show ?thesis
    using rd assms(3) by (simp add: sc_read_def sc_check_eq Let_def edit_line_def)
qed

definition prompt :: "SessionCore \<Rightarrow> world \<Rightarrow> bool" where
  "prompt k w \<longleftrightarrow> 0 < sc_deadline k \<and> list_all (\<lambda>t. t < sc_deadline k) (w_clock w)"

lemma prompt_now: "prompt k w \<Longrightarrow> fst (now w) < sc_deadline k \<and> list_all (\<lambda>t. t < sc_deadline k) (w_clock (snd (now w)))"
  by (auto simp: prompt_def now_def split: list.splits)

lemma read_nonempty_progress:
  "takes_content bs raw rest \<Longrightarrow> bs = stream (sc_channel k) w \<Longrightarrow> sc_inv k \<Longrightarrow> reads_ok w \<Longrightarrow> \<not> sc_dead k \<Longrightarrow>
   ch_open (sc_channel k) \<Longrightarrow> prompt k w \<Longrightarrow> parse_server_line raw = Ok l \<Longrightarrow> kind l \<noteq> KEmpty \<Longrightarrow>
   line_payload l \<noteq> None \<Longrightarrow> cm_receive (sc_machine k) (kind l) = (Ok (), m) \<Longrightarrow>
   \<exists>rcv k' w'. read_nonempty (k, w) = (Done rcv, (k', w')) \<and> list_all (\<lambda>t. t < sc_deadline k) (w_clock w')
     \<and> w_instant_max w' = w_instant_max w"
proof (induction arbitrary: k w rule: takes_content.induct)
  case (here bs raw rest)
  have "takes_line (stream (sc_channel k) w) raw rest" using here by simp
  from sc_read_progress [OF here.prems(2-5) prompt_now [OF here.prems(6), THEN conjunct1] this here.prems(7,9,10)]
  obtain rcv k' w' where "sc_read (k, w) = (Done rcv, (k', w'))" "rc_kind rcv = kind l"
    "w_clock w' = w_clock (snd (now w))" "w_instant_max w' = w_instant_max w" by blast
  then show ?case using here.prems(8) prompt_now [OF here.prems(6)] by (simp add: read_nonempty.simps [of "(k, w)"])
next
  case (skip bs mid raw rest)
  have e: "parse_server_line [] = Ok LineEmpty" by (simp add: parse_server_line_def validate_line_def)
  have alive: "\<not> cm_dead (sc_machine k)" using skip.prems(4) by (simp add: sc_dead_def)
  have "takes_line (stream (sc_channel k) w) [] mid" using skip by simp
  from sc_read_progress [OF skip.prems(2-5) prompt_now [OF skip.prems(6), THEN conjunct1] this e, of "sc_machine k"]
  obtain rcv k1 w1 where rd: "sc_read (k, w) = (Done rcv, (k1, w1))" "rc_kind rcv = KEmpty" "ch_open (sc_channel k1)"
      "w_clock w1 = w_clock (snd (now w))" "w_instant_max w1 = w_instant_max w" "sc_machine k1 = sc_machine k"
    using receive_empty [OF alive] by (auto simp: kind_def line_payload_def)
  obtain r k' w' where sp: "sc_read (k, w) = (r, (k', w'))" "sc_inv k'" "reads_ok w'"
    "\<And>rcv. r = Done rcv \<Longrightarrow> read_via takes_line (k, w) rcv (k', w')"
    using sc_read_spec [OF skip.prems(2,3)] by metis
  then have via: "read_via takes_line (k, w) rcv (k1, w1)" "sc_inv k1" "reads_ok w1" using rd(1) by auto
  from via(1) obtain raw' where t: "takes_line (stream (sc_channel k) w) raw' (stream (sc_channel k1) w1)"
    and same: "sc_deadline k1 = sc_deadline k" "\<not> sc_io_uncertain k1" by (auto simp: read_via_def)
  have mid: "mid = stream (sc_channel k1) w1" using takes_line_det t skip.hyps(1) skip.prems(1) by blast
  have "prompt k1 w1" using prompt_now [OF skip.prems(6)] rd(4) same(1) by (auto simp: prompt_def)
  moreover have "\<not> sc_dead k1" using same(2) rd(6) alive by (simp add: sc_dead_def)
  ultimately have "\<exists>rcv k' w'. read_nonempty (k1, w1) = (Done rcv, (k', w')) \<and> list_all (\<lambda>t. t < sc_deadline k) (w_clock w')
     \<and> w_instant_max w' = w_instant_max w"
    using skip.IH [OF mid via(2,3) _ rd(3)] skip.prems(7-9,10) rd(5,6) same(1) by simp
  then show ?case using rd(1,2) by (simp add: read_nonempty.simps [of "(k, w)"])
qed

text \<open>
  An inquiry also needs a line of memory, and a deadline of its own that the clock can
  represent.
\<close>

definition inquiry_room :: "(nat \<Rightarrow> bool) \<Rightarrow> SessionCore \<Rightarrow> world \<Rightarrow> bool" where
  "inquiry_room alloc k w \<longleftrightarrow> alloc MAX_LINE_BYTES \<and> sc_deadline k + sc_inquiry_timeout k \<le> w_instant_max w"

lemma takes_content_fits: "takes_content bs raw rest \<Longrightarrow> length raw \<le> MAX_LINE_BYTES"
  by (induction rule: takes_content.induct) (auto dest: takes_line_fits)

lemma inquiry_fits:
  assumes "parse_server_line raw = Ok l" and "length raw \<le> MAX_LINE_BYTES" and "kind l = KInquire" and "line_payload l = Some args"
  shows "length (line_keyword l) + length args \<le> MAX_LINE_BYTES"
  using parse_server_line_shape [OF assms(1)] assms(2-4)
  by (cases l) (auto simp: kind_def line_payload_def line_keyword_def)

lemma inquiry_new_progress:
  assumes "received_line (sc_channel k) = Some line" and "points_at rcv line l" and "line_payload l = Some args"
    and "length (line_keyword l) + length args \<le> MAX_LINE_BYTES" and "alloc MAX_LINE_BYTES"
    and "fst (now w) + sc_inquiry_timeout k \<le> w_instant_max w"
  shows "is_done (fst (inquiry_new alloc rcv (k, w)))"
proof -
  have rng: "get_range line (fst (rc_keyword rcv)) (snd (rc_keyword rcv)) = Some (line_keyword l)"
    "get_range line (fst (rc_payload rcv)) (snd (rc_payload rcv)) = Some args" using assms(2,3) by (auto simp: points_at_def)
  obtain m0 where cap: "sb_with_capacity alloc MAX_LINE_BYTES = Ok m0" using assms(5) by (simp add: sb_with_capacity_def)
  note m0 = with_capacity_line [OF cap]
  obtain m1 where m1: "sb_extend_from_slice m0 (line_keyword l) = (Ok (), m1)" "sb_invar m1" "sb_expose m1 = line_keyword l"
    "sb_capacity m1 = MAX_LINE_BYTES" using secret.extend_step [of m0 "line_keyword l"] m0 assms(4) by auto
  obtain m2 where m2: "sb_extend_from_slice m1 args = (Ok (), m2)" using secret.extend_step [OF m1(2), of args] m1 assms(4) by auto
  obtain t w0 where t: "now w = (t, w0)" by force
  then have "w_instant_max w0 = w_instant_max w" by (auto simp: now_def split: list.splits)
  then show ?thesis
    using cap assms(1,6) rng m1(1) m2 t by (simp add: inquiry_new_def inquiry_parts_def checked_deadline_def)
qed

text \<open>
  C27: Progress. On a live session that waits for responses, if the byte stream holds a
  further line with a response the protocol allows at this point, and the clock stays before
  the deadline, then \<open>next_event\<close> delivers that response, however many empty lines precede it
  and however the stream is cut. An inquiry needs the memory for its line and a deadline of its
  own that the clock can represent as well.
\<close>

theorem next_event_progress:
  assumes "sc_inv k" and "reads_ok w" and "\<not> sc_dead k" and "ch_open (sc_channel k)" and "prompt k w"
    and "cm_state (sc_machine k) \<noteq> CInquiry"
    and "takes_content (stream (sc_channel k) w) raw rest" and "parse_server_line raw = Ok l"
    and "kind l \<noteq> KEmpty" and "line_payload l \<noteq> None"
    and "cm_receive (sc_machine k) (kind l) = (Ok (), m)"
    and "kind l = KInquire \<Longrightarrow> inquiry_room alloc k w"
  shows "\<exists>ev k' w'. next_event alloc ComPending (k, w) = (Done (Some ev), completion_after l, k', w')
     \<and> event_says ev l (sc_sensitivity k) \<and> stream (sc_channel k') w' = rest \<and> sc_machine k' = m"
proof -
  obtain rcv k1 w1 where rn: "read_nonempty (k, w) = (Done rcv, (k1, w1))" "list_all (\<lambda>t. t < sc_deadline k) (w_clock w1)"
    "w_instant_max w1 = w_instant_max w"
    using read_nonempty_progress [OF assms(7) refl assms(1-5,8,9,10,11)] by blast
  have via: "read_via takes_content (k, w) rcv (k1, w1)" "rc_kind rcv \<noteq> KEmpty" "sc_inv k1"
    using read_nonempty_spec [OF assms(1,2)] rn(1) by auto
  from via(1) obtain line raw' l' where v: "received_line (sc_channel k1) = Some line" "points_at rcv line l'"
    "line_payload l' \<noteq> None" "parse_server_line raw' = Ok l'"
    "takes_content (stream (sc_channel k) w) raw' (stream (sc_channel k1) w1)"
    "cm_receive (sc_machine k) (kind l') = (Ok (), sc_machine k1)" "sc_sensitivity k1 = sc_sensitivity k"
    and same: "\<not> sc_io_uncertain k1" "sc_inquiry_timeout k1 = sc_inquiry_timeout k"
    by (auto simp: read_via_def)
  have kind: "rc_kind rcv = kind l'" "rc_code rcv = line_code l'" using v(2) by (auto simp: points_at_def)
  have "raw \<noteq> []" "raw' \<noteq> []"
    using assms(8,9) v(4) kind(1) via(2) by (auto simp: parse_server_line_def validate_line_def kind_def)
  then have eq: "raw = raw'" "rest = stream (sc_channel k1) w1" using takes_content_det [OF assms(7) _ v(5)] by auto
  have l: "l' = l" using eq(1) v(4) assms(8) by simp
  have com: "(kind l = KOk \<longrightarrow> (case line_code l of None \<Rightarrow> ComSuccess | Some code \<Rightarrow> ComRemote code) = completion_after l)
      \<and> (kind l = KErr \<longrightarrow> (case line_code l of None \<Rightarrow> ComSuccess | Some code \<Rightarrow> ComRemote code) = completion_after l)
      \<and> (kind l \<noteq> KOk \<and> kind l \<noteq> KErr \<longrightarrow> ComPending = completion_after l)"
    by (cases l) (auto simp: kind_def line_code_def completion_after_def)
  have m: "m = sc_machine k1" using v(6) assms(11) l by simp
  note step = next_event_def sc_check_eq Let_def
  show ?thesis
  proof (cases "kind l = KInquire")
    case False
    obtain ev where "event_of rcv line (sc_sensitivity k) = Ok ev" "event_says ev l (sc_sensitivity k)"
      using event_of_says [OF v(4,2,3), of "sc_sensitivity k"] l assms(9) False by auto
    then show ?thesis using assms(3,6) rn(1) v(1,7) kind l com eq(2) m False by (simp add: step)
  next
    case True
    obtain args where args: "line_payload l = Some args" using assms(10) by blast
    have room: "alloc MAX_LINE_BYTES" "sc_deadline k + sc_inquiry_timeout k \<le> w_instant_max w" "0 < sc_deadline k"
      using assms(12) [OF True] assms(5) by (auto simp: inquiry_room_def prompt_def)
    have "fst (now w1) < sc_deadline k" using rn(2) room(3) by (auto simp: now_def split: list.splits)
    then have time: "fst (now w1) + sc_inquiry_timeout k1 \<le> w_instant_max w1" using rn(3) room(2) same(2) by simp
    have fits: "length (line_keyword l) + length args \<le> MAX_LINE_BYTES"
      by (rule inquiry_fits [OF assms(8) takes_content_fits [OF assms(7)] True args])
    have at: "points_at rcv line l" using v(2) l by simp
    have alive: "\<not> sc_dead k1" using receive_alive [OF v(6)] same(1) by (simp add: sc_dead_def)
    obtain q w2 where q: "inquiry_new alloc rcv (k1, w1) = (Done q, (k1, w2))" "w_reads w2 = w_reads w1" "inquiry_shows q (line_keyword l) args"
      using inquiry_new_spec [OF via(3) v(1) at args alive, of alloc w1] inquiry_new_progress [where alloc = alloc, OF v(1) at args fits room(1) time] by auto
    have "event_says (EvInquire q) l (sc_sensitivity k)" using q(3) True args
      by (cases l) (auto simp: event_says_def kind_def line_keyword_def line_payload_def)
    moreover have "stream (sc_channel k1) w2 = rest" using q(2) eq(2) by (simp add: stream_def)
    ultimately show ?thesis using assms(3,6) rn(1) kind l com m True q(1) by (simp add: step)
  qed
qed

theorem next_event_progress_witness:
  "\<exists>k' w'. next_event (\<lambda>_. False) ComPending (sample_core, sample_world)
     = (Done (Some (EvFinished None (PublicPayload []))), ComSuccess, k', w') \<and> stream (sc_channel k') w' = [0x44]"
proof -
  let ?l = "LineOk []"
  have st: "stream (sc_channel sample_core) sample_world = lit ''OK'' @ [CR, LF, 0x44]"
    by (simp add: stream_def buffered_def ch_new_def sample_world_def sample_core_def lit_def)
  have "takes_line (lit ''OK'' @ [CR, LF, 0x44]) (lit ''OK'') [0x44]"
    by (simp add: takes_line_def frame_byte_def MAX_LINE_BYTES_def lit_def strip_cr_def)
  then have t: "takes_content (stream (sc_channel sample_core) sample_world) (lit ''OK'') [0x44]"
    unfolding st by (rule takes_content.here)
  have p: "parse_server_line (lit ''OK'') = Ok ?l" using parse_ok [of "[]"] by (simp add: opt_field_def)
  have m: "cm_receive (sc_machine sample_core) (kind ?l) = (Ok (), \<lparr>cm_state = CReady, cm_inquiry_origin = CGreeting\<rparr>)"
    by (simp add: sample_core_def cm_receive_def kind_def Let_def)
  have side: "ch_open (sc_channel sample_core)" "prompt sample_core sample_world" "cm_state (sc_machine sample_core) \<noteq> CInquiry"
    "kind ?l \<noteq> KEmpty" "line_payload ?l \<noteq> None" "sc_sensitivity sample_core = Public" "kind ?l \<noteq> KInquire"
    by (simp_all add: sample_core_def ch_new_def prompt_def sample_world_def kind_def line_payload_def)
  from next_event_progress [OF sample_core_inv(1) sample_ok(1) sample_core_inv(2) side(1,2,3) t p side(4,5) m, of "\<lambda>_. False"]
  show ?thesis using side(6,7) by (auto simp: event_says_def completion_after_def payload_of_def)
qed

section \<open>Writing\<close>

text \<open>
  C25: A command is sent exactly, or the session says so. \<open>command_with\<close> does not panic. When
  it returns a transaction, the session was ready, exactly the encoded command line was sent
  and the session now waits for its response under the chosen sensitivity. Otherwise either
  the session is untouched and usable (a command that does not fit on a line, or a timeout
  the clock cannot represent), or it is dead and at most a prefix of the line was sent.
\<close>

theorem command_sent_exactly:
  assumes "sc_inv k" and "reads_ok w"
  shows "case command_with opts cmd s (k, w) of (r, (k', w')) \<Rightarrow>
     (case r of
        Done com \<Rightarrow> com = ComPending \<and> is_usable k \<and> w_sent w' = w_sent w @ command_body cmd @ [LF]
          \<and> wire_line (command_body cmd) \<and> \<not> sc_dead k' \<and> cm_state (sc_machine k') = CCommand \<and> sc_sensitivity k' = s
      | Abort \<Rightarrow> False
      | _ \<Rightarrow>
          (if k' = k \<and> \<not> sc_dead k
           then w_sent w' = w_sent w \<and> w_reads w' = w_reads w
                \<and> (r = Fail CeInvalidOptions \<or> (\<exists>e. r = Fail (CeProtocol e)) \<and> \<not> wire_line (command_body cmd))
           else sc_dead k' \<and> (\<exists>n. w_sent w' = w_sent w @ take n (command_body cmd @ [LF]))))"
proof -
  obtain r k' w' where c: "command_with opts cmd s (k, w) = (r, (k', w'))" by (metis prod_cases3)
  show ?thesis
    using command_with_spec [OF assms, of opts cmd s] unfolding c
    by (cases r) (auto simp: command_line_def is_usable_def sc_dead_def intro: exI [of _ 0])
qed

theorem command_sent_exactly_witness:
  "sc_inv sample_core \<and> (case command_with ClientOptions_default \<lparr>cmd_name = lit ''BYE'', cmd_args = []\<rparr> Public
       (sample_core, sample_world) of (r, (k', w')) \<Rightarrow> \<not> is_done r \<and> sc_dead k')"
proof -
  let ?cmd = "\<lparr>cmd_name = lit ''BYE'', cmd_args = []\<rparr>"
  obtain r k' w' where c: "command_with ClientOptions_default ?cmd Public (sample_core, sample_world) = (r, (k', w'))"
    by (metis prod_cases3)
  have busy: "\<not> is_usable sample_core" by (simp add: is_usable_def sample_core_def)
  have wire: "wire_line (command_body ?cmd)"
    by (simp add: wire_line_def command_body_def opt_field_def lit_def forbidden_def MAX_LINE_BYTES_def)
  have k': "k' = sc_invalidate sample_core"
    using c by (auto simp: command_with_def sc_check_eq sample_core_inv sample_core_def sc_dead_def cm_dead_def)
  show ?thesis
    using command_sent_exactly [OF sample_core_inv(1) sample_ok(1), where opts = ClientOptions_default and cmd = ?cmd and s = Public] c busy wire k'
      sample_core_inv
    by (cases r) (auto split: if_splits)
qed

text \<open>
  C26: Inquiry data is sent exactly and within the limit. When \<open>send\<close> succeeds, the session is
  unchanged and what went out is a sequence of data lines that fit the wire and decode,
  joined, to the given bytes; the bytes sent for the inquiry so far are counted and within
  the maximum. In every other case the session is dead and at most a prefix was sent.
\<close>

theorem inquiry_data_exact:
  assumes "sc_inv k" and "reads_ok w"
  shows "case inquiry_send bs s q (k, w) of (r, (k', w')) \<Rightarrow>
     (case r of
        Done q' \<Rightarrow> k' = k \<and> cm_state (sc_machine k) = CInquiry
          \<and> q' = q\<lparr>iq_sent := iq_sent q + length bs\<rparr> \<and> iq_sent q' \<le> sc_max_inquiry_bytes k
          \<and> (\<exists>bodies parts. w_sent w' = w_sent w @ concat (map (\<lambda>body. body @ [LF]) bodies)
               \<and> list_all wire_line bodies \<and> map data_payload bodies = map Some parts \<and> concat parts = bs)
      | Abort \<Rightarrow> False
      | _ \<Rightarrow> sc_dead k' \<and> (\<exists>n. w_sent w' = w_sent w @ take n (data_wire bs)))"
proof -
  obtain r k' w' where c: "inquiry_send bs s q (k, w) = (r, (k', w'))" by (metis prod_cases3)
  obtain parts where "map data_payload (data.bodies bs) = map Some parts" "concat parts = bs"
    using data.bodies_payload [of bs] by blast
  moreover have "list_all wire_line (data.bodies bs)" by (auto simp: list_all_iff intro: data.bodies_wire)
  ultimately have ex: "\<exists>bodies parts. data_wire bs = concat (map (\<lambda>body. body @ [LF]) bodies)
      \<and> list_all wire_line bodies \<and> map data_payload bodies = map Some parts \<and> concat parts = bs"
    unfolding data_wire_def by blast
  show ?thesis
    using inquiry_send_spec [OF assms, of bs s q] ex unfolding c
    by (cases r) (auto simp: sends_def)
qed

theorem inquiry_data_exact_witness:
  "case inquiry_send (lit ''x'') Secret
      \<lparr>iq_metadata = \<lparr>sb_storage = [], sb_len = 0\<rparr>, iq_keyword_len = 0, iq_sent = 100, iq_deadline = 5, iq_completed = False\<rparr>
      (sample_core\<lparr>sc_machine := \<lparr>cm_state = CInquiry, cm_inquiry_origin = CCommand\<rparr>\<rparr>, sample_world) of (r, (k', w')) \<Rightarrow>
     \<not> is_done r \<and> sc_dead k'"
proof -
  let ?k = "sample_core\<lparr>sc_machine := \<lparr>cm_state = CInquiry, cm_inquiry_origin = CCommand\<rparr>\<rparr>"
  let ?q = "\<lparr>iq_metadata = \<lparr>sb_storage = [], sb_len = 0\<rparr>, iq_keyword_len = 0, iq_sent = 100, iq_deadline = 5, iq_completed = False\<rparr>"
  have inv: "sc_inv ?k" using sample_core_inv(1) by (simp add: sc_inv_def cm_good_def)
  obtain r k' w' where c: "inquiry_send (lit ''x'') Secret ?q (?k, sample_world) = (r, (k', w'))" by (metis prod_cases3)
  show ?thesis
    unfolding c prod.case using inquiry_data_exact [OF inv sample_ok(1), where bs = "lit ''x''" and s = Secret and q = ?q, unfolded c prod.case]
    by (cases r) (auto simp: sample_core_def)
qed

section \<open>Transactions\<close>

text \<open>
  C24: A session is reusable exactly after its final response. In an operation, once the
  event of the final response has been delivered the session is usable, dropping the
  transaction leaves it alone, and finishing it gives success or the code the server sent.
  After any other event the session is not usable, finishing reports incompleteness, and
  dropping the transaction kills the session with its channel closed and wiped.
\<close>

theorem transaction_reuse:
  assumes "sc_inv k" and "reads_ok w" and "cm_busy (sc_machine k)"
  shows "case next_event alloc com (k, w) of
       (Done (Some (EvFinished code p)), com', k', w') \<Rightarrow>
         is_usable k' \<and> tx_drop k' = k'
         \<and> tx_finish com' k' = ((case code of None \<Rightarrow> Ok () | Some c \<Rightarrow> Err (CeRemote c)), k')
     | (Done (Some _), com', k', w') \<Rightarrow>
         \<not> is_usable k' \<and> fst (tx_finish com' k') = Err CeIncomplete
         \<and> sc_dead (tx_drop k') \<and> ch_wiped (sc_channel (tx_drop k')) \<and> \<not> ch_open (sc_channel (tx_drop k'))
     | _ \<Rightarrow> True"
proof -
  obtain r com' k' w' where n: "next_event alloc com (k, w) = (r, com', k', w')" by (metis prod_cases4)
  show ?thesis
  proof (cases "\<exists>ev. r = Done (Some ev)")
    case False
    then show ?thesis unfolding n by (cases r) (auto split: option.splits)
  next
    case True
    then obtain ev where ev: "r = Done (Some ev)" by blast
    have ok: "event_ok (k, w) ev com' (k', w')" "sc_inv k'"
      using next_event_cases [OF assms(1,2), of alloc com] n ev by auto
    from ok(1) obtain l where l: "event_says ev l (sc_sensitivity k)" "com' = completion_after l"
      "cm_receive (sc_machine k) (kind l) = (Ok (), sc_machine k')" "\<not> sc_io_uncertain k'"
      by (auto simp: event_ok_def)
    have good: "cm_good (sc_machine k)" using assms(1) by (simp add: sc_inv_def)
    have ready: "cm_state (sc_machine k') = CReady \<longleftrightarrow> kind l \<in> {KOk, KErr}"
      by (rule finished_ready [OF l(3) assms(3) good])
    have alive: "\<not> sc_dead k'" using receive_alive [OF l(3)] l(4) by (simp add: sc_dead_def)
    show ?thesis
    proof (cases "\<exists>code p. ev = EvFinished code p")
      case True
      then obtain code p where f: "ev = EvFinished code p" by blast
      have k: "kind l \<in> {KOk, KErr}" using event_finished [OF l(1)] f by blast
      have "com' = (case code of None \<Rightarrow> ComSuccess | Some c \<Rightarrow> ComRemote c)"
        using l(1,2) k f by (cases l) (auto simp: event_says_def completion_after_def kind_def)
      then show ?thesis
        unfolding n ev f using ready k l(4) alive
        by (auto simp: is_usable_def tx_drop_def tx_finish_def sc_check_eq split: option.splits)
    next
      case False
      then have k: "kind l \<notin> {KOk, KErr}" using event_finished [OF l(1)] by blast
      have "com' = ComPending" using l(2) k by (cases l) (auto simp: completion_after_def kind_def)
      then show ?thesis
        unfolding n ev using False ready k alive sc_invalidate_closed [OF ok(2)]
        by (cases ev) (auto simp: is_usable_def tx_drop_def tx_finish_def sc_check_eq)
    qed
  qed
qed

theorem transaction_reuse_witness:
  "cm_busy (sc_machine sample_core)
   \<and> (case next_event (\<lambda>_. True) ComPending (sample_core, sample_world) of
        (Done (Some (EvFinished code p)), com', k', w') \<Rightarrow> is_usable k'
      | (Done (Some _), com', k', w') \<Rightarrow> sc_dead (tx_drop k')
      | _ \<Rightarrow> True)"
proof -
  have busy: "cm_busy (sc_machine sample_core)" by (simp add: sample_core_def cm_busy_def)
  show ?thesis
    using transaction_reuse [OF sample_core_inv(1) sample_ok(1) busy, where alloc = "\<lambda>_. True" and com = ComPending] busy
    by (auto split: prod.splits async.splits option.splits Event.splits)
qed

end
