(* ===== verification/Client_Collect.thy ===== *)
theory Client_Collect
  imports Client_Props
begin

text \<open>
  The collectors (\<open>assuan-client/src/response.rs\<close>): what a collected response holds is what
  the lines of the operation said, it respects its limits, inquiries are cancelled, and the
  session is usable afterwards exactly if the final response was reached.
\<close>

section \<open>What a sequence of lines says\<close>

fun takes_lines :: "bytes \<Rightarrow> ServerLine list \<Rightarrow> bytes \<Rightarrow> bool" where
  "takes_lines bs [] rest \<longleftrightarrow> rest = bs"
| "takes_lines bs (l # ls) rest \<longleftrightarrow>
     (\<exists>raw mid. takes_content bs raw mid \<and> parse_server_line raw = Ok l \<and> takes_lines mid ls rest)"

definition line_data :: "ServerLine \<Rightarrow> bytes" where
  "line_data l = (case l of LineData d \<Rightarrow> (case decode d of Some bs \<Rightarrow> bs | None \<Rightarrow> []) | _ \<Rightarrow> [])"

definition line_statuses :: "ServerLine \<Rightarrow> (bytes \<times> bytes) list" where
  "line_statuses l = (case l of LineStatus kw a \<Rightarrow> [(kw, a)] | _ \<Rightarrow> [])"

definition line_comments :: "ServerLine \<Rightarrow> bytes list" where
  "line_comments l = (case l of LineComment t \<Rightarrow> [t] | _ \<Rightarrow> [])"

definition line_reply :: "ServerLine \<Rightarrow> bytes" where
  "line_reply l = (case l of LineInquire _ _ \<Rightarrow> end_line True | _ \<Rightarrow> [])"

lemmas line_parts = line_data_def line_statuses_def line_comments_def line_reply_def

text \<open>The collected data of either kind.\<close>

definition collected_data :: "bool \<Rightarrow> Collected \<Rightarrow> bytes" where
  "collected_data secret d = (if secret then sb_expose (cd_secret d) else cd_data d)"

lemma collected_data_events [simp]: "collected_data secret (d\<lparr>cd_events := n\<rparr>) = collected_data secret d"
  by (simp add: collected_data_def)

definition gathers :: "bool \<Rightarrow> Collected \<Rightarrow> ServerLine list \<Rightarrow> Collected \<Rightarrow> bool" where
  "gathers secret d ls d' \<longleftrightarrow>
     collected_data secret d' = collected_data secret d @ concat (map line_data ls)
   \<and> cd_statuses d' = cd_statuses d @ concat (map line_statuses ls)
   \<and> cd_comments d' = cd_comments d @ concat (map line_comments ls)
   \<and> cd_events d' = cd_events d + length ls"

lemma gathers_append: "gathers s d xs d1 \<Longrightarrow> gathers s d1 ys d2 \<Longrightarrow> gathers s d (xs @ ys) d2"
  by (simp add: gathers_def)

lemma payload_slice_of [simp]: "payload_slice (payload_of bs s) = bs"
  by (cases s) (simp_all add: payload_slice_def payload_of_def sr_expose_def sr_new_def)

lemma payload_len_eq [simp]: "payload_len_ref p = length (payload_slice p)"
  by (cases p) (simp_all add: payload_len_ref_def payload_slice_def)

section \<open>One event\<close>

definition within :: "CollectLimits \<Rightarrow> Collected \<Rightarrow> bool" where
  "within limits d \<longleftrightarrow> sb_invar (cd_secret d) \<and> retained d \<le> cx_max_bytes limits
     \<and> cd_events d \<le> cx_max_events limits"

lemma ensure_room_Ok: "ensure_room n d limit = Ok u \<longleftrightarrow> retained d + n \<le> min limit usize_max"
  by (auto simp: ensure_room_def usize_checked_add_def split: option.splits if_splits)

lemma ensure_room_no_panic: "ensure_room n d limit \<noteq> Panic"
  by (simp add: ensure_room_def split: option.splits)

lemma sb_len_expose: "sb_invar s \<Longrightarrow> sb_len s = length (sb_expose s)"
  by (simp add: sb_invar_def sb_expose_def)

text \<open>An event other than an inquiry or the final: kept in full, or refused for a limit.\<close>

lemma collect_event_spec:
  assumes "within limits d" and "event_says ev l s" and "kind l \<notin> {KInquire, KOk, KErr}"
  shows "collect_event limits secret ev d \<noteq> Panic
     \<and> (\<forall>d'. collect_event limits secret ev d = Ok d' \<longrightarrow>
          within limits d' \<and> gathers secret d [l] (d'\<lparr>cd_events := Suc (cd_events d)\<rparr>) \<and> cd_events d' = cd_events d)"
proof (cases l)
  case (LineData x)
  then obtain bs where bs: "decode x = Some bs" "ev = EvData (payload_of bs s)"
    using assms(2) by (auto simp: event_says_def split: option.splits)
  have inv: "sb_invar (cd_secret d)" using assms(1) by (simp add: within_def)
  from secret.extend_step [OF inv, of bs] consider
    s' where "sb_extend_from_slice (cd_secret d) bs = (Ok (), s')" "sb_invar s'" "sb_expose s' = sb_expose (cd_secret d) @ bs"
    | e where "sb_extend_from_slice (cd_secret d) bs = (Err e, cd_secret d)" by auto
  then show ?thesis
  proof cases
    case 1
    then show ?thesis
      using assms(1) bs LineData ensure_room_no_panic [of "length bs" d]
      by (auto simp: collect_event_def bind_eq_Ok bind_eq_Panic ensure_room_Ok within_def gathers_def collected_data_def
            line_parts retained_def sb_len_expose)
  next
    case 2
    then show ?thesis
      using assms(1) bs LineData ensure_room_no_panic [of "length bs" d]
      by (auto simp: collect_event_def bind_eq_Ok bind_eq_Panic ensure_room_Ok within_def gathers_def collected_data_def
            line_parts retained_def split: if_splits)
  qed
next
  case (LineStatus kw a)
  then show ?thesis
    using assms ensure_room_no_panic
    by (auto simp: collect_event_def event_says_def bind_eq_Ok bind_eq_Panic ok_or_eq ensure_room_Ok within_def gathers_def
          collected_data_def line_parts retained_def usize_checked_add_def split: if_splits)
next
  case (LineComment t)
  then show ?thesis
    using assms ensure_room_no_panic
    by (auto simp: collect_event_def event_says_def bind_eq_Ok bind_eq_Panic ensure_room_Ok within_def gathers_def
          collected_data_def line_parts retained_def)
next
  case LineEnd
  then show ?thesis
    using assms by (auto simp: collect_event_def event_says_def within_def gathers_def collected_data_def line_parts)
qed (use assms in \<open>auto simp: event_says_def kind_def\<close>)

section \<open>The loop\<close>

text \<open>Only the end of a transaction reports a remote error.\<close>

definition remote_error :: "('a, ClientError) async \<Rightarrow> bool" where
  "remote_error r \<longleftrightarrow> (\<exists>code. r = Fail (CeRemote code))"

lemma remote_error_simps [simp]:
  "\<not> remote_error (Done x)" "remote_error (Fail e) \<longleftrightarrow> (\<exists>code. e = CeRemote code)"
  "\<not> remote_error Abort" "\<not> remote_error Cancelled"
  by (auto simp: remote_error_def)

lemma sc_read_not_remote: "sc_read s = (r, s') \<Longrightarrow> \<not> remote_error r"
  by (auto simp: sc_read_def sc_check_def classify_def decode_received_def Let_def
        split: prod.splits if_splits async.splits result.splits option.splits)

lemma sc_write_at_not_remote: "sc_write_at bs d sens s = (r, s') \<Longrightarrow> \<not> remote_error r"
  by (auto simp: sc_write_at_def sc_check_def Let_def split: prod.splits if_splits async.splits)

lemma read_nonempty_not_remote: "read_nonempty s = (r, s') \<Longrightarrow> \<not> remote_error r"
proof (induction s rule: read_nonempty.induct)
  case (1 s)
  obtain x s1 where x: "sc_read s = (x, s1)" by (cases "sc_read s")
  show ?case
    using 1 x sc_read_not_remote [OF x] by (cases x) (auto simp: read_nonempty.simps [of s] split: if_splits)
qed

lemma inquiry_new_not_remote: "inquiry_new alloc rcv s = (r, s') \<Longrightarrow> \<not> remote_error r"
  by (auto simp: inquiry_new_def inquiry_parts_def split: prod.splits result.splits option.splits)

lemma next_event_not_remote:
  assumes "next_event alloc com s = (r, com', s')"
  shows "\<not> remote_error r"
proof -
  obtain k w where s: "s = (k, w)" by force
  obtain x k1 w1 where x: "read_nonempty (k, w) = (x, (k1, w1))" by (metis prod_cases3)
  show ?thesis
    using assms s x read_nonempty_not_remote [OF x]
    by (auto simp: next_event_def sc_check_def event_of_def Let_def dest: inquiry_new_not_remote
          split: if_splits async.splits prod.splits option.splits result.splits LineKind.splits)
qed

lemma inquiry_end_not_remote:
  assumes "inquiry_end b q s = (r, s')"
  shows "\<not> remote_error r"
proof -
  obtain k w where s: "s = (k, w)" by force
  let ?put = "sc_write_at ((if b then lit ''CAN'' else lit ''END'') @ [LF]) (iq_deadline q) (sc_sensitivity k) (k, w)"
  obtain x k1 w1 where x: "?put = (x, (k1, w1))" by (metis prod_cases3)
  show ?thesis
  proof (cases "sc_dead k \<or> cm_state (sc_machine k) \<noteq> CInquiry")
    case True
    then show ?thesis using assms s by (auto simp: inquiry_end_def inquiry_complete_def inquiry_check_cases split: if_splits)
  next
    case False
    then have "r = (case x of
        Done _ \<Rightarrow> (case fst (cm_finish_inquiry (sc_machine k1) b) of Ok _ \<Rightarrow> Done () | Err e \<Rightarrow> Fail (CeState e) | Panic \<Rightarrow> Abort)
      | Fail e \<Rightarrow> Fail e | Abort \<Rightarrow> Abort | Cancelled \<Rightarrow> Cancelled)"
      using assms s x
      by (cases x) (auto simp: inquiry_end_def inquiry_complete_def inquiry_check_cases split: prod.splits result.splits)
    then show ?thesis using sc_write_at_not_remote [OF x] by (cases x) (auto split: result.splits)
  qed
qed

lemma collect_event_not_remote: "collect_event limits secret ev d \<noteq> Err (CeRemote code)"
  by (auto simp: collect_event_def ensure_room_def ok_or_def bind_def
        split: Event.splits option.splits if_splits prod.splits result.splits)

text \<open>A line that is part of a response but does not end it.\<close>

definition content :: "ServerLine \<Rightarrow> bool" where
  "content l \<longleftrightarrow> kind l \<notin> {KOk, KErr, KEmpty}"

lemma says_not_empty: "event_says ev l s \<Longrightarrow> kind l \<noteq> KEmpty"
  by (cases l) (auto simp: event_says_def kind_def)

definition collected_ok ::
  "CollectLimits \<Rightarrow> bool \<Rightarrow> Collected \<Rightarrow> SessionCore \<times> world \<Rightarrow> Collected \<Rightarrow> Completion \<times> SessionCore \<times> world \<Rightarrow> bool" where
  "collected_ok limits secret d st d' st' \<longleftrightarrow> (case (st, st') of ((k, w), (com', k', w')) \<Rightarrow>
     within limits d' \<and> is_usable k' \<and> reads_ok w'
     \<and> (\<exists>ls l. list_all content ls \<and> takes_lines (stream (sc_channel k) w) (ls @ [l]) (stream (sc_channel k') w')
          \<and> kind l \<in> {KOk, KErr} \<and> com' = completion_after l \<and> gathers secret d (ls @ [l]) d'
          \<and> w_sent w' = w_sent w @ concat (map line_reply ls)))"

lemma collected_step:
  assumes "takes_content (stream (sc_channel k) w) raw (stream (sc_channel k1) w1)" and "parse_server_line raw = Ok l"
    and "content l" and "gathers secret d [l] d1" and "w_sent w1 = w_sent w @ line_reply l"
    and "collected_ok limits secret d1 (k1, w1) d' st'"
  shows "collected_ok limits secret d (k, w) d' st'"
proof -
  obtain com' k' w' where st: "st' = (com', k', w')" by (cases st')
  from assms(6) st obtain ls l' where c: "takes_lines (stream (sc_channel k1) w1) (ls @ [l']) (stream (sc_channel k') w')"
    "kind l' \<in> {KOk, KErr}" "com' = completion_after l'" "gathers secret d1 (ls @ [l']) d'"
    "w_sent w' = w_sent w1 @ concat (map line_reply ls)" "within limits d'" "is_usable k'" "reads_ok w'" "list_all content ls"
    by (auto simp: collected_ok_def)
  have "takes_lines (stream (sc_channel k) w) ((l # ls) @ [l']) (stream (sc_channel k') w')"
    using assms(1,2) c(1) by auto
  moreover have "gathers secret d ((l # ls) @ [l']) d'" using gathers_append [OF assms(4) c(4)] by simp
  moreover have "w_sent w' = w_sent w @ concat (map line_reply (l # ls))" using assms(5) c(5) by simp
  moreover have "list_all content (l # ls)" using assms(3) c(9) by simp
  ultimately show ?thesis using c(2,3,6-8) unfolding collected_ok_def st prod.case by blast
qed

lemma says_inquiry: "event_says ev l s \<Longrightarrow> (\<exists>q. ev = EvInquire q) \<longleftrightarrow> kind l = KInquire"
  by (cases l) (auto simp: event_says_def kind_def split: Event.splits option.splits)

lemma event_drop_inv: "sc_inv k \<Longrightarrow> sc_inv (event_drop ev k)"
  by (simp add: event_drop_def inquiry_drop_def invalidate_inv split: Event.split)

text \<open>What was sent stays sent.\<close>

definition grows :: "world \<Rightarrow> world \<Rightarrow> bool" where
  "grows w w' \<longleftrightarrow> (\<exists>bs. w_sent w' = w_sent w @ bs)"

lemma grows_sent: "w_sent w' = w_sent w @ bs \<Longrightarrow> grows w w'" "w_sent w' = w_sent w \<Longrightarrow> grows w w'"
  by (auto simp: grows_def)

lemma grows_trans: "grows w w1 \<Longrightarrow> grows w1 w2 \<Longrightarrow> grows w w2"
  by (auto simp: grows_def)

text \<open>
  Taking one line off the stream and answering it, an inquiry with \<open>CAN\<close> and any other line
  with nothing.
\<close>

definition took :: "SessionCore \<times> world \<Rightarrow> ServerLine \<Rightarrow> SessionCore \<times> world \<Rightarrow> bool" where
  "took st l st' \<longleftrightarrow> (case (st, st') of ((k, w), (k', w')) \<Rightarrow>
     (\<exists>raw. takes_content (stream (sc_channel k) w) raw (stream (sc_channel k') w') \<and> parse_server_line raw = Ok l)
     \<and> sc_inv k' \<and> reads_ok w' \<and> w_sent w' = w_sent w @ line_reply l \<and> core_left (k', w') < core_left (k, w))"

lemma cancel_cases:
  assumes "sc_inv k" and "reads_ok w"
  obtains (sent) k' w' where "inquiry_end True q (k, w) = (Done (), (k', w'))" "sc_inv k'" "reads_ok w'"
      "w_sent w' = w_sent w @ end_line True" "stream (sc_channel k') w' = stream (sc_channel k) w" "core_left (k', w') \<le> core_left (k, w)"
  | (failed) r k' w' where "inquiry_end True q (k, w) = (r, (k', w'))" "\<not> is_done r" "r \<noteq> Abort" "\<not> remote_error r"
      "sc_inv k'" "grows w w'"
proof -
  obtain r k' w' where en: "inquiry_end True q (k, w) = (r, (k', w'))" "sends (end_line True) (k, w) r (k', w')"
    "is_done r \<longrightarrow> (\<exists>m. k' = k\<lparr>sc_machine := m\<rparr>)"
    using inquiry_end_spec [OF assms, of True q] by blast
  show thesis
  proof (cases "is_done r")
    case True
    then have "stream (sc_channel k') w' = stream (sc_channel k) w" using en(2,3) by (auto simp: sends_def stream_def)
    moreover have "r = Done ()" using True by (cases r) auto
    ultimately show thesis using en(1,2) True inquiry_end_left [OF en(1)] by (intro sent) (auto simp: sends_def)
  next
    case False
    then show thesis
      using en(1,2) inquiry_end_not_remote [OF en(1)] by (intro failed) (auto simp: sends_def grows_def)
  qed
qed

text \<open>The four ways in which the next event of a transaction can turn out.\<close>

lemma event_cases:
  assumes "sc_inv k" and "reads_ok w"
  obtains (fails) r com k1 w1 where "next_event alloc ComPending (k, w) = (r, com, k1, w1)" "\<not> is_done r" "r \<noteq> Abort" "\<not> remote_error r"
      "sc_inv k1" "w_sent w1 = w_sent w"
  | (inquires) q l k1 w1 where "next_event alloc ComPending (k, w) = (Done (Some (EvInquire q)), ComPending, k1, w1)" "kind l = KInquire"
      "sc_inv k1" "reads_ok w1" "w_sent w1 = w_sent w"
      "\<And>k2 w2. inquiry_end True q (k1, w1) = (Done (), (k2, w2)) \<Longrightarrow> took (k, w) l (k2, w2)"
  | (finishes) code p l k1 w1 where "next_event alloc ComPending (k, w) = (Done (Some (EvFinished code p)), completion_after l, k1, w1)"
      "kind l \<in> {KOk, KErr}" "took (k, w) l (k1, w1)" "is_usable k1"
  | (says) ev l k1 w1 where "next_event alloc ComPending (k, w) = (Done (Some ev), ComPending, k1, w1)" "content l"
      "kind l \<noteq> KInquire" "event_says ev l (sc_sensitivity k)" "took (k, w) l (k1, w1)"
proof -
  obtain r com k1 w1 where ne: "next_event alloc ComPending (k, w) = (r, com, k1, w1)" "sc_inv k1" "reads_ok w1"
    "w_sent w1 = w_sent w" "r \<noteq> Abort" "r \<noteq> Done None"
    and ok: "\<And>ev. r = Done (Some ev) \<Longrightarrow> event_ok (k, w) ev com (k1, w1)"
    using next_event_cases [OF assms, of alloc ComPending] by blast
  show thesis
  proof (cases "\<exists>ev. r = Done (Some ev)")
    case False
    then have "\<not> is_done r" using ne(6) by (cases r) (auto split: option.splits)
    then show thesis by (rule fails [OF ne(1) _ ne(5) next_event_not_remote [OF ne(1)] ne(2,4)])
  next
    case True
    then obtain ev where ev: "r = Done (Some ev)" by blast
    from ok [OF ev] obtain raw l where
      l: "takes_content (stream (sc_channel k) w) raw (stream (sc_channel k1) w1)" "parse_server_line raw = Ok l"
        "event_says ev l (sc_sensitivity k)" "com = completion_after l"
        "cm_receive (sc_machine k) (kind l) = (Ok (), sc_machine k1)" "\<not> sc_io_uncertain k1"
      by (auto simp: event_ok_def)
    have used: "core_left (k1, w1) < core_left (k, w)" using next_event_uses ne(1) ev by blast
    have plain: "took (k, w) l (k1, w1)" if "kind l \<noteq> KInquire"
      using that l(1,2) ne(2-4) used by (auto simp: took_def line_reply_def kind_def split: ServerLine.splits)
    consider "kind l = KInquire" | "kind l \<in> {KOk, KErr}" | "content l" "kind l \<noteq> KInquire"
      using says_not_empty [OF l(3)] by (auto simp: content_def)
    then show thesis
    proof cases
      case 1
      then obtain q where q: "ev = EvInquire q" using says_inquiry [OF l(3)] by blast
      have com: "com = ComPending" "line_reply l = end_line True"
        using 1 l(4) by (auto simp: completion_after_def kind_def line_reply_def split: ServerLine.splits)
      have "took (k, w) l (k2, w2)" if "inquiry_end True q (k1, w1) = (Done (), (k2, w2))" for k2 w2
        using that com(2) l(1,2) ne(4) used by (cases rule: cancel_cases [OF ne(2,3), where q = q]) (auto simp: took_def)
      then show thesis using inquires ne ev q com(1) 1 by simp
    next
      case 2
      then have "is_usable k1" using final_ready [OF l(5)] l(6) by (auto simp: is_usable_def)
      then show thesis using finishes [of _ _ l] 2 plain ne(1) ev l(4) event_finished [OF l(3)] by auto
    next
      case 3
      then have "com = ComPending" using l(4) by (auto simp: completion_after_def content_def kind_def split: ServerLine.splits)
      then show thesis using says 3 plain ne(1) ev l(3) by blast
    qed
  qed
qed

text \<open>One turn of the loop, by whether there is room for the event.\<close>

definition room :: "CollectLimits \<Rightarrow> Collected \<Rightarrow> bool" where
  "room limits d \<longleftrightarrow> Suc (cd_events d) \<le> min usize_max (cx_max_events limits)"

abbreviation counted :: "Collected \<Rightarrow> Collected" where
  "counted d \<equiv> d\<lparr>cd_events := Suc (cd_events d)\<rparr>"

lemma collect_loop_full:
  "next_event alloc com (k, w) = (Done (Some ev), com1, k1, w1) \<Longrightarrow> \<not> room limits d \<Longrightarrow>
   \<exists>e. collect_loop alloc limits secret d (com, (k, w)) = (Fail (CeLimit e), (com1, (event_drop ev k1, w1)))"
  by (auto simp: collect_loop.simps [of _ _ _ _ com] usize_checked_add_def room_def)

lemma collect_loop_counted:
  "next_event alloc com (k, w) = (Done (Some ev), com1, k1, w1) \<Longrightarrow> room limits d \<Longrightarrow>
   collect_loop alloc limits secret d (com, (k, w)) =
     (case ev of
        EvInquire q \<Rightarrow>
          (case inquiry_end True q (k1, w1) of
             (Done _, s) \<Rightarrow> collect_loop alloc limits secret (counted d) (com1, s)
           | (Fail e, s) \<Rightarrow> (Fail e, (com1, s))
           | (Abort, s) \<Rightarrow> (Abort, (com1, s))
           | (Cancelled, s) \<Rightarrow> (Cancelled, (com1, s)))
      | EvFinished _ _ \<Rightarrow> (Done (counted d, True), (com1, (k1, w1)))
      | _ \<Rightarrow>
          (case collect_event limits secret ev (counted d) of
             Ok d \<Rightarrow> collect_loop alloc limits secret d (com1, (k1, w1))
           | Err e \<Rightarrow> (Fail e, (com1, (k1, w1)))
           | Panic \<Rightarrow> (Abort, (com1, (k1, w1)))))"
  by (cases ev) (simp_all add: collect_loop.simps [of _ _ _ d com] usize_checked_add_def room_def Let_def)

definition collects ::
  "CollectLimits \<Rightarrow> bool \<Rightarrow> Collected \<Rightarrow> SessionCore \<times> world
   \<Rightarrow> (Collected \<times> bool, ClientError) async \<times> Completion \<times> SessionCore \<times> world \<Rightarrow> bool" where
  "collects limits secret d st res \<longleftrightarrow> (case res of (r, (com', k', w')) \<Rightarrow>
     sc_inv k' \<and> r \<noteq> Abort \<and> \<not> remote_error r \<and> grows (snd st) w'
     \<and> (\<forall>d' fin. r = Done (d', fin) \<longrightarrow> fin \<and> collected_ok limits secret d st d' (com', k', w')))"

lemma collects_fail:
  "sc_inv k' \<Longrightarrow> grows w w' \<Longrightarrow> \<not> is_done r \<Longrightarrow> r \<noteq> Abort \<Longrightarrow> \<not> remote_error r \<Longrightarrow> collects limits secret d (k, w) (r, (com', k', w'))"
  by (auto simp: collects_def)

lemma collects_step:
  assumes "took (k, w) l (k1, w1)" and "content l" and "gathers secret d [l] d1" and "collects limits secret d1 (k1, w1) res"
  shows "collects limits secret d (k, w) res"
proof -
  obtain raw where t: "takes_content (stream (sc_channel k) w) raw (stream (sc_channel k1) w1)" "parse_server_line raw = Ok l"
    "w_sent w1 = w_sent w @ line_reply l" using assms(1) by (auto simp: took_def)
  then have "grows w w1" by (simp add: grows_sent)
  then show ?thesis
    using assms(4) collected_step [OF t(1,2) assms(2,3) t(3)] grows_trans by (fastforce simp: collects_def)
qed

lemma collect_loop_spec:
  "sc_inv k \<Longrightarrow> reads_ok w \<Longrightarrow> within limits d \<Longrightarrow>
   collects limits secret d (k, w) (collect_loop alloc limits secret d (ComPending, (k, w)))"
proof (induction "core_left (k, w)" arbitrary: k w d rule: less_induct)
  case less
  have wd: "within limits (counted d)" if "room limits d" using less.prems(3) that by (simp add: within_def retained_def room_def)
  have on: "collects limits secret d (k, w) (collect_loop alloc limits secret d1 (ComPending, (k1, w1)))"
    if "took (k, w) l (k1, w1)" "content l" "gathers secret d [l] d1" "within limits d1" for l d1 k1 w1
    using collects_step [OF that(1-3)] less.hyps [of k1 w1 d1] that(1,4) by (auto simp: took_def)
  have full: "collects limits secret d (k, w) (collect_loop alloc limits secret d (ComPending, (k, w)))"
    if "next_event alloc ComPending (k, w) = (Done (Some ev), com, k1, w1)" "\<not> room limits d" "sc_inv k1" "w_sent w1 = w_sent w" for ev com k1 w1
    using collect_loop_full [OF that(1,2), of secret] that(3,4) by (auto intro!: collects_fail simp: event_drop_inv grows_sent)
  from less.prems(1,2) show ?case
  proof (cases rule: event_cases [where alloc = alloc])
    case (fails r com k1 w1)
    then show ?thesis
      by (cases r) (auto intro!: collects_fail simp: grows_sent collect_loop.simps [of _ _ _ d ComPending])
  next
    case (inquires q l k1 w1)
    have g: "gathers secret d [l] (counted d)" "content l"
      using inquires(2) by (cases l; simp add: gathers_def line_parts kind_def collected_data_def content_def)+
    show ?thesis
    proof (cases "room limits d")
      case True
      note loop = collect_loop_counted [OF inquires(1) True, of secret]
      from inquires(3,4) show ?thesis
      proof (cases rule: cancel_cases [where q = q])
        case (sent k2 w2)
        then show ?thesis using loop on [OF inquires(6) g(2,1) wd [OF True]] by simp
      next
        case (failed r k2 w2)
        then show ?thesis using loop inquires(5) by (cases r) (auto intro!: collects_fail simp: grows_def)
      qed
    qed (use full inquires in blast)
  next
    case (finishes code p l k1 w1)
    have t: "sc_inv k1" "reads_ok w1" "w_sent w1 = w_sent w" "takes_lines (stream (sc_channel k) w) ([] @ [l]) (stream (sc_channel k1) w1)"
      using finishes(2,3) by (auto simp: took_def line_reply_def kind_def split: ServerLine.splits)
    show ?thesis
    proof (cases "room limits d")
      case True
      have "gathers secret d ([] @ [l]) (counted d)"
        using finishes(2) by (cases l) (auto simp: gathers_def line_parts kind_def collected_data_def)
      then have "collected_ok limits secret d (k, w) (counted d) (completion_after l, k1, w1)"
        unfolding collected_ok_def prod.case using wd [OF True] finishes(2,4) t by (intro conjI exI [of _ "[]"] exI [of _ l]) auto
      then show ?thesis using collect_loop_counted [OF finishes(1) True, of secret] t by (auto simp: collects_def grows_sent)
    qed (use full [OF finishes(1)] t in blast)
  next
    case (says ev l k1 w1)
    have t: "sc_inv k1" "w_sent w1 = w_sent w"
      using says(3,5) by (auto simp: took_def line_reply_def kind_def split: ServerLine.splits)
    show ?thesis
    proof (cases "room limits d")
      case True
      have kinds: "kind l \<notin> {KInquire, KOk, KErr}" using says(2,3) by (simp add: content_def)
      note ce = collect_event_spec [OF wd [OF True] says(4) kinds, of secret]
      have loop: "collect_loop alloc limits secret d (ComPending, (k, w)) =
          (case collect_event limits secret ev (counted d) of
             Ok d2 \<Rightarrow> collect_loop alloc limits secret d2 (ComPending, (k1, w1))
           | Err e \<Rightarrow> (Fail e, (ComPending, (k1, w1))) | Panic \<Rightarrow> (Abort, (ComPending, (k1, w1))))"
        using collect_loop_counted [OF says(1) True, of secret] says_inquiry [OF says(4)] event_finished [OF says(4)] kinds
        by (cases ev) auto
      show ?thesis
      proof (cases "collect_event limits secret ev (counted d)")
        case (Ok d2)
        then have "within limits d2" "gathers secret d [l] d2" using ce by (auto simp: gathers_def)
        then show ?thesis using loop Ok on [OF says(5,2)] by simp
      qed (use ce loop t collect_event_not_remote [of limits secret ev "counted d"] in \<open>auto intro!: collects_fail simp: grows_sent\<close>)
    qed (use full [OF says(1)] t in blast)
  qed
qed

section \<open>Collected responses\<close>

lemma tx_drop_usable:
  "sc_inv k \<Longrightarrow> is_usable (tx_drop k)
     \<or> sc_dead (tx_drop k) \<and> ch_wiped (sc_channel (tx_drop k)) \<and> \<not> ch_open (sc_channel (tx_drop k))"
  using sc_invalidate_closed [of k] by (auto simp: tx_drop_def is_usable_def)

lemma tx_finish_ready:
  "is_usable k \<Longrightarrow> tx_finish com k =
     ((case com of ComRemote code \<Rightarrow> Err (CeRemote code) | ComSuccess \<Rightarrow> Ok () | ComPending \<Rightarrow> Err CeIncomplete), k)"
  by (simp add: tx_finish_def sc_check_eq sc_dead_def cm_dead_def is_usable_def tx_drop_def split: Completion.split)

lemma final_completion:
  "kind l \<in> {KOk, KErr} \<Longrightarrow> completion_after l = ComSuccess \<Longrightarrow> \<exists>t. l = LineOk t"
  by (cases l) (auto simp: kind_def completion_after_def)

definition usable_or_closed :: "SessionCore \<Rightarrow> bool" where
  "usable_or_closed k \<longleftrightarrow> is_usable k \<or> sc_dead k \<and> ch_wiped (sc_channel k) \<and> \<not> ch_open (sc_channel k)"

text \<open>What a transaction took off the stream, up to the line that ended it.\<close>

definition answered_by ::
  "SessionCore \<times> world \<Rightarrow> ServerLine list \<Rightarrow> ServerLine \<Rightarrow> SessionCore \<times> world \<Rightarrow> bool" where
  "answered_by st ls l st' \<longleftrightarrow> (case (st, st') of ((k, w), (k', w')) \<Rightarrow>
     list_all content ls \<and> takes_lines (stream (sc_channel k) w) (ls @ [l]) (stream (sc_channel k') w')
     \<and> w_sent w' = w_sent w @ concat (map line_reply ls) \<and> is_usable k' \<and> reads_ok w')"

definition holds_lines :: "bool \<Rightarrow> Collected \<Rightarrow> ServerLine list \<Rightarrow> bool" where
  "holds_lines secret d ls \<longleftrightarrow>
     collected_data secret d = concat (map line_data ls) \<and> cd_statuses d = concat (map line_statuses ls)
     \<and> cd_comments d = concat (map line_comments ls) \<and> cd_events d = Suc (length ls)"

lemma collect_transaction_cases:
  assumes "sc_inv k" and "reads_ok w" and "\<And>n. alloc n \<Longrightarrow> n \<le> isize_max"
  shows "\<exists>r k' w'. collect_transaction alloc limits secret ComPending (k, w) = (r, (k', w')) \<and> sc_inv k' \<and> usable_or_closed k' \<and> r \<noteq> Abort \<and> grows w w'
     \<and> (\<forall>d. r = Done d \<longrightarrow> retained d \<le> cx_max_bytes limits \<and> cd_events d \<le> cx_max_events limits
          \<and> (\<exists>ls t. answered_by (k, w) ls (LineOk t) (k', w') \<and> holds_lines secret d ls))
     \<and> (\<forall>code. r = Fail (CeRemote code) \<longrightarrow> (\<exists>ls t. answered_by (k, w) ls (LineErr code t) (k', w')))"
proof (cases "sb_with_capacity alloc (if secret then cx_max_bytes limits else 0)")
  case (Ok store)
  let ?d = "\<lparr>cd_data = [], cd_secret = store, cd_statuses = [], cd_comments = [], cd_events = 0\<rparr>"
  have st: "sb_invar store" "sb_expose store = []" using sb_with_capacity_invar [OF assms(3) Ok] by auto
  have wd: "within limits ?d" using st sb_len_expose [OF st(1)] by (simp add: within_def retained_def)
  obtain r com' k1 w1 where cl: "collect_loop alloc limits secret ?d (ComPending, (k, w)) = (r, (com', k1, w1))" by (metis prod_cases4)
  have co: "sc_inv k1" "r \<noteq> Abort" "\<not> remote_error r" "grows w w1"
    "\<And>d' fin. r = Done (d', fin) \<Longrightarrow> fin \<and> collected_ok limits secret ?d (k, w) d' (com', k1, w1)"
    using collect_loop_spec [OF assms(1,2) wd, of secret alloc] cl by (auto simp: collects_def)
  have drop: "usable_or_closed (tx_drop k1)" "sc_inv (tx_drop k1)"
    using tx_drop_usable [OF co(1)] co(1) by (auto simp: usable_or_closed_def tx_drop_def invalidate_inv)
  show ?thesis
  proof (cases "\<exists>d. r = Done d")
    case True
    then obtain d where r: "r = Done (d, True)" using co(5) by (metis (full_types) surj_pair)
    from co(5) [OF r] obtain ls l where c: "within limits d" "kind l \<in> {KOk, KErr}" "com' = completion_after l"
      "gathers secret ?d (ls @ [l]) d" "answered_by (k, w) ls l (k1, w1)" "is_usable k1"
      by (auto simp: collected_ok_def answered_by_def)
    have fin: "tx_finish com' k1 =
        ((case com' of ComRemote code \<Rightarrow> Err (CeRemote code) | ComSuccess \<Rightarrow> Ok () | ComPending \<Rightarrow> Err CeIncomplete), k1)"
      by (rule tx_finish_ready [OF c(6)])
    have "holds_lines secret d ls"
      using c(2,4) st(2) by (cases l) (auto simp: gathers_def holds_lines_def collected_data_def line_parts kind_def)
    then show ?thesis
      using Ok cl co(1,4) r c fin
      by (cases l) (auto simp: collect_transaction_def within_def usable_or_closed_def completion_after_def kind_def)
  next
    case False
    then show ?thesis
      using Ok cl co(2-4) drop by (cases r) (auto simp: collect_transaction_def)
  qed
next
  case (Err e)
  then show ?thesis
    using tx_drop_usable [OF assms(1)] assms(1)
    by (auto simp: collect_transaction_def usable_or_closed_def tx_drop_def invalidate_inv grows_sent)
next
  case Panic
  then show ?thesis by (simp add: sb_with_capacity_def split: if_splits)
qed

text \<open>
  C14: Collected responses are exact and bounded. The collector does not panic; afterwards
  the session is usable, or it is dead with its channel closed and wiped. A response it
  returns holds exactly the data, statuses and comments of the lines the operation consists
  of, up to the \<open>OK\<close> that ends it; every inquiry was answered with \<open>CAN\<close> and nothing else was
  sent; the retained bytes and the number of events are within the limits. A remote error it
  reports is the one of the \<open>ERR\<close> that ended the operation, and the session stays usable. The
  allocator is only assumed to respect the platform's largest allocation.
\<close>

theorem collect_exact:
  assumes "sc_inv k" and "reads_ok w" and "\<And>n. alloc n \<Longrightarrow> n \<le> isize_max"
  shows "case collect_transaction alloc limits secret ComPending (k, w) of (r, (k', w')) \<Rightarrow>
     usable_or_closed k'
   \<and> (case r of
        Done d \<Rightarrow> retained d \<le> cx_max_bytes limits \<and> cd_events d \<le> cx_max_events limits
          \<and> (\<exists>ls t. answered_by (k, w) ls (LineOk t) (k', w') \<and> holds_lines secret d ls)
      | Fail (CeRemote code) \<Rightarrow> \<exists>ls t. answered_by (k, w) ls (LineErr code t) (k', w')
      | Abort \<Rightarrow> False
      | _ \<Rightarrow> True)"
proof -
  obtain r k' w' where "collect_transaction alloc limits secret ComPending (k, w) = (r, (k', w'))" "usable_or_closed k'" "r \<noteq> Abort"
    "\<forall>d. r = Done d \<longrightarrow> retained d \<le> cx_max_bytes limits \<and> cd_events d \<le> cx_max_events limits
       \<and> (\<exists>ls t. answered_by (k, w) ls (LineOk t) (k', w') \<and> holds_lines secret d ls)"
    "\<forall>code. r = Fail (CeRemote code) \<longrightarrow> (\<exists>ls t. answered_by (k, w) ls (LineErr code t) (k', w'))"
    using collect_transaction_cases [OF assms, where limits = limits and secret = secret] by blast
  then show ?thesis by (simp split: async.split ClientError.split)
qed

definition sample_conversation :: world where
  "sample_conversation = \<lparr>w_reads = [Chunk (lit ''D a%25'' @ [LF] @ lit ''S KEY v'' @ [LF]), Chunk (lit ''OK'' @ [LF])],
     w_writes = [], w_clock = [], w_sent = [], w_instant_max = 1000\<rparr>"

definition sample_command :: SessionCore where
  "sample_command = \<lparr>sc_channel = ch_new, sc_machine = \<lparr>cm_state = CCommand, cm_inquiry_origin = CGreeting\<rparr>,
     sc_io_uncertain = False, sc_deadline = 5, sc_sensitivity = Public, sc_inquiry_timeout = 9,
     sc_max_inquiry_bytes = 100\<rparr>"

theorem collect_exact_witness:
  "sc_inv sample_command \<and> reads_ok sample_conversation
   \<and> (case collect_transaction (\<lambda>n. n \<le> 4096) CollectLimits_default False ComPending (sample_command, sample_conversation) of
        (r, (k', w')) \<Rightarrow> usable_or_closed k'
          \<and> (case r of Done d \<Rightarrow> retained d \<le> 16777216 \<and> cd_events d \<le> 4096 | Abort \<Rightarrow> False | _ \<Rightarrow> True))"
proof -
  have inv: "sc_inv sample_command" by (simp add: sc_inv_def sample_command_def ch_new_inv cm_good_def)
  have reads: "reads_ok sample_conversation"
    by (simp add: reads_ok_def sample_conversation_def MAX_LINE_BYTES_def lit_def)
  have alloc: "n \<le> 4096 \<Longrightarrow> n \<le> isize_max" for n by (simp add: isize_max_def)
  obtain r k' w' where run: "collect_transaction (\<lambda>n. n \<le> 4096) CollectLimits_default False ComPending
      (sample_command, sample_conversation) = (r, (k', w'))" by (metis prod_cases3)
  note c = collect_exact [OF inv reads, where alloc = "\<lambda>n. n \<le> 4096" and limits = CollectLimits_default and secret = False,
      OF alloc, unfolded run prod.case]
  show ?thesis
    unfolding run prod.case using inv reads c by (cases r) (auto simp: CollectLimits_default_def)
qed

end
