(* ===== verification/Client_Greeting.thy ===== *)
theory Client_Greeting
  imports Client_Props
begin

text \<open>
  The options and the greeting of the client (\<open>assuan-client/src/options.rs\<close>,
  \<open>handshake.rs\<close>, \<open>Client::handshake\<close> and \<open>Client::from_stream\<close>): exactly which options are
  accepted, and that driving the greeting gives a usable client or an error, whatever the
  greeting handler does.
\<close>

section \<open>Options\<close>

text \<open>What the next readings of the clock show.\<close>

definition clock_readings :: "nat \<Rightarrow> world \<Rightarrow> nat list" where
  "clock_readings n w = take n (w_clock w @ replicate n 0)"

lemma clock_readings_Suc: "clock_readings (Suc n) w = fst (now w) # clock_readings n (snd (now w))"
  by (cases "w_clock w")
     (auto simp: clock_readings_def now_def replicate_append_same [symmetric] simp del: replicate_append_same)

definition fits_clock :: "nat \<Rightarrow> nat \<times> nat \<Rightarrow> bool" where
  "fits_clock latest dt \<longleftrightarrow> 0 < fst dt \<and> snd dt + fst dt \<le> latest"

lemma co_deadline_eq:
  "fst (co_deadline d w) =
     (if fits_clock (w_instant_max w) (d, fst (now w)) then Ok (fst (now w) + d) else Err CeInvalidOptions)"
  using now_keeps [of w]
  by (cases "now w") (auto simp: co_deadline_def checked_deadline_def fits_clock_def Let_def)

lemma validate_durations_eq:
  "fst (validate_durations ds w) =
     (if list_all (fits_clock (w_instant_max w)) (zip ds (clock_readings (length ds) w)) then Ok () else Err CeInvalidOptions)"
proof (induction ds arbitrary: w)
  case (Cons d ds)
  obtain r w1 where d: "co_deadline d w = (r, w1)" by force
  note eq = co_deadline_eq [of d w, unfolded d]
  show ?case
  proof (cases "fits_clock (w_instant_max w) (d, fst (now w))")
    case True
    then have "w1 = snd (now w)" "r = Ok (fst (now w) + d)"
      using d eq now_keeps [of w]
      by (cases "now w"; auto simp: co_deadline_def checked_deadline_def fits_clock_def Let_def)+
    then show ?thesis using d True Cons.IH [of w1] now_keeps [of w] by (simp add: clock_readings_Suc)
  next
    case False
    then show ?thesis using d eq by (simp add: clock_readings_Suc)
  qed
qed simp

lemma validate_durations_keeps:
  "validate_durations ds w = (r, w') \<Longrightarrow>
     w_reads w' = w_reads w \<and> w_sent w' = w_sent w \<and> r \<noteq> Panic \<and> (\<forall>e. r = Err e \<longrightarrow> e = CeInvalidOptions)"
proof (induction ds arbitrary: w)
  case (Cons d ds)
  obtain x w1 where d: "co_deadline d w = (x, w1)" by force
  show ?case using Cons d co_deadline_keeps [OF d] by (cases x) auto
qed auto

lemma co_validate_keeps:
  "co_validate opts w = (r, w') \<Longrightarrow>
     w_reads w' = w_reads w \<and> w_sent w' = w_sent w \<and> r \<noteq> Panic \<and> (\<forall>e. r = Err e \<longrightarrow> e = CeInvalidOptions)"
  using validate_durations_keeps by (auto simp: co_validate_def simp del: validate_durations.simps split: if_splits)

text \<open>
  Options are validated exactly. Client options are accepted if and only if the inquiry
  limit is not zero, no timeout is zero, and each timeout, added to the reading of the
  monotonic clock at that moment, is an instant the platform can represent; every other
  choice is the documented error, and collection limits are accepted if and only if neither
  is zero.
\<close>

theorem options_validated_exactly:
  "fst (co_validate opts w) =
     (if co_max_inquiry_bytes opts \<noteq> 0
         \<and> list_all (fits_clock (w_instant_max w))
             (zip [co_connect_timeout opts, co_greeting_timeout opts, co_command_timeout opts, co_inquiry_timeout opts]
                  (clock_readings 4 w))
      then Ok () else Err CeInvalidOptions)
   \<and> CollectLimits_new max_bytes max_events =
      (if max_bytes \<noteq> 0 \<and> max_events \<noteq> 0
       then Ok \<lparr>cx_max_bytes = max_bytes, cx_max_events = max_events\<rparr> else Err CeInvalidOptions)"
  using validate_durations_eq
    [of "[co_connect_timeout opts, co_greeting_timeout opts, co_command_timeout opts, co_inquiry_timeout opts]" w]
  by (simp add: co_validate_def CollectLimits_new_def eval_nat_numeral del: validate_durations.simps)

section \<open>The greeting\<close>

lemma respond_keeps:
  "sc_inv k \<Longrightarrow> reads_ok w \<Longrightarrow> respond p q (k, w) = (r, (k', w')) \<Longrightarrow> sc_inv k' \<and> reads_ok w' \<and> r \<noteq> Abort"
proof (induction p arbitrary: q k w)
  case (GSend s bs f)
  obtain x k1 w1 where se: "inquiry_send bs s q (k, w) = (x, (k1, w1))" "sends (data_wire bs) (k, w) x (k1, w1)"
    using inquiry_send_spec [OF GSend.prems(1,2), of bs s q] by blast
  have ok: "sc_inv k1" "reads_ok w1" "x \<noteq> Abort" using se(2) by (auto simp: sends_def)
  show ?case
  proof (cases x)
    case (Done q')
    then have "respond (f None) q' (k1, w1) = (r, (k', w'))" using GSend.prems(3) se(1) by simp
    then show ?thesis using GSend.IH [OF _ ok(1,2)] by blast
  next
    case (Fail e)
    then have "respond (f (Some e)) q (k1, w1) = (r, (k', w'))" using GSend.prems(3) se(1) by simp
    then show ?thesis using GSend.IH [OF _ ok(1,2)] by blast
  qed (use GSend.prems(3) se(1) ok in \<open>auto simp: inquiry_drop_def invalidate_inv\<close>)
next
  case (GComplete b f)
  obtain x k1 w1 where en: "inquiry_end b q (k, w) = (x, (k1, w1))" "sends (end_line b) (k, w) x (k1, w1)"
    using inquiry_end_spec [OF GComplete.prems(1,2), of b q] by blast
  have ok: "sc_inv k1" "reads_ok w1" "x \<noteq> Abort" using en(2) by (auto simp: sends_def)
  show ?case
    using GComplete.prems(3) en(1) ok by (cases x) (auto simp: as_result_def split: option.splits)
qed (auto simp: inquiry_drop_def invalidate_inv as_result_def split: option.splits if_splits)

lemma answer_keeps:
  assumes "sc_inv k" and "reads_ok w" and "answer_greeting handler n q (k, w) = (r, (k', w'))"
  shows "sc_inv k' \<and> reads_ok w' \<and> r \<noteq> Abort"
proof (cases handler)
  case None
  then show ?thesis
    using assms(3) inquiry_end_spec [OF assms(1,2), of True q] by (auto simp: answer_greeting_def sends_def)
next
  case (Some f)
  then have "respond (f n q) q (k, w) = (r, (k', w'))" using assms(3) by (simp add: answer_greeting_def)
  then show ?thesis by (rule respond_keeps [OF assms(1,2)])
qed

definition hs_good :: "ClientOptions \<Rightarrow> Handshake \<times> world \<Rightarrow> bool" where
  "hs_good opts s \<longleftrightarrow> (case s of (h, w) \<Rightarrow> reads_ok w
     \<and> (case hs_error h of Some _ \<Rightarrow> True
        | None \<Rightarrow> (case hs_client h of None \<Rightarrow> False
            | Some c \<Rightarrow> sc_inv (cl_core c) \<and> cl_options c = opts
                \<and> (hs_completion h = ComSuccess \<longrightarrow> is_usable (cl_core c) \<or> sc_dead (cl_core c)))))"

lemma hs_next_keeps:
  assumes "hs_good opts (h, w)" and "hs_next alloc (h, w) = (r, h', w')"
  shows "r \<noteq> Abort \<and> (is_done r \<longrightarrow> hs_good opts (h', w') \<and> hs_error h' = None)
     \<and> (\<forall>q. r = Done (Some (EvInquire q)) \<longrightarrow> hs_completion h' = ComPending)"
proof (cases "hs_error h")
  case (Some e)
  then show ?thesis using assms(2) by (auto simp: hs_next_def)
next
  case None
  then obtain c where c: "hs_client h = Some c" "sc_inv (cl_core c)" "cl_options c = opts" "reads_ok w"
    "hs_completion h = ComSuccess \<longrightarrow> is_usable (cl_core c) \<or> sc_dead (cl_core c)"
    using assms(1) by (auto simp: hs_good_def split: option.splits)
  obtain com k where n: "next_event alloc (hs_completion h) (cl_core c, w) = (r, com, k, w')"
    and h': "h' = h\<lparr>hs_client := Some (c\<lparr>cl_core := k\<rparr>), hs_completion := com\<rparr>"
    using assms(2) None c(1) by (auto simp: hs_next_def split: prod.splits)
  have spec: "sc_inv k" "reads_ok w'" "r \<noteq> Abort"
    "r = Done None \<Longrightarrow> com = hs_completion h \<and> k = cl_core c"
    "\<And>ev. r = Done (Some ev) \<Longrightarrow> event_ok (cl_core c, w) ev com (k, w')"
    using next_event_cases [OF c(2,4), of alloc "hs_completion h"] n by auto
  have final: "is_usable k" if "r = Done (Some ev)" "com = ComSuccess" for ev
  proof -
    from spec(5) [OF that(1)] obtain l where "com = completion_after l" "\<not> sc_io_uncertain k"
      "cm_receive (sc_machine (cl_core c)) (kind l) = (Ok (), sc_machine k)" by (auto simp: event_ok_def)
    moreover have "kind l \<in> {KOk, KErr}" using \<open>com = completion_after l\<close> that(2)
      by (cases l) (auto simp: completion_after_def kind_def)
    ultimately show ?thesis using final_ready by (simp add: is_usable_def)
  qed
  have pend: "com = ComPending" if "r = Done (Some (EvInquire q))" for q
  proof -
    from spec(5) [OF that] obtain l where "com = completion_after l" "event_says (EvInquire q) l (sc_sensitivity (cl_core c))"
      by (auto simp: event_ok_def)
    then show ?thesis by (cases l) (auto simp: event_says_def completion_after_def split: option.splits)
  qed
  show ?thesis
    using spec(1-4) final pend None c(3,5) h'
    by (cases r; cases "\<exists>ev. r = Done (Some ev)") (auto simp: hs_good_def split: option.splits)
qed

lemma hs_drive_spec:
  "hs_good opts s \<Longrightarrow> hs_drive alloc handler n s = (r, w') \<Longrightarrow>
   r \<noteq> Abort \<and> (\<forall>c. r = Done c \<longrightarrow> is_usable (cl_core c) \<and> sc_inv (cl_core c) \<and> cl_options c = opts \<and> reads_ok w')"
proof (induction alloc handler n s rule: hs_drive.induct)
  case (1 alloc handler n s)
  obtain h w where s: "s = (h, w)" by force
  obtain x h1 w1 where nx: "hs_next alloc s = (x, h1, w1)" by (metis prod_cases3)
  note k = hs_next_keeps [OF "1.prems"(1) [unfolded s] nx [unfolded s]]
  show ?case
  proof (cases x)
    case (Done o')
    have good: "hs_good opts (h1, w1)" "hs_error h1 = None" using k Done by auto
    then obtain c where c: "hs_client h1 = Some c" "sc_inv (cl_core c)" "cl_options c = opts" "reads_ok w1"
      "hs_completion h1 = ComSuccess \<longrightarrow> is_usable (cl_core c) \<or> sc_dead (cl_core c)"
      by (auto simp: hs_good_def split: option.splits)
    show ?thesis
    proof (cases o')
      case None
      then show ?thesis
        using "1.prems"(2) nx Done c good
        by (auto simp: hs_drive.simps [of alloc handler n s] hs_finish_def sc_check_eq split: if_splits Completion.splits)
    next
      case (Some ev)
      show ?thesis
      proof (cases "\<exists>q. ev = EvInquire q")
        case True
        then obtain q where q: "ev = EvInquire q" by blast
        have com: "hs_completion h1 = ComPending" using k Done Some q by simp
        obtain a k2 w2 where an: "answer_greeting handler n q (cl_core c, w1) = (a, (k2, w2))" by (metis prod_cases3)
        note ak = answer_keeps [OF c(2,4) an]
        let ?h = "h1\<lparr>hs_client := Some (c\<lparr>cl_core := k2\<rparr>)\<rparr>"
        have g: "hs_good opts (?h, w2)" using good(2) c(3) ak com by (simp add: hs_good_def)
        have IH: "a = Done () \<Longrightarrow> hs_drive alloc handler (n + 1) (?h, w2) = (r, w') \<Longrightarrow> ?thesis"
          using "1.IH"(1) [OF nx [symmetric] Done Some refl q c(1) an [symmetric] _ refl g] by simp
        show ?thesis
          using "1.prems"(2) nx Done Some q c(1) an ak IH
          by (cases a) (auto simp: hs_drive.simps [of alloc handler n s])
      next
        case False
        have "hs_drive alloc handler n s = hs_drive alloc handler n (h1, w1)"
          using nx Done Some False by (cases ev) (auto simp: hs_drive.simps [of alloc handler n s])
        then have eq: "hs_drive alloc handler n (h1, w1) = (r, w')" using "1.prems"(2) by simp
        show ?thesis using "1.IH" nx Done Some False good(1) eq by (cases ev) auto
      qed
    qed
  qed (use "1.prems"(2) nx k in \<open>auto simp: hs_drive.simps [of alloc handler n s]\<close>)
qed

lemma drive_handshake:
  assumes "reads_ok w"
  shows "case hs_drive alloc handler 0 (client_handshake opts w) of (r, w') \<Rightarrow>
     (case r of
        Done c \<Rightarrow> is_usable (cl_core c) \<and> sc_inv (cl_core c) \<and> cl_options c = opts \<and> fst (co_validate opts w) = Ok ()
      | Abort \<Rightarrow> False
      | _ \<Rightarrow> True)
   \<and> (if fst (co_validate opts w) = Ok () then True
      else r = Fail CeInvalidOptions \<and> w_reads w' = w_reads w \<and> w_sent w' = w_sent w)"
proof -
  obtain v w1 where v: "co_validate opts w = (v, w1)" by force
  have w1: "w_reads w1 = w_reads w" "w_sent w1 = w_sent w" "v \<noteq> Panic" "\<And>e. v = Err e \<Longrightarrow> e = CeInvalidOptions"
    using v co_validate_keeps [of opts w] by auto
  show ?thesis
  proof (cases v)
    case (Ok u)
    obtain d w2 where d: "co_deadline (co_greeting_timeout opts) w1 = (d, w2)" by force
    note k = co_deadline_keeps [OF d]
    have "reads_ok w2" using assms w1 k by (simp add: reads_ok_def)
    then have "hs_good opts (client_handshake opts w)"
      using v d k now_keeps [of w2] by (cases d; cases "now w2")
        (auto simp: Ok client_handshake_def hs_good_def sc_inv_def ch_new_inv cm_good_def cm_new_def Let_def reads_ok_def)
    then show ?thesis
      using hs_drive_spec [of opts "client_handshake opts w" alloc handler 0] v Ok
      by (auto split: prod.splits async.splits)
  next
    case (Err e)
    obtain t w2 where t: "now w1 = (t, w2)" by force
    then obtain c where "client_handshake opts w = (\<lparr>hs_client = Some c, hs_completion = ComPending, hs_error = Some e\<rparr>, w2)"
      using v Err by (simp add: client_handshake_def Let_def)
    then show ?thesis
      using v Err w1 t now_keeps [of w1] by (simp add: hs_drive.simps [of _ _ 0] hs_next_def)
  qed (use w1 in simp)
qed

text \<open>
  The greeting gives a usable client or an error. Whatever the server sends, whatever a
  greeting handler does with the inquiries it is given (answer in pieces, cancel, fail, walk
  away, outlive the deadline, be dropped), and without a handler, driving the handshake does
  not panic, and a client it returns is ready for a command, carries the given options and
  satisfies the session invariant. With invalid options nothing is read or sent.
\<close>

theorem client_greeting:
  assumes "reads_ok w"
  shows "case hs_drive alloc handler 0 (client_handshake opts w) of (r, w') \<Rightarrow>
     (case r of
        Done c \<Rightarrow> is_usable (cl_core c) \<and> sc_inv (cl_core c) \<and> cl_options c = opts \<and> fst (co_validate opts w) = Ok ()
      | Abort \<Rightarrow> False
      | _ \<Rightarrow> True)
   \<and> (if fst (co_validate opts w) = Ok () then True
      else r = Fail CeInvalidOptions \<and> w_reads w' = w_reads w \<and> w_sent w' = w_sent w)"
  by (rule drive_handshake [OF assms])

theorem client_greeting_witness:
  "case client_from_stream (\<lambda>n. n \<le> 4096) (ClientOptions_default\<lparr>co_max_inquiry_bytes := 0\<rparr>) sample_world of
     (r, w') \<Rightarrow> r = Fail CeInvalidOptions \<and> w_sent w' = []"
proof -
  let ?o = "ClientOptions_default\<lparr>co_max_inquiry_bytes := 0\<rparr>"
  have "fst (co_validate ?o sample_world) = Err CeInvalidOptions" by (simp add: co_validate_def)
  then show ?thesis
    using client_greeting [OF sample_ok(1), where alloc = "\<lambda>n. n \<le> 4096" and handler = None and opts = ?o]
    by (simp add: client_from_stream_def sample_world_def split: prod.splits)
qed

end
