(* ===== verification/Discovery.thy ===== *)
theory Discovery
  imports Channel Message
begin

text \<open>
  Endpoints, connecting and agent discovery (\<open>assuan-transport/src/endpoint.rs\<close>, \<open>tcp.rs\<close>,
  \<open>discovery.rs\<close>), as built for Unix, where discovery ends with a socket path; the reader of the
  native Windows socket file is modelled as well. The pipes asked for when the process is
  spawned are there. Opening a socket and running a process are the environment's: an attempt has an
  outcome, and the process is the sequence of what its pipes and its exit report, in any
  interleaving.
\<close>

section \<open>Endpoints\<close>

datatype IpAddr = IpV4 u32 | IpV6 "128 word"

record SocketAddr =
  sa_ip :: IpAddr
  sa_port :: u16

datatype Endpoint = EpTcp SocketAddr | EpUnix bytes

record ConnectOptions =
  cn_timeout :: nat

definition ConnectOptions_default :: ConnectOptions where
  "ConnectOptions_default = \<lparr>cn_timeout = 10 * 1000000000\<rparr>"

datatype LocalAccess = CurrentUser

record ListenOptions =
  ln_local_access :: LocalAccess

definition ListenOptions_default :: ListenOptions where
  "ListenOptions_default = \<lparr>ln_local_access = CurrentUser\<rparr>"

definition with_local_access :: "LocalAccess \<Rightarrow> ListenOptions \<Rightarrow> ListenOptions" where
  "with_local_access access opts = opts\<lparr>ln_local_access := access\<rparr>"

datatype PeerIdentity = UnixPeer u32 u32 "u32 option"

definition is_unspecified :: "IpAddr \<Rightarrow> bool" where
  "is_unspecified ip = (case ip of IpV4 a \<Rightarrow> a = 0 | IpV6 a \<Rightarrow> a = 0)"

section \<open>Connecting\<close>

text \<open>
  How an attempt to open a socket ends. The stream of a connection is the world it is used
  in, so a successful attempt has no value of its own.
\<close>

datatype attempt = Opened | Refused io_error | AttemptElapsed | AttemptDropped

type_synonym 'a connecting = "(world, 'a, TransportError) io"

definition attempt_result :: "attempt \<Rightarrow> unit connecting" where
  "attempt_result a w =
     (case a of
        Opened \<Rightarrow> (Done (), w)
      | Refused e \<Rightarrow> (Fail (TIo e), w)
      | AttemptElapsed \<Rightarrow> (Fail TTimeout, w)
      | AttemptDropped \<Rightarrow> (Cancelled, w))"

definition within_deadline :: "ConnectOptions \<Rightarrow> 'a connecting \<Rightarrow> 'a connecting" where
  "within_deadline opts body w =
     (if cn_timeout opts = 0 then (Fail TTimeout, w)
      else let (t, w) = now w in
        if t + cn_timeout opts > w_instant_max w then (Fail TInvalidOptions, w) else body w)"

definition connect :: "Endpoint \<Rightarrow> ConnectOptions \<Rightarrow> attempt \<Rightarrow> unit connecting" where
  "connect endpoint opts a =
     within_deadline opts (\<lambda>w.
       (case endpoint of
          EpTcp address \<Rightarrow>
            if sa_port address = 0 \<or> is_unspecified (sa_ip address) then (Fail TInvalidEndpoint, w)
            else attempt_result a w
        | EpUnix path \<Rightarrow> attempt_result a w))"

section \<open>A resolved endpoint\<close>

record ResolvedEndpoint =
  re_endpoint :: Endpoint
  re_nonce :: "SecretBytes option"

text \<open>\<open>write_all\<close> and \<open>flush\<close> of the nonce on the new stream.\<close>

definition send_nonce :: "bytes \<Rightarrow> unit connecting" where
  "send_nonce bs w =
     (case next_write w of
        (Flushed, w) \<Rightarrow> (Done (), deliver_bytes bs w)
      | (WriteError n e, w) \<Rightarrow> (Fail (TIo e), deliver_bytes (take n bs) w)
      | (WriteElapsed n, w) \<Rightarrow> (Fail TTimeout, deliver_bytes (take n bs) w)
      | (WriteDropped n, w) \<Rightarrow> (Cancelled, deliver_bytes (take n bs) w))"

definition re_connect :: "ResolvedEndpoint \<Rightarrow> ConnectOptions \<Rightarrow> attempt \<Rightarrow> unit connecting" where
  "re_connect r opts a =
     within_deadline opts
       (bindM (connect (re_endpoint r) opts a) (\<lambda>_.
        case re_nonce r of None \<Rightarrow> returnM () | Some nonce \<Rightarrow> send_nonce (sb_expose nonce)))"

definition resolved_debug :: "ResolvedEndpoint \<Rightarrow> dbg" where
  "resolved_debug r = DStruct ''ResolvedEndpoint'' [(''has_nonce'', DBool (re_nonce r \<noteq> None))] True"

section \<open>The native socket file\<close>

fun parse_port :: "u16 \<Rightarrow> bytes \<Rightarrow> (u16, TransportError) result" where
  "parse_port port [] = Ok port"
| "parse_port port (d # ds) =
     (if \<not> is_ascii_digit d then Err (TDiscovery InvalidOutput)
      else bind (ok_or (Option.bind (word_checked_mul port 10)
                         (\<lambda>v. word_checked_add v (ucast (d - 0x30)))) (TDiscovery InvalidOutput))
             (\<lambda>port. parse_port port ds))"

definition parse_native_socket_file :: "(nat \<Rightarrow> bool) \<Rightarrow> bytes \<Rightarrow> (ResolvedEndpoint, TransportError) result" where
  "parse_native_socket_file alloc bs =
     (if starts_with (lit ''!<socket >'') bs then Err (TDiscovery UnsupportedFormat)
      else if length bs > 22 then Err (TDiscovery InvalidOutput)
      else if LF \<notin> set bs then Err (TDiscovery InvalidOutput)
      else let split = length (takeWhile (\<lambda>b. b \<noteq> LF) bs) in
        if split = 0 \<or> split > 5 \<or> length bs - split - 1 \<noteq> 16 then Err (TDiscovery InvalidOutput)
        else bind (parse_port 0 (take split bs)) (\<lambda>port.
          if port = 0 then Err (TDiscovery InvalidOutput)
          else bind (map_err TLimit (sb_with_capacity alloc 16)) (\<lambda>nonce.
            (case sb_extend_from_slice nonce (drop (split + 1) bs) of
               (Ok _, nonce) \<Rightarrow>
                 Ok \<lparr>re_endpoint = EpTcp \<lparr>sa_ip = IpV4 0x7F000001, sa_port = port\<rparr>, re_nonce = Some nonce\<rparr>
             | (Err e, _) \<Rightarrow> Err (TLimit e)
             | (Panic, _) \<Rightarrow> Panic))))"

text \<open>
  Reading the file: its reads are given, an empty one is its end. A read returns at most
  what the rest of the buffer takes.
\<close>

fun read_up_to :: "nat \<Rightarrow> (bytes, io_error) result list \<Rightarrow> bytes \<Rightarrow> (bytes, TransportError) result" where
  "read_up_to cap rs used =
     (if cap \<le> length used then Ok used
      else case rs of
        [] \<Rightarrow> Ok used
      | r # rs \<Rightarrow>
          bind (map_err TIo r) (\<lambda>bs.
          if bs = [] then Ok used else read_up_to cap rs (used @ take (cap - length used) bs)))"

declare read_up_to.simps [simp del]

definition protected_buffer :: "(nat \<Rightarrow> bool) \<Rightarrow> nat \<Rightarrow> (bytes, LimitError) result" where
  "protected_buffer alloc capacity = (if alloc capacity then Ok (replicate capacity 0) else Err AllocationFailed)"

definition read_native_socket_file ::
  "(nat \<Rightarrow> bool) \<Rightarrow> (unit, io_error) result \<Rightarrow> (bool, io_error) result \<Rightarrow> (bytes, io_error) result list
   \<Rightarrow> (ResolvedEndpoint, TransportError) result" where
  "read_native_socket_file alloc opened is_file rs =
     bind (map_err TIo opened) (\<lambda>_.
     bind (map_err TIo is_file) (\<lambda>regular.
     if \<not> regular then Err (TDiscovery InvalidOutput)
     else bind (map_err TLimit (protected_buffer alloc 23)) (\<lambda>_.
          bind (read_up_to 23 rs []) (\<lambda>bs. parse_native_socket_file alloc bs))))"

section \<open>The process\<close>

definition OUTPUT_LIMIT :: nat where "OUTPUT_LIMIT = 1024 * 1024"
definition DISCOVERY_TIMEOUT :: nat where "DISCOVERY_TIMEOUT = 5 * 1000000000"

record AgentLocator =
  al_executable :: bytes
  al_homedir :: "bytes option"

definition AgentLocator_new :: "bytes \<Rightarrow> bytes option \<Rightarrow> AgentLocator" where
  "AgentLocator_new executable homedir = \<lparr>al_executable = executable, al_homedir = homedir\<rparr>"

definition locator_debug :: "AgentLocator \<Rightarrow> dbg" where
  "locator_debug a = DStruct ''AgentLocator'' [(''has_homedir'', DBool (al_homedir a \<noteq> None))] True"

text \<open>The command line.\<close>

definition locator_args :: "AgentLocator \<Rightarrow> bytes list" where
  "locator_args a =
     (case al_homedir a of None \<Rightarrow> [] | Some home \<Rightarrow> [lit ''--homedir'', home])
     @ [lit ''--list-dirs'', lit ''agent-socket'']"

text \<open>
  What happens while the process is watched: a read of one of the pipes returns bytes (none
  at its end) or fails, the process exits with success or not, waiting for it fails, the
  deadline passes, or the future is dropped.
\<close>

datatype proc_event =
    Piped bool bytes \<comment> \<open>\<open>True\<close> for stdout\<close>
  | PipeError bool io_error
  | Exited bool
  | WaitError io_error
  | ProcElapsed
  | ProcDropped

record Watch =
  wt_budget :: nat
  wt_output :: SecretBytes
  wt_out_open :: bool
  wt_err_open :: bool
  wt_status :: "bool option"

text \<open>One read of \<open>read_output\<close>: the shared budget first, then the collected bytes.\<close>

definition read_output :: "bool \<Rightarrow> bytes \<Rightarrow> Watch \<Rightarrow> (Watch, TransportError) result" where
  "read_output collect bs t =
     (if bs = [] then Ok (if collect then t\<lparr>wt_out_open := False\<rparr> else t\<lparr>wt_err_open := False\<rparr>)
      else if length bs > wt_budget t then Err (TDiscovery OutputLimit)
      else let t = t\<lparr>wt_budget := wt_budget t - length bs\<rparr> in
        if \<not> collect then Ok t
        else (case sb_extend_from_slice (wt_output t) bs of
                (Ok _, out) \<Rightarrow> Ok (t\<lparr>wt_output := out\<rparr>)
              | (Err e, _) \<Rightarrow> Err (TLimit e)
              | (Panic, _) \<Rightarrow> Panic))"

text \<open>
  The three futures of \<open>try_join!\<close>: the first error ends them all, and they are complete
  when both pipes are at their end and the process has exited. A pipe at its end is not
  read again, and an exited process is not waited for again.
\<close>

definition watch_over :: "Watch \<Rightarrow> bool" where
  "watch_over t \<longleftrightarrow> \<not> wt_out_open t \<and> \<not> wt_err_open t \<and> wt_status t \<noteq> None"

definition watch_event :: "proc_event \<Rightarrow> Watch \<Rightarrow> (Watch, TransportError) async" where
  "watch_event e t =
     (case e of
        Piped out bs \<Rightarrow>
          if (if out then wt_out_open t else wt_err_open t) then lift_result id (read_output out bs t) else Done t
      | PipeError out err \<Rightarrow>
          if (if out then wt_out_open t else wt_err_open t) then Fail (TIo err) else Done t
      | Exited success \<Rightarrow> Done (if wt_status t = None then t\<lparr>wt_status := Some success\<rparr> else t)
      | WaitError err \<Rightarrow> if wt_status t = None then Fail (TIo err) else Done t
      | ProcElapsed \<Rightarrow> Fail TTimeout
      | ProcDropped \<Rightarrow> Cancelled)"

fun watch :: "proc_event list \<Rightarrow> Watch \<Rightarrow> (SecretBytes, TransportError) async" where
  "watch evs t =
     (if watch_over t
      then (if wt_status t = Some True then Done (wt_output t) else Fail (TDiscovery ProcessFailed))
      else case evs of
        [] \<Rightarrow> Fail TTimeout
      | e # evs \<Rightarrow>
          (case watch_event e t of
             Done t \<Rightarrow> watch evs t
           | Fail e \<Rightarrow> Fail e
           | Abort \<Rightarrow> Abort
           | Cancelled \<Rightarrow> Cancelled))"

declare watch.simps [simp del]

text \<open>
  \<open>run_process\<close> says besides its result whether the process was killed and waited for. The
  buffers of the two readers are allocated before anything is read.
\<close>

definition run_process ::
  "(nat \<Rightarrow> bool) \<Rightarrow> (unit, io_error) result \<Rightarrow> proc_event list \<Rightarrow> (SecretBytes, TransportError) async \<times> bool" where
  "run_process alloc spawned evs =
     (case spawned of
        Err e \<Rightarrow> (Fail (TIo e), False)
      | Panic \<Rightarrow> (Abort, False)
      | Ok _ \<Rightarrow>
          let result =
            (case sb_with_capacity alloc OUTPUT_LIMIT of
               Err e \<Rightarrow> Fail (TLimit e)
             | Panic \<Rightarrow> Abort
             | Ok output \<Rightarrow>
                 if \<not> alloc 8192 \<or> \<not> alloc 0 then Fail (TLimit AllocationFailed)
                 else watch evs \<lparr>wt_budget = OUTPUT_LIMIT, wt_output = output, wt_out_open = True,
                                  wt_err_open = True, wt_status = None\<rparr>)
          in (result, (case result of Fail _ \<Rightarrow> True | _ \<Rightarrow> False)))"

definition output_path :: "bytes \<Rightarrow> (bytes, TransportError) result" where
  "output_path out =
     (case strip_suffix [LF] out of
        None \<Rightarrow> Err (TDiscovery InvalidOutput)
      | Some bs \<Rightarrow>
          if bs = [] \<or> list_ex (\<lambda>b. b \<in> {0, LF}) bs then Err (TDiscovery InvalidOutput)
          else if \<not> starts_with (lit ''/'') bs then Err (TDiscovery InvalidOutput)
          else Ok bs)"

definition resolve ::
  "(nat \<Rightarrow> bool) \<Rightarrow> (unit, io_error) result \<Rightarrow> proc_event list \<Rightarrow> world \<Rightarrow> (ResolvedEndpoint, TransportError) async" where
  "resolve alloc spawned evs w =
     (let (t, w) = now w in
      if t + DISCOVERY_TIMEOUT > w_instant_max w then Abort
      else case fst (run_process alloc spawned evs) of
        Done output \<Rightarrow>
          (case output_path (sb_expose output) of
             Ok path \<Rightarrow> Done \<lparr>re_endpoint = EpUnix path, re_nonce = None\<rparr>
           | Err e \<Rightarrow> Fail e
           | Panic \<Rightarrow> Abort)
      | Fail e \<Rightarrow> Fail e
      | Abort \<Rightarrow> Abort
      | Cancelled \<Rightarrow> Cancelled)"

section \<open>What discovery reads\<close>

text \<open>The bytes a pipe delivers before its end.\<close>

fun upto_eof :: "bool \<Rightarrow> proc_event list \<Rightarrow> bytes" where
  "upto_eof out [] = []"
| "upto_eof out (e # evs) =
     (case e of
        Piped out' bs \<Rightarrow> if out' = out then (if bs = [] then [] else bs @ upto_eof out evs) else upto_eof out evs
      | _ \<Rightarrow> upto_eof out evs)"

definition ahead :: "bool \<Rightarrow> proc_event list \<Rightarrow> Watch \<Rightarrow> bytes" where
  "ahead out evs t = (if (if out then wt_out_open t else wt_err_open t) then upto_eof out evs else [])"

definition watch_inv :: "Watch \<Rightarrow> bool" where
  "watch_inv t \<longleftrightarrow> sb_invar (wt_output t) \<and> length (sb_expose (wt_output t)) + wt_budget t \<le> sb_capacity (wt_output t)"

lemma read_output_cases:
  assumes "watch_inv t" and "bs \<noteq> []" and "length bs \<le> wt_budget t"
  shows "\<exists>t'. read_output out bs t = Ok t' \<and> watch_inv t' \<and> wt_budget t' = wt_budget t - length bs
    \<and> wt_out_open t' = wt_out_open t \<and> wt_err_open t' = wt_err_open t \<and> wt_status t' = wt_status t
    \<and> sb_expose (wt_output t') = sb_expose (wt_output t) @ (if out then bs else [])"
proof (cases out)
  case True
  have "length (sb_expose (wt_output t)) + length bs \<le> sb_capacity (wt_output t)" using assms(1,3) by (simp add: watch_inv_def)
  then obtain b where b: "sb_extend_from_slice (wt_output t) bs = (Ok (), b)" "sb_invar b" "sb_expose b = sb_expose (wt_output t) @ bs"
    "sb_capacity b = sb_capacity (wt_output t)" using secret.extend_fits [of "wt_output t" bs] assms(1) by (auto simp: watch_inv_def)
  then show ?thesis using True assms by (auto simp: read_output_def watch_inv_def Let_def)
next
  case False
  then show ?thesis using assms by (auto simp: read_output_def watch_inv_def Let_def)
qed

text \<open>One event moves bytes from what lies ahead to what was collected, within the budget.\<close>

lemma watch_event_Done:
  assumes "watch_event e t = Done t'" and "watch_inv t"
  shows "watch_inv t' \<and> sb_expose (wt_output t') @ ahead True evs t' = sb_expose (wt_output t) @ ahead True (e # evs) t
    \<and> length (ahead True (e # evs) t) + length (ahead False (e # evs) t) + wt_budget t'
      = length (ahead True evs t') + length (ahead False evs t') + wt_budget t"
proof (cases e)
  case (Piped out bs)
  consider (shut) "\<not> (if out then wt_out_open t else wt_err_open t)"
    | (eof) "if out then wt_out_open t else wt_err_open t" "bs = []"
    | (piece) "if out then wt_out_open t else wt_err_open t" "bs \<noteq> []" by blast
  then show ?thesis
  proof cases
    case piece
    have le: "length bs \<le> wt_budget t"
      using assms(1) Piped piece by (auto simp: watch_event_def read_output_def split: if_splits)
    from read_output_cases [OF assms(2) piece(2) le, of out] show ?thesis
      using assms(1) Piped piece le by (cases out) (auto simp: watch_event_def ahead_def)
  qed (use assms Piped in \<open>auto simp: watch_event_def read_output_def ahead_def watch_inv_def split: if_splits\<close>)
qed (use assms in \<open>auto simp: watch_event_def ahead_def watch_inv_def split: if_splits\<close>)

lemma watch_Done:
  "watch evs t = Done out \<Longrightarrow> watch_inv t \<Longrightarrow>
   sb_expose out = sb_expose (wt_output t) @ ahead True evs t
   \<and> length (ahead True evs t) + length (ahead False evs t) \<le> wt_budget t"
proof (induction evs arbitrary: t)
  case Nil
  then show ?case by (auto simp: watch.simps [of "[]" t] watch_over_def ahead_def split: if_splits)
next
  case (Cons e evs)
  show ?case
  proof (cases "watch_over t")
    case True
    then show ?thesis using Cons.prems by (auto simp: watch.simps [of "e # evs" t] watch_over_def ahead_def split: if_splits)
  next
    case False
    then obtain t' where t': "watch_event e t = Done t'" "watch evs t' = Done out"
      using Cons.prems(1) by (auto simp: watch.simps [of "e # evs" t] split: async.splits)
    note st = watch_event_Done [OF t'(1) Cons.prems(2), of evs]
    from Cons.IH [OF t'(2)] st show ?thesis by auto
  qed
qed

lemma read_output_no_panic: "watch_inv t \<Longrightarrow> read_output out bs t \<noteq> Panic"
  using secret.extend_never_panics [of "wt_output t" bs] 
  by (auto simp: read_output_def watch_inv_def Let_def split: prod.splits result.splits)

lemma watch_no_panic: "watch_inv t \<Longrightarrow> watch evs t \<noteq> Abort"
proof (induction evs arbitrary: t)
  case (Cons e evs)
  have "watch_event e t \<noteq> Abort"
    using read_output_no_panic [OF Cons.prems]
    by (auto simp: watch_event_def lift_result_def split: proc_event.splits result.splits)
  moreover have "watch evs t' \<noteq> Abort" if "watch_event e t = Done t'" for t'
    using Cons.IH watch_event_Done [OF that Cons.prems] by blast
  ultimately show ?case by (simp add: watch.simps [of "e # evs" t] split: async.splits)
qed (simp add: watch.simps [of "[]"])

text \<open>A process that behaves is read to its end.\<close>

definition behaves :: "proc_event list \<Rightarrow> Watch \<Rightarrow> bool" where
  "behaves evs t \<longleftrightarrow> (\<forall>e \<in> set evs. (\<exists>out bs. e = Piped out bs) \<or> e = Exited True)
     \<and> (wt_out_open t \<longrightarrow> Piped True [] \<in> set evs) \<and> (wt_err_open t \<longrightarrow> Piped False [] \<in> set evs)
     \<and> (if wt_status t = None then Exited True \<in> set evs else wt_status t = Some True)
     \<and> length (ahead True evs t) + length (ahead False evs t) \<le> wt_budget t"

lemma read_output_flags:
  "read_output out bs t = Ok t' \<Longrightarrow> wt_out_open t' = (wt_out_open t \<and> \<not> (out \<and> bs = []))
     \<and> wt_err_open t' = (wt_err_open t \<and> \<not> (\<not> out \<and> bs = [])) \<and> wt_status t' = wt_status t"
  by (auto simp: read_output_def Let_def split: if_splits prod.splits result.splits)

lemma watch_event_flags:
  "watch_event e t = Done t' \<Longrightarrow> wt_out_open t' = (wt_out_open t \<and> e \<noteq> Piped True [])
     \<and> wt_err_open t' = (wt_err_open t \<and> e \<noteq> Piped False [])
     \<and> wt_status t' = (case e of Exited s \<Rightarrow> if wt_status t = None then Some s else wt_status t | _ \<Rightarrow> wt_status t)"
  by (cases e) (auto simp: watch_event_def lift_result_def dest: read_output_flags split: if_splits result.splits)

lemma behaves_step:
  assumes "behaves (e # evs) t" and "watch_inv t"
  shows "\<exists>t'. watch_event e t = Done t' \<and> behaves evs t'"
proof -
  have "\<exists>t'. watch_event e t = Done t'"
  proof (cases e)
    case (Piped out bs)
    show ?thesis
    proof (cases "(if out then wt_out_open t else wt_err_open t) \<and> bs \<noteq> []")
      case True
      then have "bs \<noteq> []" "length bs \<le> wt_budget t" using assms(1) Piped by (cases out; auto simp: behaves_def ahead_def)+
      from read_output_cases [OF assms(2) this, of out] show ?thesis using Piped by (auto simp: watch_event_def)
    next
      case False
      then show ?thesis using Piped by (auto simp: watch_event_def read_output_def)
    qed
  qed (use assms(1) in \<open>auto simp: behaves_def watch_event_def\<close>)
  then obtain t' where t': "watch_event e t = Done t'" ..
  note fl = watch_event_flags [OF t'] and st = watch_event_Done [OF t' assms(2), of evs]
  have "behaves evs t'"
    unfolding behaves_def
  proof (intro conjI)
    show "if wt_status t' = None then Exited True \<in> set evs else wt_status t' = Some True"
      using assms(1) fl by (cases e) (auto simp: behaves_def split: if_splits)
    show "length (ahead True evs t') + length (ahead False evs t') \<le> wt_budget t'"
      using assms(1) st by (auto simp: behaves_def)
  qed (use assms(1) fl in \<open>auto simp: behaves_def\<close>)
  then show ?thesis using t' by blast
qed

lemma watch_returns: "behaves evs t \<Longrightarrow> watch_inv t \<Longrightarrow> \<exists>out. watch evs t = Done out"
proof (induction evs arbitrary: t)
  case Nil
  then show ?case by (auto simp: behaves_def watch.simps [of "[]"] watch_over_def split: if_splits)
next
  case (Cons e evs)
  obtain t' where t': "watch_event e t = Done t'" "behaves evs t'" using behaves_step [OF Cons.prems] by blast
  have "watch_inv t'" using watch_event_Done [OF t'(1) Cons.prems(2)] by blast
  from Cons.IH [OF t'(2) this] show ?case
    using t'(1) Cons.prems(1)
    by (cases "watch_over t") (auto simp: watch.simps [of "e # evs" t] watch_over_def behaves_def split: if_splits)
qed

definition watch_start :: Watch where
  "watch_start = \<lparr>wt_budget = OUTPUT_LIMIT, wt_output = \<lparr>sb_storage = replicate OUTPUT_LIMIT 0, sb_len = 0\<rparr>,
                  wt_out_open = True, wt_err_open = True, wt_status = None\<rparr>"

lemma watch_start_inv: "watch_inv watch_start" "sb_expose (wt_output watch_start) = []"
  by (simp_all add: watch_start_def watch_inv_def sb_invar_def sb_expose_def sb_capacity_def OUTPUT_LIMIT_def isize_max_def)

lemma ahead_start: "ahead out evs watch_start = upto_eof out evs" "wt_budget watch_start = OUTPUT_LIMIT"
  by (simp_all add: ahead_def watch_start_def)

lemma run_process_watch: "fst (run_process (\<lambda>_. True) (Ok ()) evs) = watch evs watch_start"
  by (simp add: run_process_def sb_with_capacity_def watch_start_def Let_def)

lemma output_path_Ok:
  "output_path out = Ok path \<longleftrightarrow> out = path @ [LF] \<and> starts_with (lit ''/'') path \<and> list_all (\<lambda>b. b \<notin> {0, LF}) path"
proof (cases "strip_suffix [LF] out")
  case None
  then have "out \<noteq> path @ [LF]" using strip_suffix_Some [of "[LF]" out path] by auto
  then show ?thesis using None by (simp add: output_path_def)
next
  case (Some bs)
  then have "out = bs @ [LF]" by (simp add: strip_suffix_Some)
  then show ?thesis using Some by (auto simp: output_path_def starts_with_def lit_def list_ex_iff list_all_iff)
qed

lemma output_path_no_panic: "output_path out \<noteq> Panic"
  by (auto simp: output_path_def split: option.splits if_splits)

text \<open>
  C35: Discovery finds exactly what the process printed. With memory available it succeeds
  only with an absolute path without NUL and line feed that the process wrote to its
  standard output, followed by one line feed and the end; both outputs together stayed
  within one MiB, however the reads were interleaved. A process that stays within the
  limit, prints such a line, ends its outputs and exits successfully is always resolved.
  Discovery panics only when its deadline is beyond the clock's range.
\<close>

theorem discovery_exact:
  "(case resolve (\<lambda>_. True) (Ok ()) evs w of
      Done r \<Rightarrow> \<exists>path. r = \<lparr>re_endpoint = EpUnix path, re_nonce = None\<rparr> \<and> upto_eof True evs = path @ [LF]
        \<and> starts_with (lit ''/'') path \<and> list_all (\<lambda>b. b \<notin> {0, LF}) path
        \<and> length (upto_eof True evs) + length (upto_eof False evs) \<le> OUTPUT_LIMIT
    | Abort \<Rightarrow> fst (now w) + DISCOVERY_TIMEOUT > w_instant_max w
    | _ \<Rightarrow> True)
   \<and> (if behaves evs watch_start \<and> is_ok (output_path (upto_eof True evs)) \<and> fst (now w) + DISCOVERY_TIMEOUT \<le> w_instant_max w
      then is_done (resolve (\<lambda>_. True) (Ok ()) evs w) else True)"
proof
  obtain t w1 where n: "now w = (t, w1)" by force
  have im: "w_instant_max w1 = w_instant_max w" using now_keeps(4) [of w] n by simp
  note rs = resolve_def run_process_watch n
  show "case resolve (\<lambda>_. True) (Ok ()) evs w of
      Done r \<Rightarrow> \<exists>path. r = \<lparr>re_endpoint = EpUnix path, re_nonce = None\<rparr> \<and> upto_eof True evs = path @ [LF]
        \<and> starts_with (lit ''/'') path \<and> list_all (\<lambda>b. b \<notin> {0, LF}) path
        \<and> length (upto_eof True evs) + length (upto_eof False evs) \<le> OUTPUT_LIMIT
    | Abort \<Rightarrow> fst (now w) + DISCOVERY_TIMEOUT > w_instant_max w | _ \<Rightarrow> True"
  proof (cases "t + DISCOVERY_TIMEOUT > w_instant_max w1")
    case True
    then show ?thesis using im by (simp add: rs)
  next
    case False
    show ?thesis
    proof (cases "watch evs watch_start")
      case (Done out)
      from watch_Done [OF Done watch_start_inv(1)] have
        o': "sb_expose out = upto_eof True evs" "length (upto_eof True evs) + length (upto_eof False evs) \<le> OUTPUT_LIMIT"
        by (simp_all add: ahead_start watch_start_inv(2))
      show ?thesis
        using False Done o' output_path_Ok [of "upto_eof True evs"] output_path_no_panic [of "upto_eof True evs"]
        by (cases "output_path (upto_eof True evs)") (auto simp: rs)
    qed (use False watch_no_panic [OF watch_start_inv(1)] in \<open>auto simp: rs\<close>)
  qed
  show "if behaves evs watch_start \<and> is_ok (output_path (upto_eof True evs)) \<and> fst (now w) + DISCOVERY_TIMEOUT \<le> w_instant_max w
      then is_done (resolve (\<lambda>_. True) (Ok ()) evs w) else True"
  proof (cases "behaves evs watch_start")
    case True
    obtain out where out: "watch evs watch_start = Done out" using watch_returns [OF True watch_start_inv(1)] ..
    have "sb_expose out = upto_eof True evs" using watch_Done [OF out watch_start_inv(1)] by (simp add: ahead_start watch_start_inv(2))
    then show ?thesis using out im by (cases "output_path (upto_eof True evs)") (auto simp: rs)
  qed simp
qed

section \<open>The socket file and the nonce\<close>

lemma port_step:
  "Option.bind (word_checked_mul port 10) (\<lambda>v. word_checked_add v (ucast (d - 0x30 :: byte))) =
     (if unat port * 10 + digit d < 2 ^ 16 then Some (of_nat (unat port * 10 + digit d) :: u16) else None)"
proof (cases "unat port * 10 < 2 ^ 16")
  case True
  then have m: "word_checked_mul port 10 = Some (port * 10)" and "unat (port * 10) = unat port * 10"
    by (simp_all add: word_checked_mul_def unat_word_ariths)
  moreover have "unat (ucast (d - 0x30 :: byte) :: u16) = digit d"
  proof -
    have "unat (d - 0x30) < 2 ^ LENGTH(16)" using unsigned_less [of "d - 0x30"] by (rule less_trans) simp
    then show ?thesis by (simp add: digit_def unsigned_ucast_eq take_bit_nat_eq_self)
  qed
  ultimately show ?thesis
    by (auto simp: word_checked_add_def word_unat_eq_iff unat_word_ariths unat_of_nat)
qed (simp add: word_checked_mul_def)

lemma parse_port_eq:
  "parse_port port ds =
     (if list_all is_ascii_digit ds \<and> num (unat port) ds < 2 ^ 16
      then Ok (of_nat (num (unat port) ds)) else Err (TDiscovery InvalidOutput))"
proof (induction port ds rule: parse_port.induct)
  case (1 port)
  then show ?case using unsigned_less [of port] by simp
next
  case (2 port d ds)
  let ?n = "unat port * 10 + digit d"
  show ?case
  proof (cases "is_ascii_digit d \<and> ?n < 2 ^ 16")
    case True
    then have "unat (of_nat ?n :: u16) = ?n" by (simp add: unat_of_nat del: of_nat_add of_nat_mult)
    with True "2.IH" [of "of_nat ?n"] show ?thesis by (simp add: port_step del: of_nat_add of_nat_mult)
  next
    case False
    have "?n \<le> num ?n ds" by (rule num_mono)
    with False show ?thesis by (auto simp: port_step)
  qed
qed

lemma nonce_stored:
  "length nonce = 16 \<Longrightarrow> sb_extend_from_slice \<lparr>sb_storage = replicate 16 0, sb_len = 0\<rparr> nonce = (Ok (), \<lparr>sb_storage = nonce, sb_len = 16\<rparr>)"
  using sb_extend_fits [of "\<lparr>sb_storage = replicate 16 0, sb_len = 0\<rparr>" nonce]
  by (simp add: sb_invar_def sb_capacity_def isize_max_def)

lemma digits_not_marker: "ds \<noteq> [] \<Longrightarrow> list_all is_ascii_digit ds \<Longrightarrow> \<not> starts_with (lit ''!<socket >'') (ds @ xs)"
  by (cases ds) (auto simp: starts_with_def lit_def is_ascii_digit_def)

lemma parse_file_split:
  assumes "LF \<notin> set ds"
  shows "parse_native_socket_file (\<lambda>_. True) (ds @ LF # nonce) = Ok r \<longleftrightarrow>
     length ds \<in> {1..5} \<and> list_all is_ascii_digit ds \<and> num 0 ds \<in> {1..65535} \<and> length nonce = 16
     \<and> r = \<lparr>re_endpoint = EpTcp \<lparr>sa_ip = IpV4 0x7F000001, sa_port = of_nat (num 0 ds)\<rparr>,
            re_nonce = Some \<lparr>sb_storage = nonce, sb_len = 16\<rparr>\<rparr>"
proof (cases "length ds \<in> {1..5} \<and> length nonce = 16 \<and> list_all is_ascii_digit ds \<and> num 0 ds < 2 ^ 16")
  case True
  have tw: "takeWhile (\<lambda>b. b \<noteq> LF) (ds @ LF # nonce) = ds" using assms by (induction ds) auto
  have nz: "(of_nat (num 0 ds) :: u16) = 0 \<longleftrightarrow> num 0 ds = 0" using True by (simp add: word_unat_eq_iff unat_of_nat)
  have "\<not> starts_with (lit ''!<socket >'') (ds @ LF # nonce)" using True by (intro digits_not_marker) auto
  then have "parse_native_socket_file (\<lambda>_. True) (ds @ LF # nonce) =
      (if num 0 ds = 0 then Err (TDiscovery InvalidOutput)
       else Ok \<lparr>re_endpoint = EpTcp \<lparr>sa_ip = IpV4 0x7F000001, sa_port = of_nat (num 0 ds)\<rparr>,
                re_nonce = Some \<lparr>sb_storage = nonce, sb_len = 16\<rparr>\<rparr>)"
    using True nz by (auto simp: parse_native_socket_file_def tw Let_def parse_port_eq sb_with_capacity_def nonce_stored map_err_def)
  then show ?thesis using True by auto
next
  case False
  have tw: "takeWhile (\<lambda>b. b \<noteq> LF) (ds @ LF # nonce) = ds" using assms by (induction ds) auto
  have "parse_native_socket_file (\<lambda>_. True) (ds @ LF # nonce) \<noteq> Ok r"
    using False by (auto simp: parse_native_socket_file_def tw Let_def parse_port_eq bind_eq_Ok Suc_le_eq split: if_splits)
  then show ?thesis using False by auto
qed

text \<open>Reading one byte more than the largest file is enough to refuse every longer one.\<close>

lemma read_up_to_pieces:
  "length used \<le> cap \<Longrightarrow>
     read_up_to cap (map Ok pieces) used = Ok (take cap (used @ concat (takeWhile (\<lambda>p. p \<noteq> []) pieces)))"
proof (induction pieces arbitrary: used)
  case (Cons p pieces)
  show ?case
  proof (cases "length used < cap \<and> p \<noteq> []")
    case True
    then have "cap - (length used + min (length p) (cap - length used)) = cap - (length used + length p)"
      "length used + min (length p) (cap - length used) \<le> cap" by (auto simp: min_def)
    then show ?thesis using True Cons.IH [of "used @ take (cap - length used) p"]
      by (simp add: read_up_to.simps [of cap "Ok p # map Ok pieces"])
  qed (use Cons.prems in \<open>auto simp: read_up_to.simps [of cap "Ok p # map Ok pieces"]\<close>)
qed (simp add: read_up_to.simps [of cap "[]"])

lemma starts_with_take: "length p \<le> n \<Longrightarrow> starts_with p (take n xs) \<longleftrightarrow> starts_with p xs"
proof (auto simp: starts_with_iff)
  show "\<exists>ys. xs = p @ ys" if "take n xs = p @ ys" for ys
    using append_take_drop_id [of n xs] that by (metis append_assoc)
qed

lemma parse_file_prefix: "parse_native_socket_file alloc (take 23 bs) = parse_native_socket_file alloc bs"
proof (cases "length bs \<le> 23")
  case False
  have "starts_with (lit ''!<socket >'') (take 23 bs) = starts_with (lit ''!<socket >'') bs"
    by (rule starts_with_take) (simp add: lit_def)
  then show ?thesis using False by (simp add: parse_native_socket_file_def)
qed simp

lemma read_file_pieces:
  "read_native_socket_file (\<lambda>_. True) (Ok ()) (Ok True) (map Ok pieces) =
     parse_native_socket_file (\<lambda>_. True) (concat (takeWhile (\<lambda>p. p \<noteq> []) pieces))"
  by (simp add: read_native_socket_file_def protected_buffer_def read_up_to_pieces parse_file_prefix)

lemma re_connect_sends:
  "case re_connect r opts a w of (res, w') \<Rightarrow>
     let nonce = (case re_nonce r of None \<Rightarrow> [] | Some s \<Rightarrow> sb_expose s) in
     w_reads w' = w_reads w
     \<and> (if is_done res then w_sent w' = w_sent w @ nonce else \<exists>n. w_sent w' = w_sent w @ take n nonce)"
proof -
  obtain t w1 where n: "now w = (t, w1)" by force
  have k: "w_reads w1 = w_reads w" "w_sent w1 = w_sent w" using now_keeps [of w] n by simp_all
  obtain q w2 where c: "connect (re_endpoint r) opts a w1 = (q, w2)" by force
  have k2: "w_reads w2 = w_reads w1" "w_sent w2 = w_sent w1"
    using c now_keeps [of w1]
    by (cases "now w1"; auto simp: connect_def within_deadline_def attempt_result_def split: if_splits Endpoint.splits attempt.splits)+
  have z: "\<exists>n. xs = xs @ take n ys" for xs ys :: bytes by (intro exI [of _ 0]) simp
  obtain e w3 where nw: "next_write w2 = (e, w3)" by force
  have k3: "w_reads w3 = w_reads w2" "w_sent w3 = w_sent w2" using nw by (auto simp: next_write_def split: list.splits)
  show ?thesis
    using c k k2 k3 nw z
    by (cases q; cases "re_nonce r"; cases e)
       (auto simp: re_connect_def within_deadline_def n bindM_def returnM_def send_nonce_def deliver_bytes_def)
qed

text \<open>
  C36: The native socket file is read exactly. A file is accepted if and only if it is one to
  five decimal digits that denote a port other than zero within 16 bits, a line feed and
  sixteen arbitrary bytes, and the result is that port on the loopback address with exactly
  those bytes as nonce; reading the file in any pieces
  gives what its whole content gives. Connecting sends the nonce whole before the connection is handed
  out and reads nothing; a failed attempt has sent at most a beginning of it.
\<close>

theorem socket_file_exact:
  "(parse_native_socket_file (\<lambda>_. True) bs = Ok r \<longleftrightarrow>
     (\<exists>ds nonce. bs = ds @ [LF] @ nonce \<and> length ds \<in> {1..5} \<and> list_all is_ascii_digit ds
        \<and> num 0 ds \<in> {1..65535} \<and> length nonce = 16
        \<and> r = \<lparr>re_endpoint = EpTcp \<lparr>sa_ip = IpV4 0x7F000001, sa_port = of_nat (num 0 ds)\<rparr>,
               re_nonce = Some \<lparr>sb_storage = nonce, sb_len = 16\<rparr>\<rparr>))
   \<and> read_native_socket_file (\<lambda>_. True) (Ok ()) (Ok True) (map Ok pieces) =
      parse_native_socket_file (\<lambda>_. True) (concat (takeWhile (\<lambda>p. p \<noteq> []) pieces))
   \<and> (case re_connect r opts attempt w of (res, w') \<Rightarrow>
        let nonce = (case re_nonce r of None \<Rightarrow> [] | Some s \<Rightarrow> sb_expose s) in
        w_reads w' = w_reads w
        \<and> (if is_done res then w_sent w' = w_sent w @ nonce else \<exists>n. w_sent w' = w_sent w @ take n nonce))"
proof (intro conjI)
  show "parse_native_socket_file (\<lambda>_. True) bs = Ok r \<longleftrightarrow>
     (\<exists>ds nonce. bs = ds @ [LF] @ nonce \<and> length ds \<in> {1..5} \<and> list_all is_ascii_digit ds
        \<and> num 0 ds \<in> {1..65535} \<and> length nonce = 16
        \<and> r = \<lparr>re_endpoint = EpTcp \<lparr>sa_ip = IpV4 0x7F000001, sa_port = of_nat (num 0 ds)\<rparr>,
               re_nonce = Some \<lparr>sb_storage = nonce, sb_len = 16\<rparr>\<rparr>)" (is "?P = ?Q")
  proof
    assume p: ?P
    then have "LF \<in> set bs" by (auto simp: parse_native_socket_file_def split: if_splits)
    then obtain ds nonce where bs: "bs = ds @ LF # nonce" "LF \<notin> set ds" by (meson split_list_first)
    from p show ?Q unfolding bs(1) parse_file_split [OF bs(2)] by (intro exI [of _ ds] exI [of _ nonce]) simp
  next
    assume ?Q
    then obtain ds nonce where bs: "bs = ds @ LF # nonce" and q: "list_all is_ascii_digit ds"
      and rest: "length ds \<in> {1..5} \<and> num 0 ds \<in> {1..65535} \<and> length nonce = 16
        \<and> r = \<lparr>re_endpoint = EpTcp \<lparr>sa_ip = IpV4 0x7F000001, sa_port = of_nat (num 0 ds)\<rparr>,
               re_nonce = Some \<lparr>sb_storage = nonce, sb_len = 16\<rparr>\<rparr>" by auto
    have "LF \<notin> set ds" using q by (auto simp: list_all_iff is_ascii_digit_def)
    then show ?P unfolding bs using parse_file_split [of ds nonce r] q rest by blast
  qed
qed (rule read_file_pieces re_connect_sends)+

end
