(* ===== verification/Client_Connect.thy ===== *)
theory Client_Connect
  imports Client_Greeting Discovery
begin

text \<open>
  Opening a client (\<open>Client::connect\<close>, \<open>connect_with\<close> and \<open>from_stream\<close> of
  \<open>assuan-client/src/client.rs\<close>): the options are validated, the transport connects within its
  timeout, and the greeting is driven on the new stream.
\<close>

definition connect_stream :: "Endpoint \<Rightarrow> ClientOptions \<Rightarrow> attempt \<Rightarrow> world \<Rightarrow> (unit, ClientError) async \<times> world" where
  "connect_stream endpoint opts a w =
     (case co_validate opts w of
        (Ok _, w) \<Rightarrow>
          (case connect endpoint \<lparr>cn_timeout = co_connect_timeout opts\<rparr> a w of
             (r, w) \<Rightarrow> (map_fail CeTransport r, w))
      | (Err e, w) \<Rightarrow> (Fail e, w)
      | (Panic, w) \<Rightarrow> (Abort, w))"

definition client_connect ::
  "(nat \<Rightarrow> bool) \<Rightarrow> Endpoint \<Rightarrow> ClientOptions \<Rightarrow> attempt \<Rightarrow> world \<Rightarrow> (Client, ClientError) async \<times> world" where
  "client_connect alloc endpoint opts a = bindM (connect_stream endpoint opts a) (\<lambda>_. client_from_stream alloc opts)"

definition client_connect_with ::
  "(nat \<Rightarrow> bool) \<Rightarrow> Endpoint \<Rightarrow> ClientOptions \<Rightarrow> greeting_handler \<Rightarrow> attempt \<Rightarrow> world \<Rightarrow> (Client, ClientError) async \<times> world" where
  "client_connect_with alloc endpoint opts handler a =
     bindM (connect_stream endpoint opts a) (\<lambda>_ w. hs_drive alloc (Some handler) 0 (client_handshake opts w))"

section \<open>Connecting\<close>

definition connectable :: "Endpoint \<Rightarrow> bool" where
  "connectable endpoint = (case endpoint of EpTcp address \<Rightarrow> sa_port address \<noteq> 0 \<and> \<not> is_unspecified (sa_ip address) | EpUnix _ \<Rightarrow> True)"

lemma within_deadline_cases:
  assumes "within_deadline opts body w = (r, w')"
  shows "(\<exists>w1. w_reads w1 = w_reads w \<and> w_sent w1 = w_sent w \<and> body w1 = (r, w'))
     \<or> (w_reads w' = w_reads w \<and> w_sent w' = w_sent w \<and> r \<in> {Fail TTimeout, Fail TInvalidOptions})"
  using assms now_keeps [of w]
  by (cases "now w") (auto simp: within_deadline_def split: if_splits)

lemma connect_cases:
  assumes "connect endpoint opts a w = (r, w')"
  shows "w_reads w' = w_reads w \<and> w_sent w' = w_sent w \<and> r \<noteq> Abort \<and> (is_done r \<longrightarrow> connectable endpoint \<and> a = Opened)"
  using within_deadline_cases [OF assms [unfolded connect_def]]
  by (auto simp: attempt_result_def connectable_def is_done_def split: Endpoint.splits attempt.splits if_splits)

lemma connect_stream_cases:
  assumes "connect_stream endpoint opts a w = (r, w')"
  shows "w_reads w' = w_reads w \<and> w_sent w' = w_sent w \<and> r \<noteq> Abort
    \<and> (is_done r \<longrightarrow> fst (co_validate opts w) = Ok () \<and> connectable endpoint \<and> a = Opened)"
proof -
  obtain v w1 where v: "co_validate opts w = (v, w1)" by force
  obtain x w2 where c: "connect endpoint \<lparr>cn_timeout = co_connect_timeout opts\<rparr> a w1 = (x, w2)" by force
  show ?thesis
    using assms v c co_validate_keeps [OF v] connect_cases [OF c]
    by (cases v; cases x) (auto simp: connect_stream_def map_fail_def is_done_def)
qed

text \<open>Both ways of connecting drive a greeting, with a handler or without.\<close>

lemma client_connect_drive:
  "client_connect alloc endpoint opts a = bindM (connect_stream endpoint opts a) (\<lambda>_ w. hs_drive alloc None 0 (client_handshake opts w))"
  by (simp add: client_connect_def client_from_stream_def [abs_def])

lemma connect_then_drive:
  assumes ok: "reads_ok w"
    and run: "bindM (connect_stream endpoint opts a) (\<lambda>_ w. hs_drive alloc handler 0 (client_handshake opts w)) w = (r, w')"
  shows "case r of
      Done c \<Rightarrow> is_usable (cl_core c) \<and> sc_inv (cl_core c) \<and> cl_options c = opts
        \<and> fst (co_validate opts w) = Ok () \<and> connectable endpoint \<and> a = Opened
    | Abort \<Rightarrow> False
    | _ \<Rightarrow> if fst (co_validate opts w) = Ok () \<and> connectable endpoint \<and> a = Opened then True
           else w_reads w' = w_reads w \<and> w_sent w' = w_sent w"
proof -
  obtain x w1 where x: "connect_stream endpoint opts a w = (x, w1)" by force
  note k = connect_stream_cases [OF x]
  have "reads_ok w1" using ok k by (simp add: reads_ok_def)
  from drive_handshake [OF this, where alloc = alloc and handler = handler and opts = opts] show ?thesis
    using run x k by (cases x) (auto simp: bindM_def is_done_def split: async.splits prod.splits)
qed

text \<open>
  C33: Connecting gives a usable client or an error. With a greeting handler or without, and
  whatever the server sends, connecting does not panic; a client it returns is ready for a
  command and carries the given options, and it exists only if the options are valid, the
  endpoint can be a destination and the transport opened the connection. Otherwise no byte
  is read or sent.
\<close>

theorem client_connect_usable:
  assumes "reads_ok w"
  shows "list_all (\<lambda>(r, w').
     case r of
       Done c \<Rightarrow> is_usable (cl_core c) \<and> sc_inv (cl_core c) \<and> cl_options c = opts
         \<and> fst (co_validate opts w) = Ok () \<and> connectable endpoint \<and> attempt = Opened
     | Abort \<Rightarrow> False
     | _ \<Rightarrow> if fst (co_validate opts w) = Ok () \<and> connectable endpoint \<and> attempt = Opened then True
            else w_reads w' = w_reads w \<and> w_sent w' = w_sent w)
   [client_connect alloc endpoint opts attempt w, client_connect_with alloc endpoint opts handler attempt w]"
proof -
  obtain r w1 where 1: "client_connect alloc endpoint opts attempt w = (r, w1)" by force
  obtain q w2 where 2: "client_connect_with alloc endpoint opts handler attempt w = (q, w2)" by force
  show ?thesis
    using connect_then_drive [OF assms 1 [unfolded client_connect_drive]]
      connect_then_drive [OF assms 2 [unfolded client_connect_with_def]]
    unfolding 1 2 by simp
qed

theorem client_connect_usable_witness:
  "case client_connect (\<lambda>n. n \<le> 4096) (EpTcp \<lparr>sa_ip = IpV4 0x7F000001, sa_port = 0\<rparr>) ClientOptions_default Opened sample_world of
     (r, w') \<Rightarrow> w_sent w' = [] \<and> \<not> is_done r"
  using client_connect_usable [OF sample_ok(1), where alloc = "\<lambda>n. n \<le> 4096" and opts = ClientOptions_default and attempt = Opened
      and endpoint = "EpTcp \<lparr>sa_ip = IpV4 0x7F000001, sa_port = 0\<rparr>"]
  by (auto simp: connectable_def sample_world_def is_done_def split: prod.splits async.splits)

end
