(* ===== verification/Server_Core.thy ===== *)
theory Server_Core
  imports Channel Machines "HOL-Library.Multiset"
begin

text \<open>
  The parts of \<open>assuan-server\<close> that need no connection: errors (\<open>error.rs\<close>), options
  (\<open>options.rs\<close>), the \<open>OPTION\<close> request and the reasons for closing (\<open>hooks.rs\<close>), the
  category of a request line (\<open>inquiry.rs\<close>, \<open>request_kind\<close>) and the registry of handlers
  (\<open>registry.rs\<close>). Durations and instants are natural numbers of nanoseconds.
\<close>

section \<open>Errors\<close>

datatype RegistryError = InvalidName | Reserved bytes | Duplicate bytes | InvalidDescription

definition registry_error_display :: "RegistryError \<Rightarrow> bytes" where
  "registry_error_display e =
     (case e of
        InvalidName \<Rightarrow> lit ''invalid handler name''
      | Reserved name \<Rightarrow> lit ''handler name is reserved: '' @ name
      | Duplicate name \<Rightarrow> lit ''handler already registered: '' @ name
      | InvalidDescription \<Rightarrow> lit ''invalid handler description'')"

datatype HandlerError =
    HeRemote u32 bytes
  | HeInternal
  | HeTransport TransportError
  | HeProtocol ProtocolError
  | HeState StateError
  | HeLimit LimitError

definition handler_error_display :: "HandlerError \<Rightarrow> bytes" where
  "handler_error_display e =
     (case e of
        HeRemote code _ \<Rightarrow> lit ''remote handler error ('' @ dec (unat code) @ lit '')''
      | HeInternal \<Rightarrow> lit ''internal handler failure''
      | HeTransport _ \<Rightarrow> lit ''handler transport failure''
      | HeProtocol _ \<Rightarrow> lit ''handler protocol failure''
      | HeState _ \<Rightarrow> lit ''handler state failure''
      | HeLimit _ \<Rightarrow> lit ''handler resource limit exceeded'')"

definition handler_error_debug :: "HandlerError \<Rightarrow> dbg" where
  "handler_error_debug e =
     (case e of
        HeRemote code _ \<Rightarrow> DStruct ''Remote'' [(''code'', DNum (unat code))] True
      | HeInternal \<Rightarrow> DText ''Internal''
      | HeTransport _ \<Rightarrow> DText ''Transport { .. }''
      | HeProtocol _ \<Rightarrow> DText ''Protocol { .. }''
      | HeState _ \<Rightarrow> DText ''State { .. }''
      | HeLimit _ \<Rightarrow> DText ''Limit { .. }'')"

definition validate_message :: "u32 \<Rightarrow> bytes \<Rightarrow> (unit, ProtocolError) result" where
  "validate_message code message =
     (case encode_response (LineErr code message) (replicate MAX_LINE_BYTES 0) of
        (Ok _, _) \<Rightarrow> Ok ()
      | (Err e, _) \<Rightarrow> Err e
      | (Panic, _) \<Rightarrow> Panic)"

definition HandlerError_remote :: "u32 \<Rightarrow> bytes \<Rightarrow> (HandlerError, ProtocolError) result" where
  "HandlerError_remote code message = bind (validate_message code message) (\<lambda>_. Ok (HeRemote code message))"

definition validate_remote :: "HandlerError \<Rightarrow> (unit, ProtocolError) result" where
  "validate_remote e = (case e of HeRemote code message \<Rightarrow> validate_message code message | _ \<Rightarrow> Ok ())"

datatype ServerError =
    SvTransport TransportError
  | SvProtocol ProtocolError
  | SvState StateError
  | SvHandler HandlerError
  | SvInvalidOptions

definition server_error_display :: "ServerError \<Rightarrow> string" where
  "server_error_display e =
     (case e of
        SvTransport _ \<Rightarrow> ''server transport failure''
      | SvProtocol _ \<Rightarrow> ''server protocol failure''
      | SvState _ \<Rightarrow> ''server state failure''
      | SvHandler _ \<Rightarrow> ''server handler or hook failure''
      | SvInvalidOptions \<Rightarrow> ''invalid server options'')"

definition INTERNAL :: u32 where "INTERNAL = 63"
definition UNKNOWN_OPTION :: u32 where "UNKNOWN_OPTION = 174"
definition UNKNOWN_COMMAND :: u32 where "UNKNOWN_COMMAND = 175"
definition INVALID_VALUE :: u32 where "INVALID_VALUE = 55"

section \<open>Options\<close>

record ServerOptions =
  so_max_sessions :: nat
  so_greeting_timeout :: nat
  so_command_timeout :: nat
  so_inquiry_timeout :: nat
  so_max_inquiry_bytes :: nat
  so_idle_timeout :: nat
  so_shutdown_timeout :: nat

definition seconds :: "nat \<Rightarrow> nat" where
  "seconds n = n * 10 ^ 9"

definition ServerOptions_default :: ServerOptions where
  "ServerOptions_default =
     \<lparr>so_max_sessions = 128, so_greeting_timeout = seconds 120, so_command_timeout = seconds 300,
      so_inquiry_timeout = seconds 120, so_max_inquiry_bytes = 1024 * 1024,
      so_idle_timeout = seconds 300, so_shutdown_timeout = seconds 30\<rparr>"

definition so_deadline :: "nat \<Rightarrow> world \<Rightarrow> (nat, ServerError) result \<times> world" where
  "so_deadline duration w =
     (if duration = 0 then (Err SvInvalidOptions, w)
      else let (t, w) = now w in
        (if t + duration \<le> w_instant_max w then Ok (t + duration) else Err SvInvalidOptions, w))"

fun so_durations :: "nat list \<Rightarrow> world \<Rightarrow> (unit, ServerError) result \<times> world" where
  "so_durations [] w = (Ok (), w)"
| "so_durations (d # ds) w =
     (case so_deadline d w of
        (Ok _, w) \<Rightarrow> so_durations ds w
      | (Err e, w) \<Rightarrow> (Err e, w)
      | (Panic, w) \<Rightarrow> (Panic, w))"

text \<open>\<open>max_permits\<close> is the largest number of permits a semaphore of the runtime takes.\<close>

definition so_validate :: "nat \<Rightarrow> ServerOptions \<Rightarrow> world \<Rightarrow> (unit, ServerError) result \<times> world" where
  "so_validate max_permits opts w =
     (if so_max_inquiry_bytes opts = 0 \<or> so_max_sessions opts = 0 \<or> so_max_sessions opts > max_permits
      then (Err SvInvalidOptions, w)
      else so_durations
        [so_greeting_timeout opts, so_command_timeout opts, so_inquiry_timeout opts,
         so_idle_timeout opts, so_shutdown_timeout opts] w)"

text \<open>The seven setters: store one field, then validate everything.\<close>

datatype setter =
    MaxSessions nat | MaxInquiryBytes nat | GreetingTimeout nat | CommandTimeout nat
  | InquiryTimeout nat | IdleTimeout nat | ShutdownTimeout nat

fun so_assign :: "setter \<Rightarrow> ServerOptions \<Rightarrow> ServerOptions" where
  "so_assign (MaxSessions v) opts = opts\<lparr>so_max_sessions := v\<rparr>"
| "so_assign (MaxInquiryBytes v) opts = opts\<lparr>so_max_inquiry_bytes := v\<rparr>"
| "so_assign (GreetingTimeout v) opts = opts\<lparr>so_greeting_timeout := v\<rparr>"
| "so_assign (CommandTimeout v) opts = opts\<lparr>so_command_timeout := v\<rparr>"
| "so_assign (InquiryTimeout v) opts = opts\<lparr>so_inquiry_timeout := v\<rparr>"
| "so_assign (IdleTimeout v) opts = opts\<lparr>so_idle_timeout := v\<rparr>"
| "so_assign (ShutdownTimeout v) opts = opts\<lparr>so_shutdown_timeout := v\<rparr>"

definition so_with ::
  "nat \<Rightarrow> setter \<Rightarrow> ServerOptions \<Rightarrow> world \<Rightarrow> (ServerOptions, ServerError) result \<times> world" where
  "so_with max_permits change opts w =
     (case so_validate max_permits (so_assign change opts) w of
        (r, w) \<Rightarrow> (bind r (\<lambda>_. Ok (so_assign change opts)), w))"

section \<open>The OPTION request\<close>

record OptionRequest =
  or_name :: bytes
  or_value :: "bytes option"

definition option_end :: "byte \<Rightarrow> bool" where
  "option_end b \<longleftrightarrow> b = SP \<or> b = TAB \<or> b = EQUALS"

definition OptionRequest_parse :: "bytes \<Rightarrow> (OptionRequest, ProtocolError) result" where
  "OptionRequest_parse bs =
     (if list_ex forbidden bs then Err InvalidLine
      else
        let bs = trim_ascii bs;
            bs = (case strip_prefix (lit ''--'') bs of None \<Rightarrow> bs | Some rest \<Rightarrow> rest);
            fin = (case position option_end bs of None \<Rightarrow> length bs | Some i \<Rightarrow> i);
            name = take fin bs
        in bind (from_utf8 name InvalidToken) (\<lambda>name.
           bind (Command_new name []) (\<lambda>_.
           let rest = trim_ascii (drop fin bs);
               val = (case strip_prefix [EQUALS] rest of
                        Some v \<Rightarrow> Some (trim_ascii v)
                      | None \<Rightarrow> if rest = [] then None else Some rest)
           in Ok \<lparr>or_name = name, or_value = val\<rparr>)))"

definition option_debug :: "OptionRequest \<Rightarrow> dbg" where
  "option_debug r = DStruct ''OptionRequest''
     [(''name_len'', DNum (length (or_name r))),
      (''value_len'', DOpt (map_option (\<lambda>v. DNum (length v)) (or_value r)))] False"

section \<open>Why a session ends\<close>

datatype SessionEnd = EndClean | EndProtocol | EndTransport | EndCancelled | EndTimeout | EndHandler

definition end_reason :: "ServerError \<Rightarrow> SessionEnd" where
  "end_reason e =
     (case e of
        SvTransport TTimeout \<Rightarrow> EndTimeout
      | SvHandler (HeTransport TTimeout) \<Rightarrow> EndTimeout
      | SvProtocol _ \<Rightarrow> EndProtocol
      | SvState _ \<Rightarrow> EndProtocol
      | SvTransport (TProtocol _) \<Rightarrow> EndProtocol
      | SvHandler (HeProtocol _) \<Rightarrow> EndProtocol
      | SvHandler (HeState _) \<Rightarrow> EndProtocol
      | SvHandler (HeTransport (TProtocol _)) \<Rightarrow> EndProtocol
      | SvTransport _ \<Rightarrow> EndTransport
      | SvHandler (HeTransport _) \<Rightarrow> EndTransport
      | SvHandler _ \<Rightarrow> EndHandler
      | SvInvalidOptions \<Rightarrow> EndHandler)"

section \<open>Requests\<close>

definition request_kind :: "bytes \<Rightarrow> (RequestKind, ProtocolError) result" where
  "request_kind line =
     (if list_ex forbidden line then Err InvalidLine
      else if line = [] then Ok ReqEmpty
      else if starts_with (lit ''#'') line then Ok ReqComment
      else if starts_with (lit ''D '') line then Ok ReqData
      else if line = lit ''END'' then Ok ReqEnd
      else if line = lit ''CAN'' then Ok ReqCan
      else bind (Command_parse line) (\<lambda>command.
        if cmd_name command \<in> {lit ''END'', lit ''CAN'', lit ''D''} then Err InvalidLine else Ok ReqCommand))"

section \<open>The registry\<close>

text \<open>
  A handler is its metadata and what it does, of any type. The registry is a hash map: a
  finite map with an order in which iteration visits its keys, which the library does not
  specify, so that \<open>register\<close> takes the rearrangement as an argument.
\<close>

record 'h Handler =
  hd_name :: bytes
  hd_description :: bytes
  hd_call :: 'h

record 'h Registry =
  rg_handlers :: "bytes \<Rightarrow> 'h Handler option"
  rg_order :: "bytes list"

definition rg_new :: "'h Registry" where
  "rg_new = \<lparr>rg_handlers = Map.empty, rg_order = []\<rparr>"

definition reserved_names :: "bytes list" where
  "reserved_names = [lit ''NOP'', lit ''BYE'', lit ''HELP'', lit ''RESET'', lit ''OPTION'']"

definition validate_name :: "bytes \<Rightarrow> (unit, RegistryError) result" where
  "validate_name name =
     bind (map_err (\<lambda>_. InvalidName) (Command_new name [])) (\<lambda>_.
     if length name \<ge> MAX_LINE_BYTES then Err InvalidName
     else if name \<in> set reserved_names then Err (Reserved name)
     else Ok ())"

definition validate_description :: "bytes \<Rightarrow> (unit, RegistryError) result" where
  "validate_description v = (if list_ex forbidden v then Err InvalidDescription else Ok ())"

definition rg_register ::
  "(bytes list \<Rightarrow> bytes list) \<Rightarrow> 'h Handler \<Rightarrow> 'h Registry \<Rightarrow> (unit, RegistryError) result \<times> 'h Registry" where
  "rg_register shuffle h reg =
     (case bind (validate_name (hd_name h)) (\<lambda>_. validate_description (hd_description h)) of
        Err e \<Rightarrow> (Err e, reg)
      | Panic \<Rightarrow> (Panic, reg)
      | Ok _ \<Rightarrow>
          (case rg_handlers reg (hd_name h) of
             Some _ \<Rightarrow> (Err (Duplicate (hd_name h)), reg)
           | None \<Rightarrow>
               (Ok (), reg\<lparr>rg_handlers := (rg_handlers reg)(hd_name h \<mapsto> h),
                           rg_order := shuffle (hd_name h # rg_order reg)\<rparr>)))"

definition rg_get :: "'h Registry \<Rightarrow> bytes \<Rightarrow> 'h Handler option" where
  "rg_get reg name = rg_handlers reg name"

definition rg_entries :: "'h Registry \<Rightarrow> (bytes \<times> 'h Handler) list" where
  "rg_entries reg = List.map_filter (\<lambda>name. map_option (Pair name) (rg_handlers reg name)) (rg_order reg)"

definition rg_debug :: "'h Registry \<Rightarrow> dbg" where
  "rg_debug reg = DStruct ''Registry'' [(''len'', DNum (length (rg_order reg)))] True"

text \<open>The adapter for functions and closures.\<close>

definition closure_handler :: "bytes \<Rightarrow> bytes \<Rightarrow> 'h \<Rightarrow> ('h Handler, RegistryError) result" where
  "closure_handler name description function =
     bind (validate_name name) (\<lambda>_.
     bind (validate_description description) (\<lambda>_.
     Ok \<lparr>hd_name = name, hd_description = description, hd_call = function\<rparr>))"

section \<open>What a table of handlers promises\<close>

text \<open>
  The session relies on three laws: an admissible name that is free is added and found, an
  addition leaves the other names alone, and a refused addition leaves the table alone. So
  the first admissible handler of each name wins, whatever is registered later.
\<close>

locale handler_table =
  fixes inv :: "'r \<Rightarrow> bool"
    and lookup :: "'r \<Rightarrow> bytes \<Rightarrow> 'h option"
    and add :: "'h \<Rightarrow> 'r \<Rightarrow> (unit, RegistryError) result \<times> 'r"
    and name_of :: "'h \<Rightarrow> bytes"
    and admissible :: "'h \<Rightarrow> bool"
  assumes add_free: "inv r \<Longrightarrow> admissible h \<Longrightarrow> lookup r (name_of h) = None \<Longrightarrow>
      \<exists>r'. add h r = (Ok (), r') \<and> inv r' \<and> lookup r' = (lookup r)(name_of h \<mapsto> h)"
    and add_refused: "inv r \<Longrightarrow> \<not> admissible h \<or> lookup r (name_of h) \<noteq> None \<Longrightarrow> \<exists>e. add h r = (Err e, r)"
begin

primrec add_all :: "'h list \<Rightarrow> 'r \<Rightarrow> 'r" where
  "add_all [] r = r"
| "add_all (h # hs) r = add_all hs (snd (add h r))"

lemma add_cases:
  assumes "inv r"
  shows "inv (snd (add h r)) \<and> lookup (snd (add h r)) =
    (if admissible h \<and> lookup r (name_of h) = None then (lookup r)(name_of h \<mapsto> h) else lookup r)"
  using add_free [OF assms, of h] add_refused [OF assms, of h] assms
  by (cases "admissible h \<and> lookup r (name_of h) = None") auto

lemma add_all_inv: "inv r \<Longrightarrow> inv (add_all hs r)"
  by (induction hs arbitrary: r) (auto dest: add_cases)

lemma first_wins:
  "inv r \<Longrightarrow> lookup (add_all hs r) n =
     (case lookup r n of Some h \<Rightarrow> Some h | None \<Rightarrow> find (\<lambda>h. admissible h \<and> name_of h = n) hs)"
proof (induction hs arbitrary: r)
  case (Cons h hs)
  note a = add_cases [OF Cons.prems, of h]
  show ?case using Cons.IH [OF a [THEN conjunct1]] a by (auto split: option.splits)
qed (simp split: option.splits)

end

definition admissible_handler :: "'h Handler \<Rightarrow> bool" where
  "admissible_handler h \<longleftrightarrow> token (hd_name h) \<and> length (hd_name h) < MAX_LINE_BYTES
     \<and> hd_name h \<notin> set reserved_names \<and> clean (hd_description h)"

lemma validate_name_eq:
  "validate_name n = (if \<not> token n \<or> length n \<ge> MAX_LINE_BYTES then Err InvalidName
     else if n \<in> set reserved_names then Err (Reserved n) else Ok ())"
  by (simp add: validate_name_def Command_new_def validate_token_eq validate_line_eq)

lemma register_eq:
  "rg_register shuffle h reg =
     (if admissible_handler h then
        (case rg_handlers reg (hd_name h) of
           Some _ \<Rightarrow> (Err (Duplicate (hd_name h)), reg)
         | None \<Rightarrow> (Ok (), reg\<lparr>rg_handlers := (rg_handlers reg)(hd_name h \<mapsto> h),
                                rg_order := shuffle (hd_name h # rg_order reg)\<rparr>))
      else (fst (rg_register shuffle h reg), reg))
   \<and> (admissible_handler h \<or> (\<exists>e. fst (rg_register shuffle h reg) = Err e))"
  by (auto simp: rg_register_def validate_name_eq validate_description_def admissible_handler_def clean_def)

text \<open>The order lists exactly the registered names, each once.\<close>

definition rg_inv :: "'h Registry \<Rightarrow> bool" where
  "rg_inv reg \<longleftrightarrow> distinct (rg_order reg) \<and> set (rg_order reg) = dom (rg_handlers reg)"

text \<open>A rearrangement keeps the elements and their multiplicities; every instance below is one.\<close>

definition rearranges :: "(bytes list \<Rightarrow> bytes list) \<Rightarrow> bool" where
  "rearranges shuffle \<longleftrightarrow> (\<forall>xs. mset (shuffle xs) = mset xs)"

definition reordering :: "(bytes list \<Rightarrow> bytes list) \<Rightarrow> bytes list \<Rightarrow> bytes list" where
  "reordering shuffle xs = (if mset (shuffle xs) = mset xs then shuffle xs else xs)"

lemma reordering_facts: "distinct (reordering f xs) = distinct xs" "set (reordering f xs) = set xs"
  unfolding reordering_def by (auto dest: mset_eq_setD mset_eq_imp_distinct_iff)

lemma reordering_id: "rearranges f \<Longrightarrow> reordering f = f"
  by (auto simp: rearranges_def reordering_def)

interpretation registry: handler_table rg_inv rg_get "rg_register (reordering shuffle)" hd_name admissible_handler
  for shuffle
proof (unfold_locales, goal_cases)
  case (1 r h)
  then show ?case
    using register_eq [of "reordering shuffle" h r]
    by (auto simp: rg_inv_def rg_get_def reordering_facts fun_eq_iff)
next
  case (2 r h)
  then show ?case
    using register_eq [of "reordering shuffle" h r] by (cases "admissible_handler h") (auto simp: rg_get_def)
qed

primrec register_all :: "(bytes list \<Rightarrow> bytes list) \<Rightarrow> 'h Handler list \<Rightarrow> 'h Registry \<Rightarrow> 'h Registry" where
  "register_all shuffle [] reg = reg"
| "register_all shuffle (h # hs) reg = register_all shuffle hs (snd (rg_register shuffle h reg))"

lemma register_all_table: "register_all (reordering f) hs reg = registry.add_all f hs reg"
  by (induction hs arbitrary: reg) simp_all

lemma map_filter_names:
  "set ns \<subseteq> dom m \<Longrightarrow> List.map_filter (\<lambda>n. map_option (Pair n) (m n)) ns = map (\<lambda>n. (n, the (m n))) ns"
  by (induction ns) (auto simp: List.map_filter_def)

lemma rg_entries_eq: "rg_inv reg \<Longrightarrow> rg_entries reg = map (\<lambda>n. (n, the (rg_handlers reg n))) (rg_order reg)"
  by (simp add: rg_entries_def rg_inv_def map_filter_names)

lemma entries_set: "rg_inv reg \<Longrightarrow> set (rg_entries reg) = {(n, h). rg_get reg n = Some h}"
  by (force simp: rg_entries_eq rg_inv_def rg_get_def)

lemma entries_names: "rg_inv reg \<Longrightarrow> map fst (rg_entries reg) = rg_order reg"
  by (simp add: rg_entries_eq o_def)

text \<open>
  C29: The first admissible registration of a name wins. After registering any list of
  handlers, errors ignored, a lookup finds the first one with that name whose name is a
  token that fits on a line and is not built in and whose description is clean; built-in
  names are never found; and iteration visits each registered name exactly once with its
  handler, in whatever order the hash map keeps.
\<close>

theorem registry_first_wins:
  assumes "rearranges shuffle"
  shows "rg_get (register_all shuffle hs rg_new) name = find (\<lambda>h. admissible_handler h \<and> hd_name h = name) hs
   \<and> set (rg_entries (register_all shuffle hs rg_new)) = {(n, h). rg_get (register_all shuffle hs rg_new) n = Some h}
   \<and> distinct (map fst (rg_entries (register_all shuffle hs rg_new)))
   \<and> (if name \<in> set reserved_names then rg_get (register_all shuffle hs rg_new) name = None else True)"
proof -
  let ?r = "register_all shuffle hs rg_new"
  have new: "rg_inv rg_new" by (simp add: rg_inv_def rg_new_def)
  note inv = registry.add_all_inv [OF new, of shuffle hs, folded register_all_table, unfolded reordering_id [OF assms]]
  have get: "rg_get ?r n = find (\<lambda>h. admissible_handler h \<and> hd_name h = n) hs" for n
    using registry.first_wins [OF new, of shuffle hs n, folded register_all_table, unfolded reordering_id [OF assms]]
    by (simp add: rg_get_def rg_new_def)
  have "find (\<lambda>h. admissible_handler h \<and> hd_name h = n) hs = None" if "n \<in> set reserved_names" for n
    using that by (auto simp: find_None_iff admissible_handler_def)
  then show ?thesis using get entries_set [OF inv] entries_names [OF inv] inv by (simp add: rg_inv_def)
qed

theorem registry_first_wins_witness:
  "rg_get (register_all rev
     [\<lparr>hd_name = lit ''BYE'', hd_description = [], hd_call = 0 :: nat\<rparr>, \<lparr>hd_name = lit ''ECHO'', hd_description = [], hd_call = 1\<rparr>,
      \<lparr>hd_name = lit ''ECHO'', hd_description = [], hd_call = 2\<rparr>] rg_new) (lit ''ECHO'')
   = Some \<lparr>hd_name = lit ''ECHO'', hd_description = [], hd_call = 1\<rparr>"
proof -
  have "rearranges rev" by (simp add: rearranges_def)
  from registry_first_wins [OF this, of "[\<lparr>hd_name = lit ''BYE'', hd_description = [], hd_call = 0 :: nat\<rparr>,
      \<lparr>hd_name = lit ''ECHO'', hd_description = [], hd_call = 1\<rparr>, \<lparr>hd_name = lit ''ECHO'', hd_description = [], hd_call = 2\<rparr>]"
      "lit ''ECHO''"]
  show ?thesis
    by (simp add: admissible_handler_def reserved_names_def lit_def token_def is_ascii_graphic_def MAX_LINE_BYTES_def)
qed

section \<open>Parsing OPTION\<close>

definition trimmed :: "bytes \<Rightarrow> bool" where
  "trimmed bs \<longleftrightarrow> bs = [] \<or> \<not> is_ascii_whitespace (hd bs) \<and> \<not> is_ascii_whitespace (last bs)"

lemma trim_trimmed: "trimmed bs \<Longrightarrow> trim_ascii bs = bs"
proof -
  have d: "bs \<noteq> [] \<Longrightarrow> \<not> p (hd bs) \<Longrightarrow> dropWhile p bs = bs" for p and bs :: bytes by (cases bs) auto
  assume "trimmed bs"
  then show ?thesis
    by (cases "bs = []") (auto simp: trimmed_def trim_ascii_def d hd_rev)
qed

lemma trimmed_trim: "trimmed (trim_ascii bs)"
proof -
  let ?a = "dropWhile is_ascii_whitespace bs"
  let ?b = "dropWhile is_ascii_whitespace (rev ?a)"
  show ?thesis
  proof (cases "?b = []")
    case False
    have "\<not> is_ascii_whitespace (hd ?b)" using False hd_dropWhile by blast
    moreover have "last ?b = hd ?a"
    proof -
      obtain p where p: "p @ ?b = rev ?a" by (metis takeWhile_dropWhile_id)
      have "last (p @ ?b) = last ?b" using False by (rule last_appendR)
      then have "last (rev ?a) = last ?b" by (simp only: p)
      then show ?thesis by (metis False dropWhile.simps(1) hd_rev rev_rev_ident rev.simps(1))
    qed
    moreover have "\<not> is_ascii_whitespace (hd ?a)" using False by (metis dropWhile.simps(1) hd_dropWhile rev.simps(1))
    ultimately show ?thesis using False by (auto simp: trimmed_def trim_ascii_def hd_rev last_rev)
  qed (simp add: trimmed_def trim_ascii_def)
qed

lemma trim_clean: "clean bs \<Longrightarrow> clean (trim_ascii bs)"
  by (auto simp: clean_set trim_ascii_def dest!: set_dropWhileD)

lemma token_not_space: "token t \<Longrightarrow> b \<in> set t \<Longrightarrow> \<not> is_ascii_whitespace b"
proof -
  have "is_ascii_graphic b \<Longrightarrow> \<not> is_ascii_whitespace b" for b unfolding ascii_simps by unat_arith
  then show "token t \<Longrightarrow> b \<in> set t \<Longrightarrow> \<not> is_ascii_whitespace b" by (auto simp: token_def list_all_iff)
qed

definition option_name :: "bytes \<Rightarrow> bool" where
  "option_name n \<longleftrightarrow> token n \<and> EQUALS \<notin> set n"

lemma option_name_end: "option_name n \<Longrightarrow> b \<in> set n \<Longrightarrow> \<not> option_end b"
  using token_not_space [of n b] by (auto simp: option_name_def option_end_def is_ascii_whitespace_def)

lemma position_append: "(\<And>b. b \<in> set n \<Longrightarrow> \<not> p b) \<Longrightarrow> xs = [] \<or> p (hd xs) \<Longrightarrow>
    (case position p (n @ xs) of None \<Rightarrow> length (n @ xs) | Some i \<Rightarrow> i) = length n"
proof (induction n)
  case Nil
  then show ?case by (cases xs) auto
next
  case (Cons b n)
  then show ?case by (auto split: option.splits)
qed

lemma option_parse_named:
  assumes "clean bs" and "(case strip_prefix (lit ''--'') (trim_ascii bs) of None \<Rightarrow> trim_ascii bs | Some rest \<Rightarrow> rest) = n @ xs"
    and "option_name n" and "xs = [] \<or> option_end (hd xs)"
  shows "OptionRequest_parse bs = Ok \<lparr>or_name = n, or_value =
     (case strip_prefix [EQUALS] (trim_ascii xs) of
        Some v \<Rightarrow> Some (trim_ascii v) | None \<Rightarrow> if trim_ascii xs = [] then None else Some (trim_ascii xs))\<rparr>"
proof -
  have p: "(case position option_end (n @ xs) of None \<Rightarrow> length (n @ xs) | Some i \<Rightarrow> i) = length n"
    using position_append [of n option_end xs] option_name_end [OF assms(3)] assms(4) by blast
  have t: "token n" "utf8_valid n" using assms(3) by (auto simp: option_name_def token_utf8)
  have ends: "take (length n) (n @ xs) = n" "drop (length n) (n @ xs) = xs" by simp_all
  show ?thesis
    using assms(1) t
    unfolding OptionRequest_parse_def Let_def assms(2) p ends
    by (simp add: clean_def from_utf8_def Command_new_def validate_token_eq validate_line_eq)
qed

lemma option_parse_sound:
  assumes "OptionRequest_parse bs = Ok r"
  shows "clean bs \<and> option_name (or_name r)
     \<and> (case or_value r of None \<Rightarrow> True | Some v \<Rightarrow> trimmed v \<and> clean v)"
proof -
  define ys where "ys = (case strip_prefix (lit ''--'') (trim_ascii bs) of None \<Rightarrow> trim_ascii bs | Some rest \<Rightarrow> rest)"
  define k where "k = (case position option_end ys of None \<Rightarrow> length ys | Some i \<Rightarrow> i)"
  have cb: "clean bs" using assms by (auto simp: OptionRequest_parse_def clean_def split: if_splits)
  have ok: "token (take k ys)" "r = \<lparr>or_name = take k ys, or_value =
      (case strip_prefix [EQUALS] (trim_ascii (drop k ys)) of
        Some v \<Rightarrow> Some (trim_ascii v) | None \<Rightarrow> if trim_ascii (drop k ys) = [] then None else Some (trim_ascii (drop k ys)))\<rparr>"
    using assms cb unfolding OptionRequest_parse_def Let_def ys_def [symmetric] k_def [symmetric]
    by (auto simp: clean_def bind_eq_Ok from_utf8_def Command_new_def validate_token_eq split: if_splits)
  have cy: "clean ys" using trim_clean [OF cb] by (auto simp: ys_def strip_prefix_Some split: option.splits)
  have "\<not> option_end b" if "b \<in> set (take k ys)" for b
    using that by (auto simp: k_def position_Some position_None in_set_conv_nth split: option.splits)
  then have "EQUALS \<notin> set (take k ys)" by (auto simp: option_end_def)
  moreover have "case or_value r of None \<Rightarrow> True | Some v \<Rightarrow> trimmed v \<and> clean v"
    using ok(2) trim_clean [OF clean_take_drop(2) [OF cy, of k]] trimmed_trim trim_clean
    by (auto simp: strip_prefix_Some split: option.splits)
  ultimately show ?thesis using cb ok by (simp add: option_name_def)
qed

text \<open>
  \<open>OPTION\<close> arguments are parsed as documented. The parser never panics and reports only
  invalid lines and tokens; an accepted name is a token without the separator and an
  accepted value is clean and has no outer whitespace. Conversely a name with an optional
  value is read back from \<open>name\<close>, \<open>name=value\<close> and \<open>name value\<close>, with and without the leading
  dashes, where an absent and an empty value stay different.
\<close>

theorem option_request_roundtrip:
  "(case OptionRequest_parse bs of
      Ok r \<Rightarrow> clean bs \<and> option_name (or_name r) \<and> (case or_value r of None \<Rightarrow> True | Some v \<Rightarrow> trimmed v \<and> clean v)
    | Err e \<Rightarrow> e \<in> {InvalidLine, InvalidToken}
    | Panic \<Rightarrow> False)
   \<and> (if option_name n \<and> trimmed v \<and> clean v \<and> dashes \<in> {[], lit ''--''} \<and> (dashes = lit ''--'' \<or> \<not> starts_with (lit ''--'') n)
      then OptionRequest_parse (dashes @ n) = Ok \<lparr>or_name = n, or_value = None\<rparr>
         \<and> OptionRequest_parse (dashes @ n @ [EQUALS] @ v) = Ok \<lparr>or_name = n, or_value = Some v\<rparr>
         \<and> (if v \<noteq> [] \<and> hd v \<noteq> EQUALS
            then OptionRequest_parse (dashes @ n @ [SP] @ v) = Ok \<lparr>or_name = n, or_value = Some v\<rparr> else True)
      else True)"
proof -
  have err: "case OptionRequest_parse bs of Err e \<Rightarrow> e \<in> {InvalidLine, InvalidToken} | Panic \<Rightarrow> False | Ok _ \<Rightarrow> True"
    by (simp add: OptionRequest_parse_def Let_def bind_def from_utf8_def Command_new_def validate_token_eq validate_line_eq)
  have rt: "OptionRequest_parse (dashes @ n @ xs) = Ok \<lparr>or_name = n, or_value =
       (case strip_prefix [EQUALS] (trim_ascii xs) of
          Some v \<Rightarrow> Some (trim_ascii v) | None \<Rightarrow> if trim_ascii xs = [] then None else Some (trim_ascii xs))\<rparr>"
    if n: "option_name n" "dashes \<in> {[], lit ''--''}" "dashes = lit ''--'' \<or> \<not> starts_with (lit ''--'') n"
      and x: "clean xs" "xs = [] \<or> option_end (hd xs)" "xs = [] \<or> \<not> is_ascii_whitespace (last xs)" for xs
  proof -
    have tn: "token n" "n \<noteq> []" using n(1) by (auto simp: option_name_def token_def)
    have "trimmed (dashes @ n @ xs)"
      using n(2) tn token_not_space [OF tn(1), of "hd n"] token_not_space [OF tn(1), of "last n"] x(3)
      by (auto simp: trimmed_def lit_def is_ascii_whitespace_def last_append)
    then have t: "trim_ascii (dashes @ n @ xs) = dashes @ n @ xs" by (rule trim_trimmed)
    have "dashes = [] \<Longrightarrow> strip_prefix (lit ''--'') (n @ xs) = None"
      using n(3) tn(2) x(2) by (cases n; cases "tl n"; cases xs)
        (auto simp: lit_def starts_with_def option_end_def)
    then have "(case strip_prefix (lit ''--'') (trim_ascii (dashes @ n @ xs)) of None \<Rightarrow> trim_ascii (dashes @ n @ xs) | Some rest \<Rightarrow> rest) = n @ xs"
      unfolding t using n(2) by auto
    moreover have "clean (dashes @ n @ xs)" using n(2) x(1) token_clean [OF tn(1)] by (auto simp: lit_def forbidden_def)
    ultimately show ?thesis using option_parse_named n(1) x(2) by blast
  qed
  have sp: "trim_ascii (SP # v) = v" if "trimmed v" "v \<noteq> []" for v
    using trim_trimmed [OF that(1)] by (simp add: trim_ascii_def is_ascii_whitespace_def)
  have eq: "trim_ascii (EQUALS # v) = EQUALS # v" if "trimmed v" for v
    by (rule trim_trimmed) (use that in \<open>auto simp: trimmed_def is_ascii_whitespace_def\<close>)
  have sound: "case OptionRequest_parse bs of
      Ok r \<Rightarrow> clean bs \<and> option_name (or_name r) \<and> (case or_value r of None \<Rightarrow> True | Some v \<Rightarrow> trimmed v \<and> clean v)
    | Err e \<Rightarrow> e \<in> {InvalidLine, InvalidToken} | Panic \<Rightarrow> False"
    using err option_parse_sound [of bs] by (cases "OptionRequest_parse bs") auto
  have no: "strip_prefix [EQUALS] v = None" if "v \<noteq> []" "hd v \<noteq> EQUALS" for v using that by (cases v) auto
  have ends: "xs = [] \<or> \<not> is_ascii_whitespace (last xs)" if "trimmed v" "xs = [EQUALS] @ v \<or> v \<noteq> [] \<and> xs = [SP] @ v" for xs
    using that by (cases "v = []") (auto simp: trimmed_def is_ascii_whitespace_def)
  have "OptionRequest_parse (dashes @ n) = Ok \<lparr>or_name = n, or_value = None\<rparr>
      \<and> OptionRequest_parse (dashes @ n @ [EQUALS] @ v) = Ok \<lparr>or_name = n, or_value = Some v\<rparr>
      \<and> (if v \<noteq> [] \<and> hd v \<noteq> EQUALS
         then OptionRequest_parse (dashes @ n @ [SP] @ v) = Ok \<lparr>or_name = n, or_value = Some v\<rparr> else True)"
    if h: "option_name n \<and> trimmed v \<and> clean v \<and> dashes \<in> {[], lit ''--''} \<and> (dashes = lit ''--'' \<or> \<not> starts_with (lit ''--'') n)"
  proof (intro conjI)
    show "OptionRequest_parse (dashes @ n) = Ok \<lparr>or_name = n, or_value = None\<rparr>"
      using rt [of "[]"] h by (simp add: trim_ascii_def)
    show "OptionRequest_parse (dashes @ n @ [EQUALS] @ v) = Ok \<lparr>or_name = n, or_value = Some v\<rparr>"
      using rt [of "[EQUALS] @ v"] ends [of "[EQUALS] @ v"] h eq [of v] trim_trimmed [of v]
      by (simp add: option_end_def forbidden_def)
    show "if v \<noteq> [] \<and> hd v \<noteq> EQUALS
        then OptionRequest_parse (dashes @ n @ [SP] @ v) = Ok \<lparr>or_name = n, or_value = Some v\<rparr> else True"
    proof (cases "v \<noteq> [] \<and> hd v \<noteq> EQUALS")
      case True
      then show ?thesis
        using rt [of "[SP] @ v"] ends [of "[SP] @ v"] h sp [of v] no [of v] by (simp add: option_end_def forbidden_def)
    qed auto
  qed
  then show ?thesis using sound unfolding if_bool_eq_conj by blast
qed

theorem option_request_roundtrip_witness:
  "OptionRequest_parse (lit ''--ttyname=/dev/tty'') = Ok \<lparr>or_name = lit ''ttyname'', or_value = Some (lit ''/dev/tty'')\<rparr>
   \<and> OptionRequest_parse (lit ''--ttyname'') = Ok \<lparr>or_name = lit ''ttyname'', or_value = None\<rparr>"
proof -
  have n: "option_name (lit ''ttyname'')" "trimmed (lit ''/dev/tty'')" "clean (lit ''/dev/tty'')"
    by (simp_all add: option_name_def trimmed_def token_def lit_def is_ascii_graphic_def is_ascii_whitespace_def forbidden_def)
  show ?thesis
    using option_request_roundtrip [where n = "lit ''ttyname''" and v = "lit ''/dev/tty''" and dashes = "lit ''--''"] n
    by (simp add: lit_def)
qed

end
