(* ===== verification/Server_Context.thy ===== *)
theory Server_Context
  imports Server_Core Channel_Left Encode
begin

text \<open>
  What a handler can do with its connection (\<open>assuan-server/src/context.rs\<close>,
  \<open>inquiry.rs\<close>, \<open>builtins.rs\<close>): send status lines and data, ask inquiries and read their
  data, and the \<open>HELP\<close> listing. \<open>ServerIo\<close> is the part of the session these operations
  borrow mutably, the channel and the machine. The guards \<open>IoOperation\<close> and \<open>ServerInquiry\<close>
  are written out: \<open>io_operation\<close> closes the channel and invalidates the machine on every
  exit but completion, and \<open>si_drop\<close> does so for an inquiry that was not finished.
\<close>

section \<open>Guarded operations\<close>

record ServerIo =
  sx_channel :: Channel
  sx_machine :: ServerMachine

type_synonym 'a served = "(ServerIo \<times> world, 'a, HandlerError) io"

definition io_drop :: "ServerIo \<Rightarrow> ServerIo" where
  "io_drop x = x\<lparr>sx_machine := sm_invalidate (sx_machine x), sx_channel := ch_close (sx_channel x)\<rparr>"

definition io_operation :: "'a served \<Rightarrow> 'a served" where
  "io_operation body s =
     (case body s of
        (Done v, s') \<Rightarrow> (Done v, s')
      | (r, (x, w)) \<Rightarrow> (r, (io_drop x, w)))"

text \<open>One line written through the session's channel.\<close>

definition put_line :: "(TransportError \<Rightarrow> 'e) \<Rightarrow> bytes \<Rightarrow> nat \<Rightarrow> Sensitivity \<Rightarrow> (ServerIo \<times> world, unit, 'e) io" where
  "put_line wrap bs deadline sensitivity s =
     (case s of (x, w) \<Rightarrow>
      case write_line bs deadline sensitivity (sx_channel x, w) of
        (r, (c, w)) \<Rightarrow> (map_fail wrap r, (x\<lparr>sx_channel := c\<rparr>, w)))"

text \<open>
  Encode a response, take the machine's transition, write the line: the three steps that
  the status, inquiry and comment operations and the final response have in common, with
  the error each step is turned into.
\<close>

definition respond_line ::
  "(ProtocolError \<Rightarrow> 'e) \<Rightarrow> (StateError \<Rightarrow> 'e) \<Rightarrow> (TransportError \<Rightarrow> 'e) \<Rightarrow> ServerLine \<Rightarrow> nat \<Rightarrow> Sensitivity
   \<Rightarrow> (ServerIo \<times> world, unit, 'e) io" where
  "respond_line on_encode on_state on_write line deadline sensitivity s =
     (case s of (x, w) \<Rightarrow>
      case encode_response line (replicate MAX_LINE_BYTES 0) of
        (Err e, _) \<Rightarrow> (Fail (on_encode e), (x, w))
      | (Panic, _) \<Rightarrow> (Abort, (x, w))
      | (Ok len, out) \<Rightarrow>
          (case sm_send_response (sx_machine x) (kind line) of
             (Err e, m) \<Rightarrow> (Fail (on_state e), (x\<lparr>sx_machine := m\<rparr>, w))
           | (Panic, m) \<Rightarrow> (Abort, (x\<lparr>sx_machine := m\<rparr>, w))
           | (Ok _, m) \<Rightarrow> put_line on_write (take len out) deadline sensitivity (x\<lparr>sx_machine := m\<rparr>, w)))"

definition send_status :: "nat \<Rightarrow> bytes \<Rightarrow> bytes \<Rightarrow> unit served" where
  "send_status deadline kw args =
     io_operation (respond_line HeProtocol HeState HeTransport (LineStatus kw args) deadline Secret)"

section \<open>Data\<close>

lemma chunk_into_scratch:
  "encode_data_chunk rest (replicate MAX_LINE_BYTES 0) =
     (Ok (chunk_len 2 rest, Suc (length (data_body rest))),
      data_body rest @ LF # drop (Suc (length (data_body rest))) (replicate MAX_LINE_BYTES 0))"
  by (rule encode_data_chunk_eq) simp

text \<open>The chunk loop of \<open>send_data\<close>; the scratch line is all zero before each chunk.\<close>

function data_loop :: "bytes \<Rightarrow> nat \<Rightarrow> unit served" where
  "data_loop remaining deadline s =
     (case encode_data_chunk remaining (replicate MAX_LINE_BYTES 0) of
        (Err e, _) \<Rightarrow> (Fail (HeProtocol e), s)
      | (Panic, _) \<Rightarrow> (Abort, s)
      | (Ok (consumed, written), out) \<Rightarrow>
          (case put_line HeTransport (take written out) deadline Secret s of
             (Done _, s) \<Rightarrow>
               (if drop consumed remaining = [] then (Done (), s) else data_loop (drop consumed remaining) deadline s)
           | (Fail e, s) \<Rightarrow> (Fail e, s)
           | (Abort, s) \<Rightarrow> (Abort, s)
           | (Cancelled, s) \<Rightarrow> (Cancelled, s)))"
  by pat_completeness auto

termination
proof (relation "measure (\<lambda>(rest, d, st). length rest)")
  fix rest :: bytes and consumed written and out :: bytes
    and x y deadline and s s' :: "ServerIo \<times> world" and z
  assume "(x, y) = encode_data_chunk rest (replicate MAX_LINE_BYTES 0)" "x = Ok z" "(consumed, written) = z"
    "drop consumed rest \<noteq> []"
  then have "consumed = chunk_len 2 rest" "rest \<noteq> []" by (auto simp: chunk_into_scratch)
  then show "((drop consumed rest, deadline, s'), (rest, deadline, s)) \<in> measure (\<lambda>(rest, d, st). length rest)"
    using chunk_len_progress [of rest] by (cases rest) auto
qed simp

declare data_loop.simps [simp del]

definition send_data :: "nat \<Rightarrow> bytes \<Rightarrow> unit served" where
  "send_data deadline data =
     io_operation (\<lambda>(x, w).
       (case sm_send_response (sx_machine x) KData of
          (Err e, m) \<Rightarrow> (Fail (HeState e), (x\<lparr>sx_machine := m\<rparr>, w))
        | (Panic, m) \<Rightarrow> (Abort, (x\<lparr>sx_machine := m\<rparr>, w))
        | (Ok _, m) \<Rightarrow> data_loop data deadline (x\<lparr>sx_machine := m\<rparr>, w)))"

section \<open>Inquiries\<close>

datatype InquiryOutcome = Completed | InqCancelled

record ServerInquiry =
  si_deadline :: nat
  si_sensitivity :: Sensitivity
  si_limit :: nat
  si_received :: nat
  si_outcome :: "InquiryOutcome option"
  si_finished :: bool

definition si_begin :: "nat \<Rightarrow> nat \<Rightarrow> ServerLine \<Rightarrow> Sensitivity \<Rightarrow> ServerInquiry served" where
  "si_begin deadline limit line sensitivity =
     bindM (io_operation (respond_line HeProtocol HeState HeTransport line deadline sensitivity))
       (\<lambda>_. returnM \<lparr>si_deadline = deadline, si_sensitivity = sensitivity, si_limit = limit,
                     si_received = 0, si_outcome = None, si_finished = False\<rparr>)"

definition inquire ::
  "ServerOptions \<Rightarrow> nat \<Rightarrow> bytes \<Rightarrow> bytes \<Rightarrow> Sensitivity \<Rightarrow> ServerInquiry served" where
  "inquire opts deadline kw args sensitivity s =
     (case s of (x, w) \<Rightarrow>
      let (t, w) = now w;
          local = t + so_inquiry_timeout opts;
          d = min (if local \<le> w_instant_max w then local else deadline) deadline
      in si_begin d (so_max_inquiry_bytes opts) (LineInquire kw args) sensitivity (x, w))"

text \<open>
  One pass of the loop of \<open>next\<close>: \<open>None\<close> to go on with the next line, otherwise what \<open>next\<close>
  returns with the guard it leaves.
\<close>

definition si_take ::
  "ServerInquiry \<Rightarrow> (PayloadRef option \<times> ServerInquiry) option served" where
  "si_take q s =
     (case s of (x, w) \<Rightarrow>
      case read_line (si_deadline q) (si_sensitivity q) (sx_channel x, w) of
        (Fail e, (c, w)) \<Rightarrow> (Fail (HeTransport e), (x\<lparr>sx_channel := c\<rparr>, w))
      | (Abort, (c, w)) \<Rightarrow> (Abort, (x\<lparr>sx_channel := c\<rparr>, w))
      | (Cancelled, (c, w)) \<Rightarrow> (Cancelled, (x\<lparr>sx_channel := c\<rparr>, w))
      | (Done line, (c, w)) \<Rightarrow>
          let x = x\<lparr>sx_channel := c\<rparr> in
          (case request_kind line of
             Err e \<Rightarrow> (Fail (HeProtocol e), (x, w))
           | Panic \<Rightarrow> (Abort, (x, w))
           | Ok k \<Rightarrow>
               if k \<in> {ReqEnd, ReqCan} then
                 (Done (Some (None, q\<lparr>si_outcome := Some (if k = ReqEnd then Completed else InqCancelled)\<rparr>)), (x, w))
               else
                 (case sm_receive_request (sx_machine x) k of
                    (Err e, m) \<Rightarrow> (Fail (HeState e), (x\<lparr>sx_machine := m\<rparr>, w))
                  | (Panic, m) \<Rightarrow> (Abort, (x\<lparr>sx_machine := m\<rparr>, w))
                  | (Ok _, m) \<Rightarrow>
                      let x = x\<lparr>sx_machine := m\<rparr> in
                      if k \<noteq> ReqData then (Done None, (x, w))
                      else
                        (case decode_data_in_place (drop 2 line) of
                           (Err e, rest) \<Rightarrow>
                             (Fail (HeProtocol e), (x\<lparr>sx_channel := edit_line (\<lambda>_. take 2 line @ rest) c\<rparr>, w))
                         | (Panic, rest) \<Rightarrow>
                             (Abort, (x\<lparr>sx_channel := edit_line (\<lambda>_. take 2 line @ rest) c\<rparr>, w))
                         | (Ok len, rest) \<Rightarrow>
                             let x = x\<lparr>sx_channel := edit_line (\<lambda>_. take 2 line @ rest) c\<rparr> in
                             (case usize_checked_add (si_received q) len of
                                None \<Rightarrow> (Fail (HeLimit CapacityExceeded), (x, w))
                              | Some tot \<Rightarrow>
                                  if tot > si_limit q then (Fail (HeLimit CapacityExceeded), (x, w))
                                  else
                                    (case received_line (sx_channel x) of
                                       None \<Rightarrow> (Fail (HeState Unusable), (x, w))
                                     | Some line \<Rightarrow>
                                         (case get_range line 2 (2 + len) of
                                            None \<Rightarrow> (Abort, (x, w))
                                          | Some bs \<Rightarrow>
                                              (Done (Some (Some (case si_sensitivity q of
                                                   Public \<Rightarrow> PublicPayload bs
                                                 | Secret \<Rightarrow> SecretPayload (sr_new bs)), q\<lparr>si_received := tot\<rparr>)),
                                               (x, w)))))))))"

definition io_left :: "ServerIo \<times> world \<Rightarrow> nat" where
  "io_left s = left (sx_channel (fst s)) (snd s)"

lemma edit_line_left [simp]: "left (edit_line f c) w = left c w"
  by (simp add: left_def edit_line_def)

lemma si_take_uses:
  assumes "si_take q s = (Done v, s')"
  shows "io_left s' < io_left s"
proof -
  obtain x w where s: "s = (x, w)" by force
  obtain r c w1 where rd: "read_line (si_deadline q) (si_sensitivity q) (sx_channel x, w) = (r, (c, w1))"
    by (metis prod_cases3)
  obtain line where line: "r = Done line" using assms s rd by (cases r) (auto simp: si_take_def)
  have "io_left s' = left c w1"
    using assms s rd line
    by (auto simp: si_take_def io_left_def Let_def split: result.splits prod.splits option.splits if_splits)
  then show ?thesis using read_line_uses [OF rd [unfolded line]] s by (simp add: io_left_def)
qed

function si_loop :: "ServerInquiry \<Rightarrow> (PayloadRef option \<times> ServerInquiry) served" where
  "si_loop q s =
     (case si_take q s of
        (Done None, s') \<Rightarrow> si_loop q s'
      | (Done (Some v), s') \<Rightarrow> (Done v, s')
      | (Fail e, s') \<Rightarrow> (Fail e, s')
      | (Abort, s') \<Rightarrow> (Abort, s')
      | (Cancelled, s') \<Rightarrow> (Cancelled, s'))"
  by pat_completeness auto

termination
  by (relation "measure (\<lambda>(q, s). io_left s)") (auto dest: si_take_uses [OF sym])

declare si_loop.simps [simp del]

definition si_next :: "ServerInquiry \<Rightarrow> (PayloadRef option \<times> ServerInquiry) served" where
  "si_next q = (if si_outcome q \<noteq> None then returnM (None, q) else io_operation (si_loop q))"

definition si_drop :: "ServerInquiry \<Rightarrow> ServerIo \<Rightarrow> ServerIo" where
  "si_drop q x = (if \<not> si_finished q then io_drop x else x)"

text \<open>\<open>finish\<close> consumes the guard, so its drop is part of it.\<close>

definition si_finish :: "ServerInquiry \<Rightarrow> ServerIo \<Rightarrow> (InquiryOutcome, HandlerError) result \<times> ServerIo" where
  "si_finish q x =
     (case si_outcome q of
        None \<Rightarrow> (Err (HeState NotReady), si_drop q x)
      | Some outcome \<Rightarrow>
          (case sm_receive_request (sx_machine x) (case outcome of Completed \<Rightarrow> ReqEnd | InqCancelled \<Rightarrow> ReqCan) of
             (Err e, m) \<Rightarrow> (Err (HeState e), si_drop q (x\<lparr>sx_machine := m\<rparr>))
           | (Panic, m) \<Rightarrow> (Panic, si_drop q (x\<lparr>sx_machine := m\<rparr>))
           | (Ok _, m) \<Rightarrow> (Ok outcome, si_drop (q\<lparr>si_finished := True\<rparr>) (x\<lparr>sx_machine := m\<rparr>))))"

definition context_debug :: dbg where
  "context_debug = DStruct ''CommandContext'' [] True"

definition si_debug :: "ServerInquiry \<Rightarrow> dbg" where
  "si_debug q = DStruct ''ServerInquiry''
     [(''received'', DNum (si_received q)),
      (''outcome'', DOpt (map_option (\<lambda>v. DText (case v of Completed \<Rightarrow> ''Completed'' | InqCancelled \<Rightarrow> ''Cancelled'')) (si_outcome q)))] True"

section \<open>HELP\<close>

definition COMMANDS :: "(bytes \<times> bytes) list" where
  "COMMANDS =
     [(lit ''NOP'', lit ''No operation''),
      (lit ''BYE'', lit ''Close this connection''),
      (lit ''HELP'', lit ''List commands''),
      (lit ''RESET'', lit ''Reset transient session state''),
      (lit ''OPTION'', lit ''Set a session option'')]"

definition comment :: "nat \<Rightarrow> bytes \<Rightarrow> unit served" where
  "comment deadline bs =
     io_operation (\<lambda>s.
       (case copy_at ((replicate MAX_LINE_BYTES 0)[0 := SP]) 1 bs of
          None \<Rightarrow> (Abort, s)
        | Some body \<Rightarrow>
            respond_line HeProtocol HeState HeTransport (LineComment (take (length bs + 1) body)) deadline Public s))"

text \<open>
  The loop over the characters of an entry. \<open>buf\<close> is the filled part of the line buffer; a
  full one is sent before the next character is stored.
\<close>

fun entry_loop :: "nat \<Rightarrow> bytes list \<Rightarrow> bytes \<Rightarrow> unit served" where
  "entry_loop deadline [] buf = (if buf \<noteq> [] then comment deadline buf else returnM ())"
| "entry_loop deadline (ch # chs) buf =
     (if length buf + length ch > MAX_LINE_BYTES - 3
      then bindM (comment deadline buf) (\<lambda>_. entry_loop deadline chs ch)
      else entry_loop deadline chs (buf @ ch))"

text \<open>The characters of a \<open>&str\<close>, each as its UTF-8 bytes.\<close>

definition str_chars :: "bytes \<Rightarrow> bytes list" where
  "str_chars bs = (case chars bs of None \<Rightarrow> [] | Some cs \<Rightarrow> cs)"

definition entry :: "nat \<Rightarrow> bytes \<Rightarrow> bytes \<Rightarrow> unit served" where
  "entry deadline name description s =
     (case Command_new name description of
        Err e \<Rightarrow> (Fail (HeProtocol e), s)
      | Panic \<Rightarrow> (Abort, s)
      | Ok _ \<Rightarrow> entry_loop deadline (str_chars name @ str_chars (lit '' '') @ str_chars description) [] s)"

primrec help_loop :: "nat \<Rightarrow> (bytes \<times> bytes) list \<Rightarrow> unit served" where
  "help_loop deadline [] = returnM ()"
| "help_loop deadline (e # es) = bindM (entry deadline (fst e) (snd e)) (\<lambda>_. help_loop deadline es)"

definition help_listing :: "'h Registry \<Rightarrow> nat \<Rightarrow> unit served" where
  "help_listing reg deadline =
     bindM (help_loop deadline COMMANDS)
       (\<lambda>_. help_loop deadline (map (\<lambda>(name, h). (name, hd_description h)) (rg_entries reg)))"

end
