(* ===== verification/Server_Props.thy ===== *)
theory Server_Props
  imports Server_Context
begin

text \<open>
  What the operations of a handler's context do to the connection, for every environment:
  each either completes, with its lines sent and the machine's transition taken, or leaves
  the session dead with its channel closed and wiped. From a dead session nothing is read
  or sent any more (the interpretation \<open>server_io\<close> of \<open>fail_stop\<close>).
\<close>

section \<open>Invariant\<close>

definition sv_dead :: "ServerIo \<Rightarrow> bool" where
  "sv_dead x \<longleftrightarrow> sm_dead (sx_machine x)"

definition sv_inv :: "ServerIo \<Rightarrow> bool" where
  "sv_inv x \<longleftrightarrow> ch_inv (sx_channel x) \<and> sm_good (sx_machine x)
     \<and> (sv_dead x \<longrightarrow> ch_wiped (sx_channel x) \<and> \<not> ch_open (sx_channel x))"

definition io_inv :: "ServerIo \<times> world \<Rightarrow> bool" where
  "io_inv st \<longleftrightarrow> sv_inv (fst st) \<and> reads_ok (snd st)"

definition wire :: "ServerLine \<Rightarrow> bytes" where
  "wire l = line_body l @ [LF]"

lemma sm_invalidate_dead [simp]: "sm_dead (sm_invalidate m)"
  by (auto simp: sm_dead_def sm_invalidate_def)

lemma sm_invalidate_good: "sm_good m \<Longrightarrow> sm_good (sm_invalidate m)"
  by (simp add: sm_good_def sm_invalidate_def)

lemma io_drop_inv: "ch_shape (sx_channel x) \<Longrightarrow> sm_good (sx_machine x) \<Longrightarrow> sv_inv (io_drop x) \<and> sv_dead (io_drop x)"
  using ch_close_inv [of "sx_channel x"] by (simp add: sv_inv_def sv_dead_def io_drop_def sm_invalidate_good)

lemma io_operation_eq:
  "body (x, w) = (r, (x1, w1)) \<Longrightarrow>
   io_operation body (x, w) = (r, (if is_done r then x1 else io_drop x1, w1))"
  by (cases r) (simp_all add: io_operation_def)

lemma send_good: "sm_good m \<Longrightarrow> sm_send_response m k = (r, m') \<Longrightarrow> sm_good m'"
  using sm_good_step [of m "SSend k"] by simp

lemma receive_good: "sm_good m \<Longrightarrow> sm_receive_request m k = (r, m') \<Longrightarrow> sm_good m'"
  using sm_good_step [of m "SRequest k"] by simp

lemma send_no_panic: "sm_send_response m k \<noteq> (Panic, m')"
  using server.no_panic [of m "SSend k"] by auto

lemma receive_no_panic: "sm_receive_request m k \<noteq> (Panic, m')"
  using server.no_panic [of m "SRequest k"] by auto

lemma send_dead: "sm_dead m \<Longrightarrow> sm_send_response m k = (Err Unusable, m)"
  using server.dead_step [of m "SSend k"] by simp

lemma receive_dead: "sm_dead m \<Longrightarrow> sm_receive_request m k = (Err Unusable, m)"
  using server.dead_step [of m "SRequest k"] by simp

lemma send_alive: "sm_send_response m k = (Ok (), m') \<Longrightarrow> k \<notin> {KOk, KErr} \<Longrightarrow> \<not> sm_dead m'"
  by (auto simp: sm_send_response_def sm_dead_def Let_def split: if_splits)

lemma receive_request_alive: "sm_good m \<Longrightarrow> sm_receive_request m k = (Ok (), m') \<Longrightarrow> \<not> sm_dead m'"
  by (auto simp: sm_receive_request_def sm_dead_def sm_good_def Let_def split: if_splits)

section \<open>Writing lines\<close>

lemma put_line_cases:
  assumes "ch_inv (sx_channel x)"
  shows "\<exists>r x' w'. put_line f bs d s (x, w) = (r, (x', w')) \<and> ch_inv (sx_channel x') \<and> sx_machine x' = sx_machine x
    \<and> r \<noteq> Abort \<and> w_reads w' = w_reads w \<and> (\<exists>n. w_sent w' = w_sent w @ take n bs)
    \<and> (is_done r \<longrightarrow> x' = x \<and> ch_open (sx_channel x) \<and> w_sent w' = w_sent w @ bs)
    \<and> (\<not> ch_open (sx_channel x) \<longrightarrow> quiet w w')"
proof -
  obtain r c w' where wr: "write_line bs d s (sx_channel x, w) = (r, (c, w'))" by (metis prod_cases3)
  have a: "ch_inv c" "r \<noteq> Abort" "w_reads w' = w_reads w" "\<exists>n. w_sent w' = w_sent w @ take n bs"
    "is_done r \<Longrightarrow> c = sx_channel x \<and> ch_open (sx_channel x) \<and> w_sent w' = w_sent w @ bs"
    "\<not> ch_open (sx_channel x) \<Longrightarrow> w_sent w' = w_sent w \<and> w_writes w' = w_writes w"
    using write_line_cases [OF assms, of bs d s w] wr by auto
  show ?thesis
    using wr a by (cases r) (auto simp: put_line_def quiet_def)
qed

lemma encode_scratch:
  "if encodable l
   then \<exists>out. encode_response l (replicate MAX_LINE_BYTES 0) = (Ok (length (wire l)), out) \<and> take (length (wire l)) out = wire l
   else \<exists>e. encode_response l (replicate MAX_LINE_BYTES 0) = (Err e, replicate MAX_LINE_BYTES 0)"
  using encode_response_encodes [of "replicate MAX_LINE_BYTES 0" l] by (auto simp: encodes_def writes_def wire_def)

lemma respond_line_cases:
  assumes "ch_inv (sx_channel x)" and "sm_good (sx_machine x)"
  shows "\<exists>r x' w'. respond_line e1 e2 e3 l d s (x, w) = (r, (x', w')) \<and> ch_inv (sx_channel x') \<and> sm_good (sx_machine x')
    \<and> r \<noteq> Abort \<and> w_reads w' = w_reads w \<and> (\<exists>n. w_sent w' = w_sent w @ take n (wire l)) \<and> (encodable l \<or> w_sent w' = w_sent w)
    \<and> (is_done r \<longrightarrow> encodable l \<and> sx_channel x' = sx_channel x \<and> ch_open (sx_channel x)
          \<and> sm_send_response (sx_machine x) (kind l) = (Ok (), sx_machine x') \<and> w_sent w' = w_sent w @ wire l)
    \<and> (sm_dead (sx_machine x) \<or> \<not> ch_open (sx_channel x) \<longrightarrow> quiet w w')"
proof (cases "encodable l")
  case False
  then obtain e where "encode_response l (replicate MAX_LINE_BYTES 0) = (Err e, replicate MAX_LINE_BYTES 0)"
    using encode_scratch [of l] by auto
  moreover have "\<exists>n. w_sent w = w_sent w @ take n (wire l)" by (intro exI [of _ 0]) simp
  ultimately show ?thesis using assms by (auto simp: respond_line_def)
next
  case True
  then obtain out where enc: "encode_response l (replicate MAX_LINE_BYTES 0) = (Ok (length (wire l)), out)"
    "take (length (wire l)) out = wire l" using encode_scratch [of l] by auto
  obtain t m where st: "sm_send_response (sx_machine x) (kind l) = (t, m)" by force
  note good = send_good [OF assms(2) st]
  show ?thesis
  proof (cases t)
    case (Ok u)
    let ?x = "x\<lparr>sx_machine := m\<rparr>"
    have "ch_inv (sx_channel ?x)" using assms(1) by simp
    from put_line_cases [OF this, of e3 "wire l" d s w] obtain r x' w' where
      p: "put_line e3 (wire l) d s (?x, w) = (r, (x', w'))" "ch_inv (sx_channel x')" "sx_machine x' = m" "r \<noteq> Abort"
        "w_reads w' = w_reads w" "\<exists>n. w_sent w' = w_sent w @ take n (wire l)"
        "is_done r \<longrightarrow> x' = ?x \<and> ch_open (sx_channel x) \<and> w_sent w' = w_sent w @ wire l"
        "\<not> ch_open (sx_channel x) \<longrightarrow> quiet w w'" by auto
    have "\<not> sm_dead (sx_machine x)" using st Ok send_dead by fastforce
    then show ?thesis using enc st Ok p good True by (auto simp: respond_line_def)
  next
    case (Err e)
    moreover have "\<exists>n. w_sent w = w_sent w @ take n (wire l)" by (intro exI [of _ 0]) simp
    ultimately show ?thesis using enc st assms(1) good by (auto simp: respond_line_def)
  qed (use st send_no_panic in metis)
qed

text \<open>
  A beginning of a sequence of lines: some of its first lines, each of which fits the wire,
  up to any byte.
\<close>

definition beginning :: "ServerLine list \<Rightarrow> bytes \<Rightarrow> bool" where
  "beginning ls bs \<longleftrightarrow> (\<exists>ms more n. ls = ms @ more \<and> list_all encodable ms \<and> bs = take n (concat (map wire ms)))"

lemma beginning_Nil [simp]: "beginning ls []"
  unfolding beginning_def by (intro exI [of _ "[]"] exI [of _ ls]) simp

lemma beginning_take: "list_all encodable ls \<Longrightarrow> beginning ls (take n (concat (map wire ls)))"
  unfolding beginning_def by (intro exI [of _ ls] exI [of _ "[]"]) auto

lemma beginning_after: "list_all encodable ls \<Longrightarrow> beginning ls' bs \<Longrightarrow> beginning (ls @ ls') (concat (map wire ls) @ bs)"
  unfolding beginning_def
proof (elim exE conjE)
  fix ms more n
  assume "list_all encodable ls" "ls' = ms @ more" "list_all encodable ms" "bs = take n (concat (map wire ms))"
  then show "\<exists>ms more n. ls @ ls' = ms @ more \<and> list_all encodable ms \<and> concat (map wire ls) @ bs = take n (concat (map wire ms))"
    by (intro exI [of _ "ls @ ms"] exI [of _ more] exI [of _ "length (concat (map wire ls)) + n"]) simp
qed

lemma beginning_more: "beginning ls bs \<Longrightarrow> beginning (ls @ ls') bs"
  unfolding beginning_def by force

lemma take_in_append: "take n xs = take (min n (length xs)) (xs @ ys)"
  by (simp add: min_def)

lemma beginning_cut: "beginning ls bs \<Longrightarrow> \<exists>n. bs = take n (concat (map wire ls))"
  unfolding beginning_def by (auto simp del: take_append) (metis take_in_append)

text \<open>What a guarded writing operation does: its lines were sent, or the session is dead.\<close>

definition emits :: "ServerLine list \<Rightarrow> ServerIo \<times> world \<Rightarrow> ('a, 'e) async \<Rightarrow> ServerIo \<times> world \<Rightarrow> bool" where
  "emits ls st r st' \<longleftrightarrow> (case (st, st') of ((x, w), (x', w')) \<Rightarrow>
     sv_inv x' \<and> reads_ok w' \<and> w_reads w' = w_reads w \<and> r \<noteq> Abort \<and> (sv_dead x \<longrightarrow> quiet w w')
     \<and> (if is_done r
        then \<not> sv_dead x \<and> \<not> sv_dead x' \<and> sx_channel x' = sx_channel x \<and> list_all encodable ls
             \<and> w_sent w' = w_sent w @ concat (map wire ls)
        else sv_dead x' \<and> (\<exists>bs. beginning ls bs \<and> w_sent w' = w_sent w @ bs)))"

lemma guarded_line_emits:
  assumes "sv_inv x" and "reads_ok w" and "kind l \<notin> {KOk, KErr}"
  shows "\<exists>r x' w'. io_operation (respond_line HeProtocol HeState HeTransport l d s) (x, w) = (r, (x', w'))
     \<and> emits [l] (x, w) r (x', w')
     \<and> (is_done r \<longrightarrow> sm_send_response (sx_machine x) (kind l) = (Ok (), sx_machine x'))"
proof -
  have inv: "ch_inv (sx_channel x)" "sm_good (sx_machine x)" using assms(1) by (auto simp: sv_inv_def)
  obtain r x1 w1 where rl: "respond_line HeProtocol HeState HeTransport l d s (x, w) = (r, (x1, w1))"
    "ch_inv (sx_channel x1)" "sm_good (sx_machine x1)" "r \<noteq> Abort" "w_reads w1 = w_reads w"
    "\<exists>n. w_sent w1 = w_sent w @ take n (wire l)" "encodable l \<or> w_sent w1 = w_sent w"
    "is_done r \<longrightarrow> encodable l \<and> sx_channel x1 = sx_channel x \<and> ch_open (sx_channel x)
       \<and> sm_send_response (sx_machine x) (kind l) = (Ok (), sx_machine x1) \<and> w_sent w1 = w_sent w @ wire l"
    "sm_dead (sx_machine x) \<or> \<not> ch_open (sx_channel x) \<longrightarrow> quiet w w1"
    using respond_line_cases [OF inv, of HeProtocol HeState HeTransport l d s w] by blast
  have ok: "reads_ok w1" using rl(5) assms(2) by (simp add: reads_ok_def)
  have drop: "sv_inv (io_drop x1)" "sv_dead (io_drop x1)" using io_drop_inv rl(2,3) ch_inv_shape by blast+
  show ?thesis
  proof (cases "is_done r")
    case True
    then have done': "sm_send_response (sx_machine x) (kind l) = (Ok (), sx_machine x1)" using rl(8) by blast
    have alive: "\<not> sm_dead (sx_machine x1)" by (rule send_alive [OF done' assms(3)])
    have "\<not> sm_dead (sx_machine x)" using done' send_dead by fastforce
    then show ?thesis
      using True io_operation_eq [of "respond_line HeProtocol HeState HeTransport l d s", OF rl(1)] rl ok alive done' by (auto simp: emits_def sv_inv_def sv_dead_def)
  next
    case False
    have "\<exists>bs. beginning [l] bs \<and> w_sent w1 = w_sent w @ bs" using rl(6,7) beginning_take [of "[l]"] by fastforce
    then show ?thesis using False io_operation_eq [of "respond_line HeProtocol HeState HeTransport l d s", OF rl(1)] rl ok drop
      by (auto simp: emits_def sv_dead_def)
  qed
qed

lemma emits_append:
  assumes "emits ls st r st1" and "is_done r" and "emits ls' st1 r' st2"
  shows "emits (ls @ ls') st r' st2"
proof -
  obtain x w x1 w1 x2 w2 where st: "st = (x, w)" "st1 = (x1, w1)" "st2 = (x2, w2)" by (cases st; cases st1; cases st2)
  have a: "\<not> sv_dead x" "w_reads w1 = w_reads w" "w_sent w1 = w_sent w @ concat (map wire ls)" "sx_channel x1 = sx_channel x"
    "list_all encodable ls" using assms(1,2) by (auto simp: emits_def st)
  have "\<exists>bs. beginning (ls @ ls') bs \<and> w_sent w2 = w_sent w @ bs" if "beginning ls' bs" "w_sent w2 = w_sent w1 @ bs" for bs
    using that a(3) beginning_after [OF a(5) that(1)] by auto
  then show ?thesis using assms(3) a by (auto simp: emits_def st)
qed

lemma emits_fail_append:
  assumes "emits ls st r st'" and "\<not> is_done r"
  shows "emits (ls @ ls') st r st'"
  using assms beginning_more by (fastforce simp: emits_def split: prod.splits)

lemma emits_nothing: "sv_inv x' \<Longrightarrow> reads_ok w \<Longrightarrow> sv_dead x' \<Longrightarrow> emits ls (x, w) (Fail e) (x', w)"
  by (auto simp: emits_def intro: exI [of _ "[]"])

section \<open>Sending data\<close>

definition data_lines :: "bytes \<Rightarrow> ServerLine list" where
  "data_lines bs = map (\<lambda>body. LineData (drop 2 body)) (data.bodies bs)"

lemma data_lines_unfold:
  "data_lines bs = LineData (drop 2 (data_body bs)) #
     (if drop (chunk_len 2 bs) bs = [] then [] else data_lines (drop (chunk_len 2 bs) bs))"
  by (simp add: data_lines_def data.bodies.simps [of bs])

lemma wire_data: "wire (LineData (drop 2 (data_body bs))) = data_body bs @ [LF]"
  by (simp add: wire_def line_body_def data_body_def lit_def)

lemma encodable_data: "encodable (LineData (drop 2 (data_body bs)))"
  using data.fits_wire [of bs] data.faithful [of bs]
  by (auto simp: encodable_def line_body_def data_body_def lit_def data_payload_def)

text \<open>Before its guard, the loop may leave the machine alive when it fails.\<close>

lemma data_loop_cases:
  "ch_inv (sx_channel x) \<Longrightarrow> reads_ok w \<Longrightarrow>
   \<exists>r x' w'. data_loop bs d (x, w) = (r, (x', w')) \<and> ch_inv (sx_channel x') \<and> sx_machine x' = sx_machine x \<and> r \<noteq> Abort
     \<and> reads_ok w' \<and> w_reads w' = w_reads w
     \<and> (\<exists>n. w_sent w' = w_sent w @ take n (concat (map wire (data_lines bs))))
     \<and> (is_done r \<longrightarrow> x' = x \<and> ch_open (sx_channel x) \<and> w_sent w' = w_sent w @ concat (map wire (data_lines bs)))
     \<and> (\<not> ch_open (sx_channel x) \<longrightarrow> quiet w w')"
proof (induction bs arbitrary: w rule: data.bodies.induct)
  case (1 bs)
  let ?line = "data_body bs @ [LF]"
  let ?rest = "drop (chunk_len 2 bs) bs"
  have wires: "concat (map wire (data_lines bs)) = ?line @ (if ?rest = [] then [] else concat (map wire (data_lines ?rest)))"
    by (subst data_lines_unfold) (simp add: wire_data)
  obtain r x1 w1 where p: "put_line HeTransport ?line d Secret (x, w) = (r, (x1, w1))" "ch_inv (sx_channel x1)"
    "sx_machine x1 = sx_machine x" "r \<noteq> Abort" "w_reads w1 = w_reads w" "\<exists>n. w_sent w1 = w_sent w @ take n ?line"
    "is_done r \<longrightarrow> x1 = x \<and> ch_open (sx_channel x) \<and> w_sent w1 = w_sent w @ ?line"
    "\<not> ch_open (sx_channel x) \<longrightarrow> quiet w w1" using put_line_cases [OF "1.prems"(1)] by blast
  have ok: "reads_ok w1" using p(5) "1.prems"(2) by (simp add: reads_ok_def)
  show ?case
  proof (cases "is_done r \<and> ?rest \<noteq> []")
    case True
    then have x1: "x1 = x" "w_sent w1 = w_sent w @ ?line" "ch_open (sx_channel x)" using p(7) by auto
    from "1.IH" [OF _ "1.prems"(1) ok] True obtain r2 x2 w2 where
      ih: "data_loop ?rest d (x, w1) = (r2, (x2, w2))" "ch_inv (sx_channel x2)" "sx_machine x2 = sx_machine x" "r2 \<noteq> Abort"
        "reads_ok w2" "w_reads w2 = w_reads w1" "\<exists>n. w_sent w2 = w_sent w1 @ take n (concat (map wire (data_lines ?rest)))"
        "is_done r2 \<longrightarrow> x2 = x \<and> ch_open (sx_channel x) \<and> w_sent w2 = w_sent w1 @ concat (map wire (data_lines ?rest))"
      by auto
    have "data_loop bs d (x, w) = (r2, (x2, w2))"
      using True p(1) x1(1) ih(1) by (cases r) (simp_all add: data_loop.simps [of bs] chunk_into_scratch)
    moreover have "\<exists>n. w_sent w2 = w_sent w @ take n (concat (map wire (data_lines bs)))"
    proof -
      from ih(7) obtain n where "w_sent w2 = w_sent w1 @ take n (concat (map wire (data_lines ?rest)))" by blast
      then show ?thesis using x1(2) wires True by (intro exI [of _ "length ?line + n"]) simp
    qed
    moreover have "is_done r2 \<longrightarrow> w_sent w2 = w_sent w @ concat (map wire (data_lines bs))"
      using ih(8) x1(2) wires True by simp
    ultimately show ?thesis using ih p(5) x1(3) by auto
  next
    case False
    have "\<exists>n. w_sent w1 = w_sent w @ take n (concat (map wire (data_lines bs)))"
    proof -
      from p(6) obtain n where n: "w_sent w1 = w_sent w @ take n ?line" by blast
      show ?thesis unfolding wires using n take_in_append by metis
    qed
    moreover have "data_loop bs d (x, w) = (r, (x1, w1))"
      using False p(1) by (cases r) (auto simp: data_loop.simps [of bs] chunk_into_scratch)
    moreover have "is_done r \<longrightarrow> w_sent w1 = w_sent w @ concat (map wire (data_lines bs))"
      using False p(7) wires by auto
    ultimately show ?thesis using p ok by auto
  qed
qed

lemma send_data_emits:
  assumes "sv_inv x" and "reads_ok w"
  shows "\<exists>r x' w'. send_data d bs (x, w) = (r, (x', w')) \<and> emits (data_lines bs) (x, w) r (x', w')"
proof -
  have inv: "ch_inv (sx_channel x)" "sm_good (sx_machine x)" using assms(1) by (auto simp: sv_inv_def)
  obtain t m where st: "sm_send_response (sx_machine x) KData = (t, m)" by force
  note good = send_good [OF inv(2) st]
  have lines: "list_all encodable (data_lines bs)"
    by (induction bs rule: data.bodies.induct) (subst data_lines_unfold, auto simp: encodable_data)
  let ?body = "\<lambda>(x, w).
       (case sm_send_response (sx_machine x) KData of
          (Err e, m) \<Rightarrow> (Fail (HeState e), (x\<lparr>sx_machine := m\<rparr>, w))
        | (Panic, m) \<Rightarrow> (Abort, (x\<lparr>sx_machine := m\<rparr>, w))
        | (Ok _, m) \<Rightarrow> data_loop bs d (x\<lparr>sx_machine := m\<rparr>, w))"
  have dropped: "sv_inv (io_drop y) \<and> sv_dead (io_drop y)" if "ch_inv (sx_channel y)" "sx_machine y = m" for y
    using io_drop_inv that good ch_inv_shape by blast
  show ?thesis
  proof (cases t)
    case (Ok u)
    let ?x = "x\<lparr>sx_machine := m\<rparr>"
    have nd: "\<not> sm_dead (sx_machine x)" using st Ok send_dead by fastforce
    have alive: "\<not> sm_dead m" using send_alive [of "sx_machine x" KData m] st Ok by simp
    have "ch_inv (sx_channel ?x)" using inv by simp
    from data_loop_cases [OF this assms(2), of bs d] obtain r x' w' where
      dl: "data_loop bs d (?x, w) = (r, (x', w'))" "ch_inv (sx_channel x')" "sx_machine x' = m" "r \<noteq> Abort" "reads_ok w'"
        "w_reads w' = w_reads w" "\<exists>n. w_sent w' = w_sent w @ take n (concat (map wire (data_lines bs)))"
        "is_done r \<longrightarrow> x' = ?x \<and> ch_open (sx_channel x) \<and> w_sent w' = w_sent w @ concat (map wire (data_lines bs))" by auto
    have "?body (x, w) = (r, (x', w'))" using st Ok dl(1) by simp
    from io_operation_eq [of ?body, OF this] show ?thesis
      using dl nd alive lines good dropped [OF dl(2,3)] beginning_take [OF lines]
      by (cases "is_done r") (auto simp: send_data_def emits_def sv_inv_def sv_dead_def)
  next
    case (Err e)
    have "?body (x, w) = (Fail (HeState e), (x\<lparr>sx_machine := m\<rparr>, w))" using st Err by simp
    from io_operation_eq [of ?body, OF this] show ?thesis
      using emits_nothing dropped [of "x\<lparr>sx_machine := m\<rparr>"] inv assms(2) by (auto simp: send_data_def)
  qed (use st send_no_panic in metis)
qed

section \<open>Reading inquiry data\<close>

text \<open>
  Requests taken off a byte stream: \<open>takes_request\<close> is the next line with its category, and
  \<open>takes_answer\<close> skips the comments and empty lines before an answer to an inquiry.
\<close>

definition takes_request :: "bytes \<Rightarrow> RequestKind \<Rightarrow> bytes \<Rightarrow> bytes \<Rightarrow> bool" where
  "takes_request bs k raw rest \<longleftrightarrow> takes_line bs raw rest \<and> request_kind raw = Ok k"

inductive takes_answer :: "bytes \<Rightarrow> RequestKind \<Rightarrow> bytes \<Rightarrow> bytes \<Rightarrow> bool" where
  here: "takes_request bs k raw rest \<Longrightarrow> k \<notin> {ReqComment, ReqEmpty} \<Longrightarrow> takes_answer bs k raw rest"
| skip: "takes_request bs k0 raw0 mid \<Longrightarrow> k0 \<in> {ReqComment, ReqEmpty} \<Longrightarrow> takes_answer mid k raw rest \<Longrightarrow>
         takes_answer bs k raw rest"

text \<open>What an answer line gives: the payload and the guard after it.\<close>

definition payload_in :: "Sensitivity \<Rightarrow> bytes \<Rightarrow> PayloadRef" where
  "payload_in s bs = (case s of Public \<Rightarrow> PublicPayload bs | Secret \<Rightarrow> SecretPayload (sr_new bs))"

definition answer_gives :: "ServerInquiry \<Rightarrow> RequestKind \<Rightarrow> bytes \<Rightarrow> PayloadRef option \<times> ServerInquiry \<Rightarrow> bool" where
  "answer_gives q k raw v \<longleftrightarrow>
     (case k of
        ReqEnd \<Rightarrow> v = (None, q\<lparr>si_outcome := Some Completed\<rparr>)
      | ReqCan \<Rightarrow> v = (None, q\<lparr>si_outcome := Some InqCancelled\<rparr>)
      | ReqData \<Rightarrow>
          (case decode (drop 2 raw) of
             None \<Rightarrow> False
           | Some bs \<Rightarrow> v = (Some (payload_in (si_sensitivity q) bs), q\<lparr>si_received := si_received q + length bs\<rparr>)
               \<and> si_received q + length bs \<le> si_limit q)
      | _ \<Rightarrow> False)"

lemma skip_request: "\<not> sm_dead m \<Longrightarrow> k \<in> {ReqComment, ReqEmpty} \<Longrightarrow> sm_receive_request m k = (Ok (), m)"
  by (auto simp: sm_receive_request_def sm_dead_def Let_def)

lemma request_no_panic: "request_kind raw \<noteq> Panic"
  by (auto simp: request_kind_def Command_parse_eq bind_def split: result.splits)

lemma data_request: "request_kind raw = Ok ReqData \<Longrightarrow> \<exists>x. raw = lit ''D '' @ x"
  by (auto simp: request_kind_def starts_with_iff bind_eq_Ok split: if_splits)

text \<open>One pass of the loop, before its guard: a line that is skipped, or an answer.\<close>

definition skipped :: "ServerIo \<times> world \<Rightarrow> ServerIo \<times> world \<Rightarrow> bool" where
  "skipped st st' \<longleftrightarrow> (\<exists>k raw. k \<in> {ReqComment, ReqEmpty, ReqCommand}
     \<and> takes_request (stream (sx_channel (fst st)) (snd st)) k raw (stream (sx_channel (fst st')) (snd st'))
     \<and> sm_receive_request (sx_machine (fst st)) k = (Ok (), sx_machine (fst st')))"

definition answered :: "ServerInquiry \<Rightarrow> ServerIo \<times> world \<Rightarrow> PayloadRef option \<times> ServerInquiry \<Rightarrow> ServerIo \<times> world \<Rightarrow> bool" where
  "answered q st v st' \<longleftrightarrow> (\<exists>k raw.
     takes_request (stream (sx_channel (fst st)) (snd st)) k raw (stream (sx_channel (fst st')) (snd st'))
     \<and> answer_gives q k raw v
     \<and> (if k = ReqData then sm_receive_request (sx_machine (fst st)) k = (Ok (), sx_machine (fst st'))
        else sx_machine (fst st') = sx_machine (fst st)))"

lemma answeredI:
  "takes_request (stream (sx_channel x) w) k raw (stream (sx_channel x') w') \<Longrightarrow> answer_gives q k raw v \<Longrightarrow>
   (k = ReqData \<Longrightarrow> sm_receive_request (sx_machine x) k = (Ok (), sx_machine x')) \<Longrightarrow>
   (k \<noteq> ReqData \<Longrightarrow> sx_machine x' = sx_machine x) \<Longrightarrow> answered q (x, w) v (x', w')"
  unfolding answered_def by (intro exI [of _ k] exI [of _ raw]) simp

lemma skippedI:
  "k \<in> {ReqComment, ReqEmpty, ReqCommand} \<Longrightarrow> takes_request (stream (sx_channel x) w) k raw (stream (sx_channel x') w') \<Longrightarrow>
   sm_receive_request (sx_machine x) k = (Ok (), sx_machine x') \<Longrightarrow> skipped (x, w) (x', w')"
  unfolding skipped_def by auto

text \<open>The step on a data line that was read: it is decoded in place and counted, or refused.\<close>

lemma si_take_data:
  assumes rd: "read_line (si_deadline q) (si_sensitivity q) (sx_channel x, w) = (Done line, (c, w1))" and "ch_inv c" and "received_line c = Some line"
    and tk: "takes_request (stream (sx_channel x) w) ReqData line (stream c w1)" and st: "sm_receive_request (sx_machine x) ReqData = (Ok (), m)"
  shows "\<exists>r c'. si_take q (x, w) = (r, (x\<lparr>sx_channel := c', sx_machine := m\<rparr>, w1)) \<and> ch_inv c' \<and> r \<noteq> Abort \<and> r \<noteq> Done None
    \<and> (\<forall>v. r = Done (Some v) \<longrightarrow> answered q (x, w) v (x\<lparr>sx_channel := c', sx_machine := m\<rparr>, w1))"
proof -
  have rk: "request_kind line = Ok ReqData" using tk by (simp add: takes_request_def)
  obtain y where y: "line = lit ''D '' @ y" using data_request rk by blast
  have y2: "drop 2 line = y" "take 2 line = lit ''D ''" by (simp_all add: y lit_def)
  have swap: "x\<lparr>sx_machine := m, sx_channel := d\<rparr> = x\<lparr>sx_channel := d, sx_machine := m\<rparr>" for d by (cases x) simp
  have dec: "decode_data_in_place y = (case decode y of None \<Rightarrow> (Err InvalidEscape, y)
      | Some bs \<Rightarrow> (Ok (length bs), bs @ drop (length bs) y))" by (rule decode_in_place_eq)
  show ?thesis
  proof (cases "decode y")
    case None
    have "length (lit ''D '' @ y) = length line" using y by simp
    then have "ch_inv (edit_line (\<lambda>_. lit ''D '' @ y) c)" using edit_line_inv [OF assms(2,3)] by blast
    then show ?thesis using rd rk st y2 dec None by (auto simp: si_take_def Let_def swap)
  next
    case (Some bs)
    let ?l = "lit ''D '' @ bs @ drop (length bs) y"
    have len: "length ?l = length line" using y decode_length [OF Some] by simp
    note ed = edit_line_inv [OF assms(2,3) len]
    have strm: "stream (edit_line (\<lambda>_. ?l) c) w1 = stream c w1" using ed(5) by (simp add: stream_def)
    have rng: "get_range ?l 2 (2 + length bs) = Some bs" by (simp add: get_range_def lit_def)
    let ?x = "x\<lparr>sx_channel := edit_line (\<lambda>_. ?l) c, sx_machine := m\<rparr>"
    let ?v = "(Some (payload_in (si_sensitivity q) bs), q\<lparr>si_received := si_received q + length bs\<rparr>)"
    have "answered q (x, w) ?v (?x, w1)" if "si_received q + length bs \<le> si_limit q"
      by (rule answeredI [of _ _ ReqData line]) (use tk strm st that y2 Some in \<open>auto simp: answer_gives_def\<close>)
    moreover have "si_take q (x, w) =
        (if si_received q + length bs \<le> usize_max \<and> si_received q + length bs \<le> si_limit q
         then (Done (Some ?v), (?x, w1)) else (Fail (HeLimit CapacityExceeded), (?x, w1)))"
      using rd rk st y2 dec Some ed(2) rng by (simp add: si_take_def Let_def usize_checked_add_def payload_in_def swap)
    ultimately show ?thesis using ed(1) by (auto intro!: exI [of _ "edit_line (\<lambda>_. ?l) c"])
  qed
qed

lemma si_take_cases:
  assumes inv: "ch_inv (sx_channel x)" "sm_good (sx_machine x)" and ok: "reads_ok w"
  shows "\<exists>r x' w'. si_take q (x, w) = (r, (x', w')) \<and> ch_inv (sx_channel x') \<and> sm_good (sx_machine x') \<and> reads_ok w'
    \<and> w_sent w' = w_sent w \<and> r \<noteq> Abort \<and> (\<not> ch_open (sx_channel x) \<longrightarrow> \<not> is_done r \<and> quiet w w')
    \<and> (r = Done None \<longrightarrow> skipped (x, w) (x', w'))
    \<and> (\<forall>v. r = Done (Some v) \<longrightarrow> answered q (x, w) v (x', w'))"
proof -
  obtain r c w1 where rd: "read_line (si_deadline q) (si_sensitivity q) (sx_channel x, w) = (r, (c, w1))" by (metis prod_cases3)
  have a: "ch_inv c" "reads_ok w1" "w_sent w1 = w_sent w" "r \<noteq> Abort"
    "\<And>l. r = Done l \<Longrightarrow> received_line c = Some l \<and> takes_line (stream (sx_channel x) w) l (stream c w1)"
    "\<not> ch_open (sx_channel x) \<Longrightarrow> \<not> is_done r \<and> quiet w w1"
    using read_line_spec [OF inv(1) ok, of "si_deadline q" "si_sensitivity q"] rd by auto
  show ?thesis
  proof (cases r)
    case (Done line)
    note line = a(5) [OF Done]
    have op: "ch_open (sx_channel x)" using a(6) Done by auto
    let ?x = "x\<lparr>sx_channel := c\<rparr>"
    show ?thesis
    proof (cases "request_kind line")
      case (Ok k)
      have tk: "takes_request (stream (sx_channel x) w) k line (stream c w1)" using line Ok by (simp add: takes_request_def)
      obtain t m where st: "sm_receive_request (sx_machine x) k = (t, m)" by force
      have good: "sm_good m" "t \<noteq> Panic" using receive_good [OF inv(2) st] receive_no_panic st by auto
      consider (fin) "k \<in> {ReqEnd, ReqCan}" | (other) "k \<in> {ReqComment, ReqEmpty, ReqCommand}" | (data) "k = ReqData" by (cases k) auto
      then show ?thesis
      proof cases
        case fin
        let ?v = "(None, q\<lparr>si_outcome := Some (if k = ReqEnd then Completed else InqCancelled)\<rparr>)"
        have "answered q (x, w) ?v (?x, w1)"
          by (rule answeredI [of _ _ k line]) (use tk fin in \<open>auto simp: answer_gives_def\<close>)
        then show ?thesis using rd Done Ok a(1-3) inv(2) op fin by (simp add: si_take_def)
      next
        case other
        then have "t = Ok () \<Longrightarrow> skipped (x, w) (?x\<lparr>sx_machine := m\<rparr>, w1)"
          by (intro skippedI [of k _ _ line]) (use tk st in auto)
        then show ?thesis using rd Done Ok other st a(1-3) op good by (cases t) (auto simp: si_take_def)
      next
        case data
        show ?thesis
        proof (cases t)
          case (Ok u)
          then show ?thesis
            using si_take_data [OF rd [unfolded Done] a(1) line [THEN conjunct1] tk [unfolded data]] st data a(2,3) op good(1) by fastforce
        qed (use rd Done Ok data st a(1-3) op good in \<open>auto simp: si_take_def Let_def\<close>)
      qed
    next
      case (Err e)
      then show ?thesis using rd Done a(1-3) inv(2) op by (auto simp: si_take_def Let_def)
    qed (use request_no_panic in metis)
  qed (use rd a inv(2) in \<open>auto simp: si_take_def\<close>)
qed

lemma inquiry_request:
  "sm_state m = SInquiry \<Longrightarrow> sm_receive_request m k = (Ok (), m') \<Longrightarrow> k \<notin> {ReqEnd, ReqCan} \<Longrightarrow> m' = m \<and> k \<noteq> ReqCommand"
  by (cases k) (auto simp: sm_receive_request_def Let_def split: if_splits)

lemma si_loop_cases:
  "ch_inv (sx_channel x) \<Longrightarrow> sm_good (sx_machine x) \<Longrightarrow> reads_ok w \<Longrightarrow>
   \<exists>r x' w'. si_loop q (x, w) = (r, (x', w')) \<and> ch_inv (sx_channel x') \<and> sm_good (sx_machine x') \<and> reads_ok w'
     \<and> w_sent w' = w_sent w \<and> r \<noteq> Abort \<and> (\<not> ch_open (sx_channel x) \<longrightarrow> \<not> is_done r \<and> quiet w w')
     \<and> (is_done r \<longrightarrow> \<not> sm_dead (sx_machine x) \<longrightarrow> \<not> sm_dead (sx_machine x'))
     \<and> (\<forall>v. r = Done v \<longrightarrow> sm_state (sx_machine x) = SInquiry \<longrightarrow> sx_machine x' = sx_machine x
          \<and> (\<exists>k raw. takes_answer (stream (sx_channel x) w) k raw (stream (sx_channel x') w') \<and> answer_gives q k raw v))"
proof (induction "io_left (x, w)" arbitrary: x w rule: less_induct)
  case less
  obtain r x1 w1 where t: "si_take q (x, w) = (r, (x1, w1))" "ch_inv (sx_channel x1)" "sm_good (sx_machine x1)" "reads_ok w1"
    "w_sent w1 = w_sent w" "r \<noteq> Abort" "\<not> ch_open (sx_channel x) \<longrightarrow> \<not> is_done r \<and> quiet w w1"
    "r = Done None \<longrightarrow> skipped (x, w) (x1, w1)" "\<forall>v. r = Done (Some v) \<longrightarrow> answered q (x, w) v (x1, w1)"
    using si_take_cases [OF less.prems] by blast
  consider (more) "r = Done None" | (answer) v where "r = Done (Some v)" | (bad) "\<not> is_done r"
    by (metis is_done_simps(2-4) async.exhaust option.exhaust)
  then show ?case
  proof cases
    case more
    from t(8) more obtain k raw where sk: "k \<in> {ReqComment, ReqEmpty, ReqCommand}"
      "takes_request (stream (sx_channel x) w) k raw (stream (sx_channel x1) w1)"
      "sm_receive_request (sx_machine x) k = (Ok (), sx_machine x1)" by (auto simp: skipped_def)
    have "io_left (x1, w1) < io_left (x, w)" using si_take_uses t(1) more by blast
    from less.hyps [OF this t(2-4)] obtain r2 x2 w2 where
      ih: "si_loop q (x1, w1) = (r2, (x2, w2))" "ch_inv (sx_channel x2)" "sm_good (sx_machine x2)" "reads_ok w2"
        "w_sent w2 = w_sent w1" "r2 \<noteq> Abort"
        "is_done r2 \<longrightarrow> \<not> sm_dead (sx_machine x1) \<longrightarrow> \<not> sm_dead (sx_machine x2)"
        "\<forall>v. r2 = Done v \<longrightarrow> sm_state (sx_machine x1) = SInquiry \<longrightarrow> sx_machine x2 = sx_machine x1
          \<and> (\<exists>k raw. takes_answer (stream (sx_channel x1) w1) k raw (stream (sx_channel x2) w2) \<and> answer_gives q k raw v)"
      by blast
    have eq: "si_loop q (x, w) = (r2, (x2, w2))" using t(1) more ih(1) by (simp add: si_loop.simps [of q "(x, w)"])
    have alive: "\<not> sm_dead (sx_machine x1)" by (rule receive_request_alive [OF less.prems(2) sk(3)])
    have "\<exists>k raw. takes_answer (stream (sx_channel x) w) k raw (stream (sx_channel x2) w2) \<and> answer_gives q k raw v"
      "sx_machine x2 = sx_machine x" if "r2 = Done v" "sm_state (sx_machine x) = SInquiry" for v
    proof -
      have "sx_machine x1 = sx_machine x" "k \<noteq> ReqCommand" using inquiry_request [OF that(2) sk(3)] sk(1) by auto
      moreover have "k \<in> {ReqComment, ReqEmpty}" using calculation sk(1) by auto
      ultimately show "\<exists>k raw. takes_answer (stream (sx_channel x) w) k raw (stream (sx_channel x2) w2) \<and> answer_gives q k raw v"
        "sx_machine x2 = sx_machine x"
        using ih(8) that takes_answer.skip [OF sk(2)] by (simp_all, blast)
    qed
    then show ?thesis using eq ih t(5,7) more alive by auto
  next
    case answer
    from t(9) answer obtain k raw where an: "takes_request (stream (sx_channel x) w) k raw (stream (sx_channel x1) w1)"
      "answer_gives q k raw v"
      "if k = ReqData then sm_receive_request (sx_machine x) k = (Ok (), sx_machine x1) else sx_machine x1 = sx_machine x"
      unfolding answered_def fst_conv snd_conv by blast
    have k: "k \<in> {ReqData, ReqEnd, ReqCan}" using an(2) by (cases k) (auto simp: answer_gives_def)
    then have "takes_answer (stream (sx_channel x) w) k raw (stream (sx_channel x1) w1)"
      using an(1) by (intro takes_answer.here) auto
    moreover have "sm_state (sx_machine x) = SInquiry \<Longrightarrow> sx_machine x1 = sx_machine x"
      using an(3) inquiry_request [of "sx_machine x" k "sx_machine x1"] k by (auto split: if_splits)
    moreover have "\<not> sm_dead (sx_machine x) \<Longrightarrow> \<not> sm_dead (sx_machine x1)"
      using an(3) receive_request_alive [OF less.prems(2)] by (auto split: if_splits)
    moreover have "si_loop q (x, w) = (Done v, (x1, w1))" using t(1) answer by (simp add: si_loop.simps [of q "(x, w)"])
    ultimately show ?thesis using t an(2) answer by auto
  next
    case bad
    then have "\<exists>r'. si_loop q (x, w) = (r', (x1, w1)) \<and> \<not> is_done r' \<and> r' \<noteq> Abort"
      using t(1,6) by (cases r) (auto simp: si_loop.simps [of q "(x, w)"])
    then show ?thesis using t by auto
  qed
qed

lemma si_next_spec:
  assumes "sv_inv x" and "reads_ok w" and "si_outcome q = None"
  shows "\<exists>r x' w'. si_next q (x, w) = (r, (x', w')) \<and> sv_inv x' \<and> reads_ok w' \<and> w_sent w' = w_sent w \<and> r \<noteq> Abort
     \<and> (sv_dead x \<longrightarrow> \<not> is_done r \<and> quiet w w') \<and> sv_dead x' = (\<not> is_done r)
     \<and> (\<forall>v. r = Done v \<longrightarrow> sm_state (sx_machine x) = SInquiry \<longrightarrow> sx_machine x' = sx_machine x
          \<and> (\<exists>k raw. takes_answer (stream (sx_channel x) w) k raw (stream (sx_channel x') w') \<and> answer_gives q k raw v))"
proof -
  have inv: "ch_inv (sx_channel x)" "sm_good (sx_machine x)" using assms(1) by (auto simp: sv_inv_def)
  obtain r x1 w1 where l: "si_loop q (x, w) = (r, (x1, w1))" "ch_inv (sx_channel x1)" "sm_good (sx_machine x1)" "reads_ok w1"
    "w_sent w1 = w_sent w" "r \<noteq> Abort" "\<not> ch_open (sx_channel x) \<longrightarrow> \<not> is_done r \<and> quiet w w1"
    "is_done r \<longrightarrow> \<not> sm_dead (sx_machine x) \<longrightarrow> \<not> sm_dead (sx_machine x1)"
    "\<forall>v. r = Done v \<longrightarrow> sm_state (sx_machine x) = SInquiry \<longrightarrow> sx_machine x1 = sx_machine x
       \<and> (\<exists>k raw. takes_answer (stream (sx_channel x) w) k raw (stream (sx_channel x1) w1) \<and> answer_gives q k raw v)"
    using si_loop_cases [OF inv assms(2), of q] by blast
  have drop: "sv_inv (io_drop x1)" "sv_dead (io_drop x1)" using io_drop_inv l(2,3) ch_inv_shape by blast+
  have dead: "sv_dead x \<Longrightarrow> \<not> ch_open (sx_channel x)" using assms(1) by (auto simp: sv_inv_def)
  have eq: "si_next q (x, w) = (r, (if is_done r then x1 else io_drop x1, w1))"
    using io_operation_eq [of "si_loop q", OF l(1)] assms(3) by (simp add: si_next_def)
  show ?thesis
  proof (cases "is_done r")
    case True
    have "\<not> sm_dead (sx_machine x)" using True l(7) dead by (auto simp: sv_dead_def)
    then show ?thesis using True eq l by (auto simp: sv_inv_def sv_dead_def)
  next
    case False
    then show ?thesis using eq l drop dead by auto
  qed
qed

lemma si_drop_inv: "sv_inv x \<Longrightarrow> sv_inv (si_drop q x) \<and> (sv_dead x \<longrightarrow> sv_dead (si_drop q x))"
  using io_drop_inv [of x] by (auto simp: si_drop_def sv_inv_def ch_inv_shape)

lemma si_finish_spec:
  assumes "sv_inv x" and "\<not> si_finished q" and "si_finish q x = (r, x')"
  shows "sv_inv x' \<and> r \<noteq> Panic \<and> sv_dead x' = (\<not> is_ok r) \<and> (sv_dead x \<longrightarrow> \<not> is_ok r)
    \<and> (\<forall>outcome. r = Ok outcome \<longrightarrow> si_outcome q = Some outcome \<and> sx_channel x' = sx_channel x
         \<and> sm_receive_request (sx_machine x) (case outcome of Completed \<Rightarrow> ReqEnd | InqCancelled \<Rightarrow> ReqCan) = (Ok (), sx_machine x'))"
proof (cases "si_outcome q")
  case None
  then show ?thesis
    using assms io_drop_inv [of x] by (auto simp: si_finish_def si_drop_def sv_inv_def ch_inv_shape)
next
  case (Some outcome)
  let ?k = "case outcome of Completed \<Rightarrow> ReqEnd | InqCancelled \<Rightarrow> ReqCan"
  obtain t m where st: "sm_receive_request (sx_machine x) ?k = (t, m)" by force
  have inv: "ch_inv (sx_channel x)" "sm_good (sx_machine x)" using assms(1) by (auto simp: sv_inv_def)
  note good = receive_good [OF inv(2) st]
  show ?thesis
  proof (cases t)
    case (Ok u)
    have alive: "\<not> sm_dead m" using receive_request_alive [OF inv(2)] st Ok by simp
    have "\<not> sm_dead (sx_machine x)" using receive_dead st Ok by fastforce
    then show ?thesis
      using assms(3) Some st Ok alive good inv by (auto simp: si_finish_def si_drop_def sv_inv_def sv_dead_def)
  next
    case (Err e)
    then show ?thesis
      using assms(2,3) Some st good inv io_drop_inv [of "x\<lparr>sx_machine := m\<rparr>"]
      by (auto simp: si_finish_def si_drop_def ch_inv_shape)
  qed (use st receive_no_panic in metis)
qed

section \<open>Comments and HELP\<close>

lemma comment_emits:
  assumes "sv_inv x" and "reads_ok w" and "length bs < MAX_LINE_BYTES"
  shows "\<exists>r x' w'. comment d bs (x, w) = (r, (x', w')) \<and> emits [LineComment (SP # bs)] (x, w) r (x', w')"
proof -
  let ?body = "take 1 ((replicate MAX_LINE_BYTES 0)[0 := SP]) @ bs @ drop (1 + length bs) ((replicate MAX_LINE_BYTES 0)[0 := SP])"
  have "take 1 ((replicate MAX_LINE_BYTES 0)[0 := SP]) = [SP]" by (simp add: take_Suc hd_conv_nth MAX_LINE_BYTES_def)
  then have body: "copy_at ((replicate MAX_LINE_BYTES 0)[0 := SP]) 1 bs = Some ?body" "take (length bs + 1) ?body = SP # bs"
    using assms(3) by (simp_all add: copy_at_def)
  have "kind (LineComment (SP # bs)) \<notin> {KOk, KErr}" by (simp add: kind_def)
  from guarded_line_emits [OF assms(1,2) this, of d Public] show ?thesis
    unfolding comment_def body(1) option.case body(2) by blast
qed

fun entry_chunks :: "bytes list \<Rightarrow> bytes \<Rightarrow> bytes list" where
  "entry_chunks [] buf = (if buf = [] then [] else [buf])"
| "entry_chunks (c # cs) buf =
     (if length buf + length c > MAX_LINE_BYTES - 3 then buf # entry_chunks cs c else entry_chunks cs (buf @ c))"

lemma entry_chunks_concat: "concat (entry_chunks cs buf) = buf @ concat cs"
  by (induction cs buf rule: entry_chunks.induct) auto

lemma entry_chunks_bound:
  "list_all (\<lambda>c. length c \<le> 4) cs \<Longrightarrow> length buf \<le> MAX_LINE_BYTES - 3 \<Longrightarrow>
   list_all (\<lambda>b. length b \<le> MAX_LINE_BYTES - 3) (entry_chunks cs buf)"
  by (induction cs buf rule: entry_chunks.induct) (auto simp: MAX_LINE_BYTES_def)

definition comment_lines :: "bytes list \<Rightarrow> ServerLine list" where
  "comment_lines bs = map (\<lambda>b. LineComment (SP # b)) bs"

text \<open>Emitting on a session that is alive; the empty sequence needs that.\<close>

lemma emits_return: "sv_inv x \<Longrightarrow> reads_ok w \<Longrightarrow> \<not> sv_dead x \<Longrightarrow> emits [] (x, w) (Done v) (x, w)"
  by (simp add: emits_def)

lemma emits_keeps: "emits ls st r (x', w') \<Longrightarrow> sv_inv x' \<and> reads_ok w' \<and> sv_dead x' = (\<not> is_done r) \<and> r \<noteq> Abort"
  by (auto simp: emits_def split: prod.splits if_splits)

lemma bind_emits:
  assumes "m (x, w) = (r, (x1, w1))" and "emits ls (x, w) r (x1, w1)"
    and "\<And>v. r = Done v \<Longrightarrow> \<exists>r' x' w'. f v (x1, w1) = (r', (x', w')) \<and> emits ls' (x1, w1) r' (x', w')"
  shows "\<exists>r' x' w'. bindM m f (x, w) = (r', (x', w')) \<and> emits (ls @ ls') (x, w) r' (x', w')"
proof (cases r)
  case (Done v)
  from assms(3) [OF this] obtain r' x' w' where f: "f v (x1, w1) = (r', (x', w'))" "emits ls' (x1, w1) r' (x', w')" by blast
  have "emits (ls @ ls') (x, w) r' (x', w')" using emits_append [OF assms(2) _ f(2)] Done by simp
  then show ?thesis using assms(1) Done f(1) by (simp add: bindM_def)
next
  case (Fail e)
  have "emits (ls @ ls') (x, w) (Fail e :: ('c, 'b) async) (x1, w1)"
    using emits_fail_append [OF assms(2)] Fail by (auto simp: emits_def)
  then show ?thesis using assms(1) Fail by (simp add: bindM_def)
next
  case Cancelled
  have "emits (ls @ ls') (x, w) (Cancelled :: ('c, 'b) async) (x1, w1)"
    using emits_fail_append [OF assms(2)] Cancelled by (auto simp: emits_def)
  then show ?thesis using assms(1) Cancelled by (simp add: bindM_def)
qed (use assms(2) in \<open>simp add: emits_def\<close>)

lemma entry_loop_emits:
  "sv_inv x \<Longrightarrow> reads_ok w \<Longrightarrow> \<not> sv_dead x \<Longrightarrow> list_all (\<lambda>c. length c \<le> 4) cs \<Longrightarrow> length buf \<le> MAX_LINE_BYTES - 3 \<Longrightarrow>
   \<exists>r x' w'. entry_loop d cs buf (x, w) = (r, (x', w')) \<and> emits (comment_lines (entry_chunks cs buf)) (x, w) r (x', w')"
proof (induction cs arbitrary: buf x w)
  case Nil
  have "length buf < MAX_LINE_BYTES" using Nil.prems(5) by (simp add: MAX_LINE_BYTES_def)
  then show ?case
    using comment_emits [OF Nil.prems(1,2)] emits_return [OF Nil.prems(1-3)]
    by (auto simp: comment_lines_def returnM_def)
next
  case (Cons c cs)
  have c: "length c \<le> 4" "list_all (\<lambda>c. length c \<le> 4) cs" using Cons.prems(4) by auto
  have c4: "length c \<le> MAX_LINE_BYTES - 3" using c(1) by (simp add: MAX_LINE_BYTES_def)
  show ?case
  proof (cases "length buf + length c > MAX_LINE_BYTES - 3")
    case True
    have "length buf < MAX_LINE_BYTES" using Cons.prems(5) by (simp add: MAX_LINE_BYTES_def)
    from comment_emits [OF Cons.prems(1,2) this, of d] obtain r x1 w1 where
      cm: "comment d buf (x, w) = (r, (x1, w1))" "emits [LineComment (SP # buf)] (x, w) r (x1, w1)" by blast
    have "\<exists>r' x' w'. entry_loop d cs c (x1, w1) = (r', (x', w')) \<and> emits (comment_lines (entry_chunks cs c)) (x1, w1) r' (x', w')"
      if "r = Done v" for v
      by (rule Cons.IH [OF _ _ _ c(2) c4]) (use emits_keeps [OF cm(2)] that in simp_all)
    from bind_emits [where m = "comment d buf" and f = "\<lambda>_. entry_loop d cs c", OF cm this] True show ?thesis by (simp add: comment_lines_def)
  next
    case False
    then show ?thesis using Cons.IH [OF Cons.prems(1-3) c(2), of "buf @ c"] by simp
  qed
qed

lemma str_chars_width: "list_all (\<lambda>c. length c \<le> 4) (str_chars bs)"
  by (cases "chars bs") (auto simp: str_chars_def list_all_iff dest: chars_width)

lemma str_chars_concat: "utf8_valid bs \<Longrightarrow> concat (str_chars bs) = bs"
  by (auto simp: str_chars_def utf8_valid_def chars_concat)

definition entry_texts :: "bytes \<times> bytes \<Rightarrow> bytes list" where
  "entry_texts e = entry_chunks (str_chars (fst e) @ str_chars (lit '' '') @ str_chars (snd e)) []"

lemma space_chars: "str_chars (lit '' '') = [[SP]]"
  by (simp add: str_chars_def ascii_chars lit_def)

lemma entry_texts_facts:
  assumes "utf8_valid (fst e)" and "utf8_valid (snd e)"
  shows "concat (entry_texts e) = fst e @ [SP] @ snd e" "list_all (\<lambda>b. length b \<le> 997) (entry_texts e)"
  using entry_chunks_bound [of "str_chars (fst e) @ str_chars (lit '' '') @ str_chars (snd e)" "[]"]
  by (simp_all add: entry_texts_def entry_chunks_concat str_chars_concat assms space_chars str_chars_width MAX_LINE_BYTES_def)

text \<open>Every piece of an entry of clean texts fits the wire.\<close>

lemma entry_chunks_set: "\<Union> (set ` set (entry_chunks cs buf)) \<subseteq> set buf \<union> \<Union> (set ` set cs)"
  using entry_chunks_concat [of cs buf] by (metis Un_commute order_refl set_append set_concat)

lemma str_chars_clean: "clean bs \<Longrightarrow> c \<in> set (str_chars bs) \<Longrightarrow> clean c"
  using chars_concat [of bs] by (cases "chars bs") (auto simp: str_chars_def clean_set)

lemma entry_texts_encodable:
  assumes "token n" and "clean ds"
  shows "list_all encodable (comment_lines (entry_texts (n, ds)))"
proof -
  let ?cs = "str_chars n @ str_chars (lit '' '') @ str_chars ds"
  have "clean t" if "t \<in> set (entry_texts (n, ds))" for t
  proof -
    have "set t \<subseteq> \<Union> (set ` set ?cs)" using that entry_chunks_set [of ?cs "[]"] by (auto simp: entry_texts_def)
    moreover have "clean c" if "c \<in> set ?cs" for c
      using that str_chars_clean [OF token_clean [OF assms(1)]] str_chars_clean [OF assms(2)] by (auto simp: space_chars)
    ultimately show ?thesis unfolding clean_set by blast
  qed
  moreover have "list_all (\<lambda>t. length t \<le> 997) (entry_texts (n, ds))"
    using entry_chunks_bound [of ?cs "[]"] by (simp add: entry_texts_def str_chars_width MAX_LINE_BYTES_def)
  ultimately show ?thesis
    by (auto simp: comment_lines_def list_all_iff encodable_def line_body_def wire_line_def MAX_LINE_BYTES_def lit_def forbidden_def)
qed

lemma entry_emits:
  assumes "sv_inv x" and "reads_ok w" and "\<not> sv_dead x" and "token n" and "clean ds"
  shows "\<exists>r x' w'. entry d n ds (x, w) = (r, (x', w')) \<and> emits (comment_lines (entry_texts (n, ds))) (x, w) r (x', w')"
  using entry_loop_emits [OF assms(1-3), of "str_chars n @ str_chars (lit '' '') @ str_chars ds" "[]"] assms(4,5)
  by (simp add: entry_def Command_new_def validate_token_eq validate_line_eq entry_texts_def str_chars_width)

lemma help_loop_emits:
  "sv_inv x \<Longrightarrow> reads_ok w \<Longrightarrow> \<not> sv_dead x \<Longrightarrow> list_all (\<lambda>(n, ds). token n \<and> clean ds) es \<Longrightarrow>
   \<exists>r x' w'. help_loop d es (x, w) = (r, (x', w')) \<and> emits (concat (map (comment_lines \<circ> entry_texts) es)) (x, w) r (x', w')"
proof (induction es arbitrary: x w)
  case Nil
  then show ?case using emits_return by (simp add: returnM_def)
next
  case (Cons e es)
  obtain n ds where e: "e = (n, ds)" by force
  have nd: "token n" "clean ds" "list_all (\<lambda>(n, ds). token n \<and> clean ds) es" using Cons.prems(4) e by auto
  obtain r x1 w1 where en: "entry d n ds (x, w) = (r, (x1, w1))" "emits (comment_lines (entry_texts (n, ds))) (x, w) r (x1, w1)"
    using entry_emits [OF Cons.prems(1-3) nd(1,2)] by blast
  have "\<exists>r' x' w'. help_loop d es (x1, w1) = (r', (x', w'))
      \<and> emits (concat (map (comment_lines \<circ> entry_texts) es)) (x1, w1) r' (x', w')" if "r = Done v" for v
    by (rule Cons.IH [OF _ _ _ nd(3)]) (use emits_keeps [OF en(2)] that in simp_all)
  from bind_emits [where m = "entry d n ds" and f = "\<lambda>_. help_loop d es", OF en this] show ?case by (simp add: e o_def)
qed

section \<open>A server session fails for good\<close>

text \<open>
  Every operation of a handler's context, with whatever guard values it is applied to. A
  guard that has its outcome reads nothing, so \<open>SopNext\<close> is for one that waits for it.
\<close>

datatype server_op =
    SopStatus nat bytes bytes
  | SopData nat bytes
  | SopInquire ServerOptions nat bytes bytes Sensitivity
  | SopNext ServerInquiry
  | SopFinish ServerInquiry

fun server_op_step :: "server_op \<Rightarrow> ServerIo \<times> world \<Rightarrow> bool \<times> ServerIo \<times> world" where
  "server_op_step (SopStatus d kw args) st = (case send_status d kw args st of (r, st') \<Rightarrow> (is_done r, st'))"
| "server_op_step (SopData d bs) st = (case send_data d bs st of (r, st') \<Rightarrow> (is_done r, st'))"
| "server_op_step (SopInquire opts d kw args s) st = (case inquire opts d kw args s st of (r, st') \<Rightarrow> (is_done r, st'))"
| "server_op_step (SopNext q) st = (case si_next (q\<lparr>si_outcome := None\<rparr>) st of (r, st') \<Rightarrow> (is_done r, st'))"
| "server_op_step (SopFinish q) st =
     (case st of (x, w) \<Rightarrow> (case si_finish (q\<lparr>si_finished := False\<rparr>) x of (r, x') \<Rightarrow> (is_ok r, (x', w))))"

lemma status_emits:
  assumes "sv_inv x" and "reads_ok w"
  shows "\<exists>r x' w'. send_status d kw args (x, w) = (r, (x', w')) \<and> emits [LineStatus kw args] (x, w) r (x', w')"
  using guarded_line_emits [OF assms, of "LineStatus kw args" d Secret] by (auto simp: send_status_def kind_def)

lemma inquire_state: "sm_send_response m KInquire = (Ok (), m') \<Longrightarrow> sm_state m' = SInquiry"
  by (auto simp: sm_send_response_def Let_def split: if_splits)

lemma inquire_emits:
  assumes "sv_inv x" and "reads_ok w"
  shows "\<exists>r x' w'. inquire opts d kw args s (x, w) = (r, (x', w')) \<and> emits [LineInquire kw args] (x, w) r (x', w')
     \<and> (\<forall>q. r = Done q \<longrightarrow> sm_state (sx_machine x') = SInquiry \<and> si_outcome q = None \<and> \<not> si_finished q
          \<and> si_received q = 0 \<and> si_limit q = so_max_inquiry_bytes opts \<and> si_sensitivity q = s \<and> si_deadline q \<le> d)"
proof -
  let ?l = "LineInquire kw args"
  obtain t w0 where t: "now w = (t, w0)" by force
  define dl where "dl = min (if t + so_inquiry_timeout opts \<le> w_instant_max w0 then t + so_inquiry_timeout opts else d) d"
  have q0: "quiet w w0" by (rule quiet_now [OF t])
  have ok: "reads_ok w0" using assms(2) q0 by (simp add: reads_ok_def quiet_def)
  have "kind ?l \<notin> {KOk, KErr}" by (simp add: kind_def)
  from guarded_line_emits [OF assms(1) ok this, of dl s] obtain r x' w' where
    g: "io_operation (respond_line HeProtocol HeState HeTransport ?l dl s) (x, w0) = (r, (x', w'))"
      "emits [?l] (x, w0) r (x', w')" "is_done r \<longrightarrow> sm_send_response (sx_machine x) (kind ?l) = (Ok (), sx_machine x')" by blast
  have e: "emits [?l] (x, w) r (x', w')"
    using g(2) q0 by (auto simp: emits_def quiet_def)
  have inq: "is_done r \<Longrightarrow> sm_state (sx_machine x') = SInquiry"
    using g(3) inquire_state [of "sx_machine x" "sx_machine x'"] by (simp add: kind_def)
  have dl: "dl \<le> d" by (simp add: dl_def)
  have eq: "inquire opts d kw args s (x, w) = si_begin dl (so_max_inquiry_bytes opts) ?l s (x, w0)"
    by (simp add: inquire_def t dl_def Let_def)
  show ?thesis
    unfolding eq using g(1) e inq dl by (cases r) (auto simp: si_begin_def bindM_def returnM_def emits_def)
qed

lemma server_op_step_spec:
  assumes "io_inv (x, w)" and "server_op_step a (x, w) = (ok, (x', w'))"
  shows "io_inv (x', w') \<and> (\<not> ok \<longrightarrow> sv_dead x') \<and> (sv_dead x \<longrightarrow> \<not> ok \<and> quiet w w')"
proof -
  have inv: "sv_inv x" "reads_ok w" using assms(1) by (auto simp: io_inv_def)
  show ?thesis
  proof (cases a)
    case (SopStatus d kw args)
    obtain r x1 w1 where "send_status d kw args (x, w) = (r, (x1, w1))" "emits [LineStatus kw args] (x, w) r (x1, w1)"
      using status_emits [OF inv, of d kw args] by blast
    then show ?thesis using assms(2) SopStatus by (auto simp: emits_def io_inv_def split: if_splits)
  next
    case (SopData d bs)
    obtain r x1 w1 where "send_data d bs (x, w) = (r, (x1, w1))" "emits (data_lines bs) (x, w) r (x1, w1)"
      using send_data_emits [OF inv, of d bs] by blast
    then show ?thesis using assms(2) SopData by (auto simp: emits_def io_inv_def split: if_splits)
  next
    case (SopInquire opts d kw args s)
    obtain r x1 w1 where "inquire opts d kw args s (x, w) = (r, (x1, w1))" "emits [LineInquire kw args] (x, w) r (x1, w1)"
      using inquire_emits [OF inv, of opts d kw args s] by blast
    then show ?thesis using assms(2) SopInquire by (auto simp: emits_def io_inv_def split: if_splits)
  next
    case (SopNext q)
    have "si_outcome (q\<lparr>si_outcome := None\<rparr>) = None" by simp
    from si_next_spec [OF inv this] show ?thesis using assms(2) SopNext by (auto simp: io_inv_def)
  next
    case (SopFinish q)
    obtain r x1 where f: "si_finish (q\<lparr>si_finished := False\<rparr>) x = (r, x1)" by force
    have "\<not> si_finished (q\<lparr>si_finished := False\<rparr>)" by simp
    from si_finish_spec [OF inv(1) this f] show ?thesis using assms(2) SopFinish f inv(2) by (auto simp: io_inv_def)
  qed
qed

interpretation server_io: fail_stop io_inv sv_dead server_op_step
proof (unfold_locales, goal_cases)
  case (1 st a)
  obtain x w where st: "st = (x, w)" by force
  obtain ok x' w' where s: "server_op_step a (x, w) = (ok, (x', w'))" by (metis prod_cases3)
  show ?case using server_op_step_spec [OF 1 [unfolded st] s] s st by simp
next
  case (2 x w a ok x' w')
  then show ?case using server_op_step_spec by blast
next
  case (3 x w a ok x' w')
  then show ?case using server_op_step_spec by blast
qed

end
