(* ===== verification/Server_Session.thy ===== *)
theory Server_Session
  imports Server_Props
begin

text \<open>
  The session runner (\<open>assuan-server/src/session.rs\<close>, with the default hooks of
  \<open>hooks.rs\<close>): authentication and greeting, the command loop with its built-in commands,
  the final response of each operation, and the orderly end with the close hook.

  Handlers and hooks are application code, so they are arguments of the model: programs
  over the operations of \<open>CommandContext\<close>. A program is a tree whose branches are the
  outcomes of the operation it performs, so it can react to every outcome, catch errors,
  abandon a pending operation and go on, keep or change the application state, return any
  result, panic, stay pending until the deadline, or be dropped with the whole session.
\<close>

section \<open>Programs of handlers and hooks\<close>

datatype 'a outcome = Got 'a | Failed HandlerError | Abandoned

datatype 's prog =
    PReturn "HandlerError option"
  | PStatus bytes bytes "unit outcome \<Rightarrow> 's prog"
  | PData bytes "unit outcome \<Rightarrow> 's prog"
  | PInquire bytes bytes Sensitivity "HandlerError option \<Rightarrow> 's prog" "'s iprog"
  | PState "'s \<Rightarrow> 's" "'s \<Rightarrow> 's prog"
  | PElapsed
  | PPanic
  | PDropped
and 's iprog =
    INext "PayloadRef option outcome \<Rightarrow> 's iprog"
  | IFinish "(InquiryOutcome, HandlerError) result \<Rightarrow> 's prog"
  | IDrop "'s prog"
  | IForget "'s prog"
  | IElapsed
  | IPanic
  | IDropped

definition outcome_of :: "('a, HandlerError) async \<Rightarrow> 'a outcome" where
  "outcome_of r = (case r of Done v \<Rightarrow> Got v | Fail e \<Rightarrow> Failed e | _ \<Rightarrow> Abandoned)"

text \<open>
  How a program ends inside its timeout: it returned (with its error, if any), the deadline
  passed, it panicked, or it was dropped. Its state is the application state, the
  connection and the world. \<open>PInquire\<close> goes on with its second branch when it got the
  guard; \<open>None\<close> in the first one is a request that was abandoned.
\<close>

type_synonym 's app = "'s \<times> ServerIo \<times> world"

type_synonym run = "(HandlerError option, unit) async"

primrec run_prog :: "'s prog \<Rightarrow> ServerOptions \<Rightarrow> nat \<Rightarrow> 's app \<Rightarrow> run \<times> 's app"
  and run_iprog :: "'s iprog \<Rightarrow> ServerOptions \<Rightarrow> nat \<Rightarrow> ServerInquiry \<Rightarrow> 's app \<Rightarrow> run \<times> 's app" where
  "run_prog (PReturn e) = (\<lambda>opts d a. (Done e, a))"
| "run_prog (PStatus kw args f) = (\<lambda>opts d (s, st).
     (case send_status d kw args st of
        (Abort, st) \<Rightarrow> (Abort, (s, st))
      | (r, st) \<Rightarrow> run_prog (f (outcome_of r)) opts d (s, st)))"
| "run_prog (PData bs f) = (\<lambda>opts d (s, st).
     (case send_data d bs st of
        (Abort, st) \<Rightarrow> (Abort, (s, st))
      | (r, st) \<Rightarrow> run_prog (f (outcome_of r)) opts d (s, st)))"
| "run_prog (PInquire kw args sens f g) = (\<lambda>opts d (s, st).
     (case inquire opts d kw args sens st of
        (Abort, st) \<Rightarrow> (Abort, (s, st))
      | (Done q, st) \<Rightarrow> run_iprog g opts d q (s, st)
      | (Fail e, st) \<Rightarrow> run_prog (f (Some e)) opts d (s, st)
      | (Cancelled, st) \<Rightarrow> run_prog (f None) opts d (s, st)))"
| "run_prog (PState h f) = (\<lambda>opts d (s, st). run_prog (f (h s)) opts d (h s, st))"
| "run_prog PElapsed = (\<lambda>opts d a. (Fail (), a))"
| "run_prog PPanic = (\<lambda>opts d a. (Abort, a))"
| "run_prog PDropped = (\<lambda>opts d a. (Cancelled, a))"
| "run_iprog (INext f) = (\<lambda>opts d q (s, st).
     (case si_next q st of
        (Abort, (x, w)) \<Rightarrow> (Abort, (s, (si_drop q x, w)))
      | (Done (v, q), st) \<Rightarrow> run_iprog (f (Got v)) opts d q (s, st)
      | (Fail e, st) \<Rightarrow> run_iprog (f (Failed e)) opts d q (s, st)
      | (Cancelled, st) \<Rightarrow> run_iprog (f Abandoned) opts d q (s, st)))"
| "run_iprog (IFinish f) = (\<lambda>opts d q (s, (x, w)).
     (case si_finish q x of
        (Panic, x) \<Rightarrow> (Abort, (s, (x, w)))
      | (r, x) \<Rightarrow> run_prog (f r) opts d (s, (x, w))))"
| "run_iprog (IDrop p) = (\<lambda>opts d q (s, (x, w)). run_prog p opts d (s, (si_drop q x, w)))"
| "run_iprog (IForget p) = (\<lambda>opts d q (s, st). run_prog p opts d (s, st))"
| "run_iprog IElapsed = (\<lambda>opts d q (s, (x, w)). (Fail (), (s, (si_drop q x, w))))"
| "run_iprog IPanic = (\<lambda>opts d q (s, (x, w)). (Abort, (s, (si_drop q x, w))))"
| "run_iprog IDropped = (\<lambda>opts d q (s, (x, w)). (Cancelled, (s, (si_drop q x, w))))"

section \<open>Hooks\<close>

text \<open>
  What a program may look at besides the application state: the identity of the peer and
  whether the session is authenticated. The close hook has no connection; it ends like a
  program and may change the application state.
\<close>

record 'p view =
  vw_peer :: "'p option"
  vw_authenticated :: bool

record ('s, 'p) SessionHooks =
  hk_authenticate :: "'p view \<Rightarrow> 's prog"
  hk_option :: "OptionRequest \<Rightarrow> 'p view \<Rightarrow> 's prog"
  hk_reset :: "'p view \<Rightarrow> 's prog"
  hk_closed :: "SessionEnd \<Rightarrow> 's \<Rightarrow> run \<times> 's"

definition DefaultHooks :: "('s, 'p) SessionHooks" where
  "DefaultHooks =
     \<lparr>hk_authenticate = (\<lambda>_. PReturn None),
      hk_option = (\<lambda>_ _. PReturn (Some (HeRemote UNKNOWN_OPTION (lit ''unknown option'')))),
      hk_reset = (\<lambda>_. PReturn None),
      hk_closed = (\<lambda>_ s. (Done None, s))\<rparr>"

type_synonym ('s, 'p) handler_call = "Command \<Rightarrow> 'p view \<Rightarrow> 's prog"

section \<open>Sessions\<close>

record ('s, 'p) Session =
  ss_io :: ServerIo
  ss_state :: 's
  ss_registry :: "('s, 'p) handler_call Registry"
  ss_hooks :: "('s, 'p) SessionHooks"
  ss_options :: ServerOptions
  ss_peer :: "'p option"
  ss_authenticated :: bool

definition Session_new ::
  "'p option \<Rightarrow> 's \<Rightarrow> ('s, 'p) handler_call Registry \<Rightarrow> ('s, 'p) SessionHooks \<Rightarrow> ServerOptions \<Rightarrow> ('s, 'p) Session" where
  "Session_new peer state registry hooks opts =
     \<lparr>ss_io = \<lparr>sx_channel = ch_new, sx_machine = sm_new\<rparr>, ss_state = state, ss_registry = registry,
      ss_hooks = hooks, ss_options = opts, ss_peer = peer, ss_authenticated = False\<rparr>"

definition ss_view :: "('s, 'p) Session \<Rightarrow> 'p view" where
  "ss_view ss = \<lparr>vw_peer = ss_peer ss, vw_authenticated = ss_authenticated ss\<rparr>"

type_synonym ('s, 'p, 'a) drives = "(('s, 'p) Session \<times> world, 'a, ServerError) io"

text \<open>A program run in the session's context until the deadline.\<close>

definition invoke :: "'s prog \<Rightarrow> nat \<Rightarrow> ('s, 'p, HandlerError option) drives" where
  "invoke p deadline st =
     (case st of (ss, w) \<Rightarrow>
      case run_prog p (ss_options ss) deadline (ss_state ss, (ss_io ss, w)) of
        (r, (s, (x, w))) \<Rightarrow> (map_fail (\<lambda>_. SvTransport TTimeout) r, (ss\<lparr>ss_state := s, ss_io := x\<rparr>, w)))"

definition final_line :: "HandlerError option \<Rightarrow> (ServerLine, ServerError) result" where
  "final_line result =
     (case result of
        None \<Rightarrow> Ok (LineOk [])
      | Some (HeRemote code message) \<Rightarrow>
          bind (map_err SvProtocol (validate_remote (HeRemote code message))) (\<lambda>_. Ok (LineErr code message))
      | Some HeInternal \<Rightarrow> Ok (LineErr INTERNAL (lit ''internal error''))
      | Some e \<Rightarrow> Err (SvHandler e))"

definition finalize :: "HandlerError option \<Rightarrow> nat \<Rightarrow> bool \<Rightarrow> ('s, 'p, unit) drives" where
  "finalize result deadline greeting st =
     (case st of (ss, w) \<Rightarrow>
      case result of
        Some (HeTransport e) \<Rightarrow> (Fail (SvHandler (HeTransport e)), (ss, w))
      | Some (HeProtocol e) \<Rightarrow> (Fail (SvHandler (HeProtocol e)), (ss, w))
      | Some (HeState e) \<Rightarrow> (Fail (SvHandler (HeState e)), (ss, w))
      | Some (HeLimit e) \<Rightarrow> (Fail (SvHandler (HeLimit e)), (ss, w))
      | _ \<Rightarrow>
          if sm_state (sx_machine (ss_io ss)) \<notin> {SGreeting, SHandler, SAwaitFinal}
          then (Fail (SvState Unusable), (ss, w))
          else
            (case final_line result of
               Err e \<Rightarrow> (Fail e, (ss, w))
             | Panic \<Rightarrow> (Abort, (ss, w))
             | Ok line \<Rightarrow>
                 (case respond_line SvProtocol SvState SvTransport line deadline Secret (ss_io ss, w) of
                    (Done _, (x, w)) \<Rightarrow>
                      ((case result of
                          Some e \<Rightarrow> if greeting then Fail (SvHandler e) else Done ()
                        | None \<Rightarrow> Done ()), (ss\<lparr>ss_io := x\<rparr>, w))
                  | (Fail e, (x, w)) \<Rightarrow> (Fail e, (ss\<lparr>ss_io := x\<rparr>, w))
                  | (Abort, (x, w)) \<Rightarrow> (Abort, (ss\<lparr>ss_io := x\<rparr>, w))
                  | (Cancelled, (x, w)) \<Rightarrow> (Cancelled, (ss\<lparr>ss_io := x\<rparr>, w)))))"

section \<open>Reading a command\<close>

definition ss_left :: "('s, 'p) Session \<times> world \<Rightarrow> nat" where
  "ss_left st = io_left (ss_io (fst st), snd st)"

text \<open>
  One line between commands: nothing at the end of the stream, else the line with its
  category. The copy of a command into the buffer of the call would panic for a line longer
  than the buffer.
\<close>

definition read_one :: "nat \<Rightarrow> ('s, 'p, (RequestKind \<times> bytes) option) drives" where
  "read_one idle st =
     (case st of (ss, w) \<Rightarrow>
      let x = ss_io ss in
      case read_line_or_eof idle Secret (sx_channel x, w) of
        (Fail e, (c, w)) \<Rightarrow> (Fail (SvTransport e), (ss\<lparr>ss_io := x\<lparr>sx_channel := c\<rparr>\<rparr>, w))
      | (Abort, (c, w)) \<Rightarrow> (Abort, (ss\<lparr>ss_io := x\<lparr>sx_channel := c\<rparr>\<rparr>, w))
      | (Cancelled, (c, w)) \<Rightarrow> (Cancelled, (ss\<lparr>ss_io := x\<lparr>sx_channel := c\<rparr>\<rparr>, w))
      | (Done None, (c, w)) \<Rightarrow> (Done None, (ss\<lparr>ss_io := x\<lparr>sx_channel := c\<rparr>\<rparr>, w))
      | (Done (Some line), (c, w)) \<Rightarrow>
          let x = x\<lparr>sx_channel := c\<rparr> in
          (case request_kind line of
             Err e \<Rightarrow> (Fail (SvProtocol e), (ss\<lparr>ss_io := x\<rparr>, w))
           | Panic \<Rightarrow> (Abort, (ss\<lparr>ss_io := x\<rparr>, w))
           | Ok k \<Rightarrow>
               (case sm_receive_request (sx_machine x) k of
                  (Err e, m) \<Rightarrow> (Fail (SvState e), (ss\<lparr>ss_io := x\<lparr>sx_machine := m\<rparr>\<rparr>, w))
                | (Panic, m) \<Rightarrow> (Abort, (ss\<lparr>ss_io := x\<lparr>sx_machine := m\<rparr>\<rparr>, w))
                | (Ok _, m) \<Rightarrow>
                    ((if k \<notin> {ReqEmpty, ReqComment} \<and> length line > MAX_LINE_BYTES then Abort else Done (Some (k, line))),
                     (ss\<lparr>ss_io := x\<lparr>sx_machine := m\<rparr>\<rparr>, w)))))"

lemma read_one_uses:
  assumes "read_one idle st = (Done (Some v), st')"
  shows "ss_left st' < ss_left st"
proof -
  obtain ss w where st: "st = (ss, w)" by force
  obtain r c w1 where rd: "read_line_or_eof idle Secret (sx_channel (ss_io ss), w) = (r, (c, w1))" by (metis prod_cases3)
  obtain line where line: "r = Done (Some line)"
    using assms st rd by (cases r) (auto simp: read_one_def Let_def split: option.splits)
  have "ss_left st' = left c w1"
    using assms st rd line by (auto simp: read_one_def ss_left_def io_left_def Let_def split: result.splits prod.splits)
  then show ?thesis using read_line_or_eof_uses [OF rd [unfolded line]] st by (simp add: ss_left_def io_left_def)
qed

function read_command :: "nat \<Rightarrow> ('s, 'p, bytes option) drives" where
  "read_command idle st =
     (case read_one idle st of
        (Done None, st') \<Rightarrow> (Done None, st')
      | (Done (Some (k, line)), st') \<Rightarrow>
          if k \<in> {ReqEmpty, ReqComment} then read_command idle st' else (Done (Some line), st')
      | (Fail e, st') \<Rightarrow> (Fail e, st')
      | (Abort, st') \<Rightarrow> (Abort, st')
      | (Cancelled, st') \<Rightarrow> (Cancelled, st'))"
  by pat_completeness auto

termination
  by (relation "measure (\<lambda>(idle, st). ss_left st)") (auto dest: read_one_uses [OF sym])

declare read_command.simps [simp del]

lemma read_command_uses: "read_command idle st = (Done (Some line), st') \<Longrightarrow> ss_left st' < ss_left st"
proof (induction idle st rule: read_command.induct)
  case (1 idle st)
  obtain r st1 where ro: "read_one idle st = (r, st1)" by (meson surj_pair)
  then obtain k l where r: "r = Done (Some (k, l))"
    using "1.prems" by (cases r) (auto simp: read_command.simps [of idle st] split: option.splits)
  note less = read_one_uses [OF ro [unfolded r]]
  show ?case
  proof (cases "k \<in> {ReqEmpty, ReqComment}")
    case True
    then have "read_command idle st1 = (Done (Some line), st')" using "1.prems" ro r by (simp add: read_command.simps [of idle st])
    then have "ss_left st' < ss_left st1" using "1.IH" [OF ro [symmetric] r refl refl True] by simp
    then show ?thesis using less by simp
  next
    case False
    then show ?thesis using "1.prems" ro r less by (simp add: read_command.simps [of idle st])
  qed
qed

section \<open>Dispatch\<close>

definition dispatch :: "Command \<Rightarrow> nat \<Rightarrow> ('s, 'p, HandlerError option) drives" where
  "dispatch command deadline st =
     (case st of (ss, w) \<Rightarrow>
      let name = cmd_name command in
      if name \<in> {lit ''NOP'', lit ''BYE''} then (Done None, (ss, w))
      else if name = lit ''HELP'' then
        (case help_listing (ss_registry ss) deadline (ss_io ss, w) of
           (Done _, (x, w)) \<Rightarrow> (Done None, (ss\<lparr>ss_io := x\<rparr>, w))
         | (Fail e, (x, w)) \<Rightarrow> (Done (Some e), (ss\<lparr>ss_io := x\<rparr>, w))
         | (Abort, (x, w)) \<Rightarrow> (Abort, (ss\<lparr>ss_io := x\<rparr>, w))
         | (Cancelled, (x, w)) \<Rightarrow> (Cancelled, (ss\<lparr>ss_io := x\<rparr>, w)))
      else if name = lit ''OPTION'' then
        (case OptionRequest_parse (cmd_args command) of
           Ok request \<Rightarrow> invoke (hk_option (ss_hooks ss) request (ss_view ss)) deadline (ss, w)
         | Err _ \<Rightarrow> (Done (Some (HeRemote INVALID_VALUE (lit ''invalid option''))), (ss, w))
         | Panic \<Rightarrow> (Abort, (ss, w)))
      else if name = lit ''RESET'' then invoke (hk_reset (ss_hooks ss) (ss_view ss)) deadline (ss, w)
      else
        (case rg_get (ss_registry ss) name of
           Some h \<Rightarrow> invoke (hd_call h command (ss_view ss)) deadline (ss, w)
         | None \<Rightarrow> (Done (Some (HeRemote UNKNOWN_COMMAND (lit ''unknown command''))), (ss, w))))"

text \<open>No operation gives input back, so the command loop ends with the input.\<close>

lemma put_line_left: "put_line f bs d s (x, w) = (r, st) \<Longrightarrow> io_left st \<le> io_left (x, w)"
  by (auto simp: put_line_def io_left_def left_def split: prod.splits dest!: write_line_left)

lemma respond_line_left: "respond_line e1 e2 e3 l d s (x, w) = (r, st) \<Longrightarrow> io_left st \<le> io_left (x, w)"
  by (auto simp: respond_line_def io_left_def left_def split: prod.splits result.splits dest!: put_line_left)

lemma io_drop_left: "io_left (io_drop x, w) \<le> io_left (x', w)"
  by (simp add: io_left_def left_def io_drop_def ch_close_def ch_clear_def)

lemma io_operation_left:
  assumes "\<And>r st. body (x, w) = (r, st) \<Longrightarrow> io_left st \<le> io_left (x, w)" and "io_operation body (x, w) = (r, st)"
  shows "io_left st \<le> io_left (x, w)"
proof -
  obtain r1 x1 w1 where b: "body (x, w) = (r1, (x1, w1))" by (metis prod_cases3)
  have "st = (if is_done r1 then x1 else io_drop x1, w1)" using io_operation_eq [of body, OF b] assms(2) by simp
  then show ?thesis using assms(1) [OF b] io_drop_left [of x1 w1 x1] by (auto split: if_splits)
qed

lemma data_loop_left: "data_loop bs d st = (r, st') \<Longrightarrow> io_left st' \<le> io_left st"
proof (induction bs d st rule: data_loop.induct)
  case (1 bs d st)
  let ?line = "take (Suc (length (data_body bs))) (data_body bs @ LF # drop (Suc (length (data_body bs))) (replicate MAX_LINE_BYTES 0))"
  obtain q x1 w1 where wr: "put_line HeTransport ?line d Secret st = (q, (x1, w1))" by (metis prod_cases3)
  have le: "io_left (x1, w1) \<le> io_left st" using put_line_left [of HeTransport ?line d Secret "fst st" "snd st"] wr by simp
  have IH: "q = Done () \<Longrightarrow> drop (chunk_len 2 bs) bs \<noteq> [] \<Longrightarrow>
      data_loop (drop (chunk_len 2 bs) bs) d (x1, w1) = (r, st') \<Longrightarrow> io_left st' \<le> io_left (x1, w1)"
    using "1.IH" wr by (simp add: chunk_into_scratch)
  show ?case
    using "1.prems" wr le IH
    by (cases q) (force simp: data_loop.simps [of bs] chunk_into_scratch split: if_splits)+
qed

lemma send_data_left: "send_data d bs (x, w) = (r, st) \<Longrightarrow> io_left st \<le> io_left (x, w)"
  unfolding send_data_def
  by (erule io_operation_left [rotated])
     (auto simp: io_left_def left_def split: prod.splits result.splits dest!: data_loop_left)

lemma send_status_left: "send_status d kw args (x, w) = (r, st) \<Longrightarrow> io_left st \<le> io_left (x, w)"
  unfolding send_status_def by (erule io_operation_left [rotated]) (rule respond_line_left)

lemma inquire_left: "inquire opts d kw args s (x, w) = (r, st) \<Longrightarrow> io_left st \<le> io_left (x, w)"
proof -
  assume a: "inquire opts d kw args s (x, w) = (r, st)"
  obtain t w0 where t: "now w = (t, w0)" by force
  have l0: "io_left (x, w0) = io_left (x, w)" using quiet_now [OF t] by (simp add: io_left_def left_def quiet_def)
  define dl where "dl = min (if t + so_inquiry_timeout opts \<le> w_instant_max w0 then t + so_inquiry_timeout opts else d) d"
  obtain r1 st1 where g: "io_operation (respond_line HeProtocol HeState HeTransport (LineInquire kw args) dl s) (x, w0) = (r1, st1)" by (meson surj_pair)
  have "st = st1" using a g by (cases r1) (auto simp: inquire_def t dl_def Let_def si_begin_def bindM_def returnM_def)
  moreover have "io_left st1 \<le> io_left (x, w0)" using g by (rule io_operation_left [rotated]) (rule respond_line_left)
  ultimately show ?thesis using l0 by simp
qed

definition script_left :: "world \<Rightarrow> nat" where
  "script_left w = sum_list (map chunk_bytes (w_reads w))"

lemma receive_loop_script: "receive_loop (c, w) = (r, (c', w')) \<Longrightarrow> script_left w' \<le> script_left w"
proof (induction "length (w_reads w)" arbitrary: c w rule: less_induct)
  case less
  let ?first = "if ch_pending c \<noteq> 0 then feed_ahead c else (Done False, c)"
  obtain q d where first: "?first = (q, d)" by force
  show ?case
  proof (cases "q = Done False \<and> (\<exists>bs es. w_reads w = Chunk bs # es \<and> bs \<noteq> [])")
    case True
    then obtain bs es where reads: "w_reads w = Chunk bs # es" "bs \<noteq> []" by blast
    let ?w = "w\<lparr>w_reads := es\<rparr>"
    show ?thesis
    proof (cases "copy_at (ch_ahead d) 0 bs")
      case None
      then show ?thesis using less.prems first True reads
        by (subst (asm) receive_loop.simps) (auto simp: script_left_def chunk_bytes_def)
    next
      case (Some ahead)
      have "receive_loop (d\<lparr>ch_ahead := ahead, ch_pending := length bs\<rparr>, ?w) = (r, (c', w'))"
        using less.prems first True reads Some by (subst (asm) receive_loop.simps) simp
      from less.hyps [OF _ this] reads show ?thesis by (simp add: script_left_def chunk_bytes_def)
    qed
  next
    case False
    then show ?thesis
      using less.prems first
      by (subst (asm) receive_loop.simps)
         (auto simp: script_left_def Let_def split: async.splits bool.splits list.splits read_event.splits option.splits if_splits)
  qed
qed

lemma read_line_script: "read_line d s (c, w) = (r, (c', w')) \<Longrightarrow> script_left w' \<le> script_left w"
proof -
  assume a: "read_line d s (c, w) = (r, (c', w'))"
  obtain q c1 w1 where rd: "read_line_or_eof d s (c, w) = (q, (c1, w1))" by (metis prod_cases3)
  have "w' = w1" using a rd by (cases q) (auto simp: read_line_def bindM_def failM_def returnM_def split: option.splits)
  moreover have "script_left w1 \<le> script_left w"
  proof -
    obtain t w0 where t: "now w = (t, w0)" by force
    let ?c = "c\<lparr>ch_line := lb_clear (ch_line c)\<rparr>"
    obtain p c2 w2 where rl: "receive_loop (?c, w0) = (p, (c2, w2))" by (metis prod_cases3)
    have "script_left w2 \<le> script_left w0" by (rule receive_loop_script [OF rl])
    moreover have "script_left w0 = script_left w" using quiet_now [OF t] by (simp add: script_left_def quiet_def)
    moreover have "w1 = w0 \<or> w1 = w2"
      using rd t rl by (cases p) (auto simp: read_line_or_eof_def operation_def receive_def Let_def split: if_splits)
    ultimately show ?thesis by auto
  qed
  ultimately show ?thesis by simp
qed

lemma si_take_script: "si_take q (x, w) = (r, (x', w')) \<Longrightarrow> script_left w' \<le> script_left w"
proof -
  assume a: "si_take q (x, w) = (r, (x', w'))"
  obtain p c w1 where rd: "read_line (si_deadline q) (si_sensitivity q) (sx_channel x, w) = (p, (c, w1))" by (metis prod_cases3)
  have "w' = w1"
    using a rd by (auto simp: si_take_def Let_def split: async.splits result.splits prod.splits option.splits if_splits)
  then show ?thesis using read_line_script [OF rd] by simp
qed

lemma si_loop_left:
  "si_loop q st = (r, (x', w')) \<Longrightarrow> script_left w' \<le> script_left (snd st) \<and> (is_done r \<longrightarrow> io_left (x', w') \<le> io_left st)"
proof (induction q st rule: si_loop.induct)
  case (1 q st)
  obtain x w where st: "st = (x, w)" by force
  obtain p x1 w1 where t: "si_take q st = (p, (x1, w1))" by (metis prod_cases3)
  have sc: "script_left w1 \<le> script_left w" using si_take_script t st by blast
  show ?case
  proof (cases "p = Done None")
    case True
    then have "si_loop q (x1, w1) = (r, (x', w'))" using "1.prems" t by (simp add: si_loop.simps [of q st])
    then have "script_left w' \<le> script_left w1 \<and> (is_done r \<longrightarrow> io_left (x', w') \<le> io_left (x1, w1))"
      using "1.IH" [OF t [symmetric] True refl] by simp
    then show ?thesis using sc st si_take_uses [OF t [unfolded True]] by auto
  next
    case False
    have "x' = x1 \<and> w' = w1 \<and> (is_done r \<longrightarrow> is_done p)"
      using "1.prems" t False by (cases p) (auto simp: si_loop.simps [of q st] split: option.splits)
    then show ?thesis using sc st t si_take_uses [of q st] by (cases p) (fastforce)+
  qed
qed

lemma script_le_left: "script_left w \<le> io_left (x, w)"
  by (simp add: script_left_def io_left_def left_def)

lemma io_drop_script: "io_left (io_drop x, w) = script_left w"
  by (simp add: io_left_def left_def io_drop_def ch_close_def ch_clear_def script_left_def)

lemma si_next_left: "si_next q (x, w) = (r, (x', w')) \<Longrightarrow> io_left (x', w') \<le> io_left (x, w)"
proof -
  assume a: "si_next q (x, w) = (r, (x', w'))"
  obtain p x1 w1 where l: "si_loop q (x, w) = (p, (x1, w1))" by (metis prod_cases3)
  note le = si_loop_left [OF l]
  show ?thesis
  proof (cases "si_outcome q")
    case None
    then have "x' = (if is_done p then x1 else io_drop x1)" "w' = w1"
      using a io_operation_eq [of "si_loop q", OF l] by (auto simp: si_next_def)
    then show ?thesis using le script_le_left [of w x] io_drop_script [of x1 w1] by auto
  next
    case (Some v)
    then show ?thesis using a by (simp add: si_next_def returnM_def)
  qed
qed

lemma bindM_left:
  assumes "bindM m f st = (r, st')" and "\<And>r st1. m st = (r, st1) \<Longrightarrow> io_left st1 \<le> io_left st"
    and "\<And>v st1 r st2. f v st1 = (r, st2) \<Longrightarrow> io_left st2 \<le> io_left st1"
  shows "io_left st' \<le> io_left st"
proof -
  obtain p st1 where m: "m st = (p, st1)" by (meson surj_pair)
  note le = assms(2) [OF m]
  show ?thesis
  proof (cases p)
    case (Done v)
    then have "f v st1 = (r, st')" using assms(1) m by (simp add: bindM_def)
    from assms(3) [OF this] le show ?thesis by simp
  qed (use assms(1) m le in \<open>auto simp: bindM_def\<close>)
qed

lemma comment_left: "comment d bs st = (r, st') \<Longrightarrow> io_left st' \<le> io_left st"
proof -
  assume a: "comment d bs st = (r, st')"
  obtain x w where st: "st = (x, w)" by force
  show ?thesis
    unfolding st
    by (rule io_operation_left [OF _ a [unfolded comment_def st]])
       (auto split: option.splits dest: respond_line_left)
qed

lemma entry_loop_left: "entry_loop d cs buf st = (r, st') \<Longrightarrow> io_left st' \<le> io_left st"
proof (induction cs arbitrary: buf st r st')
  case Nil
  then show ?case by (auto simp: returnM_def split: if_splits dest: comment_left)
next
  case (Cons c cs)
  show ?case
  proof (cases "length buf + length c > MAX_LINE_BYTES - 3")
    case True
    then have "bindM (comment d buf) (\<lambda>_. entry_loop d cs c) st = (r, st')" using Cons.prems by simp
    then show ?thesis by (rule bindM_left) (auto dest: comment_left Cons.IH)
  next
    case False
    then show ?thesis using Cons by simp
  qed
qed

lemma help_loop_left: "help_loop d es st = (r, st') \<Longrightarrow> io_left st' \<le> io_left st"
proof (induction es arbitrary: st r st')
  case Nil
  then show ?case by (simp add: returnM_def)
next
  case (Cons e es)
  then have "bindM (entry d (fst e) (snd e)) (\<lambda>_. help_loop d es) st = (r, st')" by simp
  then show ?case
    by (rule bindM_left) (auto simp: entry_def split: result.splits dest: entry_loop_left Cons.IH)
qed

lemma help_left: "help_listing reg d st = (r, st') \<Longrightarrow> io_left st' \<le> io_left st"
  unfolding help_listing_def by (erule bindM_left) (auto dest: help_loop_left)

lemma si_drop_left: "io_left (si_drop q x, w) \<le> io_left (x, w)"
  by (simp add: si_drop_def io_drop_left)

lemma si_finish_left: "si_finish q x = (r, x') \<Longrightarrow> io_left (x', w) \<le> io_left (x, w)"
  by (auto simp: si_finish_def si_drop_def io_drop_def ch_close_def ch_clear_def io_left_def left_def
        split: option.splits prod.splits result.splits)

lemma run_prog_left:
  fixes p :: "'s prog" and ip :: "'s iprog"
  shows "run_prog p opts d (s, st) = (r, (s', st')) \<Longrightarrow> io_left st' \<le> io_left st"
    and "run_iprog ip opts d q (s, st) = (r, (s', st')) \<Longrightarrow> io_left st' \<le> io_left st"
proof (induction p and ip arbitrary: s st and q s st)
  case (PStatus kw args f)
  obtain y st1 where o': "send_status d kw args st = (y, st1)" by (meson surj_pair)
  have le: "io_left st1 \<le> io_left st" using send_status_left [of d kw args "fst st" "snd st"] o' by simp
  show ?case
  proof (cases "y = Abort")
    case True
    then show ?thesis using PStatus.prems o' le by simp
  next
    case False
    then have "run_prog (f (outcome_of y)) opts d (s, st1) = (r, (s', st'))" using PStatus.prems o' by (cases y) auto
    then have "io_left st' \<le> io_left st1" using PStatus.IH by blast
    then show ?thesis using le by simp
  qed
next
  case (PData bs f)
  obtain y st1 where o': "send_data d bs st = (y, st1)" by (meson surj_pair)
  have le: "io_left st1 \<le> io_left st" using send_data_left [of d bs "fst st" "snd st"] o' by simp
  show ?case
  proof (cases "y = Abort")
    case True
    then show ?thesis using PData.prems o' le by simp
  next
    case False
    then have "run_prog (f (outcome_of y)) opts d (s, st1) = (r, (s', st'))" using PData.prems o' by (cases y) auto
    then have "io_left st' \<le> io_left st1" using PData.IH by blast
    then show ?thesis using le by simp
  qed
next
  case (PInquire kw args sens f g)
  obtain y st1 where o': "inquire opts d kw args sens st = (y, st1)" by (meson surj_pair)
  have le: "io_left st1 \<le> io_left st" using inquire_left [of opts d kw args sens "fst st" "snd st"] o' by simp
  have "io_left st' \<le> io_left st1"
    using PInquire.prems o' PInquire.IH(1) [OF rangeI] PInquire.IH(2) by (cases y; simp; blast)
  then show ?case using le by simp
next
  case (INext f)
  obtain y x1 w1 where o': "si_next q st = (y, (x1, w1))" by (metis prod_cases3)
  have le: "io_left (x1, w1) \<le> io_left st" using si_next_left [of q "fst st" "snd st"] o' by simp
  have "io_left st' \<le> io_left (x1, w1)"
    using INext.prems o' INext.IH [OF rangeI] si_drop_left [of q x1 w1]
    by (cases y; clarsimp split: prod.splits; blast)
  then show ?case using le by simp
next
  case (IFinish f)
  obtain x w where st: "st = (x, w)" by force
  obtain y x1 where o': "si_finish q x = (y, x1)" by force
  have le: "io_left (x1, w) \<le> io_left (x, w)" by (rule si_finish_left [OF o'])
  have "io_left st' \<le> io_left (x1, w)" using IFinish.prems o' st IFinish.IH [OF rangeI] by (cases y; simp; blast)
  then show ?case using le st by simp
next
  case (IDrop p)
  obtain x w where st: "st = (x, w)" by force
  have "io_left st' \<le> io_left (si_drop q x, w)" using IDrop.prems IDrop.IH st by auto
  then show ?case using si_drop_left [of q x w] st by simp
next
  case (PState h f)
  have "run_prog (f (h s)) opts d (h s, st) = (r, (s', st'))" using PState.prems by simp
  then show ?case by (rule PState.IH [OF rangeI])
qed (auto simp: si_drop_left)

lemma invoke_left: "invoke p d st = (r, st') \<Longrightarrow> ss_left st' \<le> ss_left st"
  by (auto simp: invoke_def ss_left_def split: prod.splits dest!: run_prog_left(1))

lemma dispatch_left: "dispatch c d st = (r, st') \<Longrightarrow> ss_left st' \<le> ss_left st"
proof -
  have h: "help_listing reg d (ss_io ss, w) = (q, (x, w')) \<Longrightarrow> ss_left (ss\<lparr>ss_io := x\<rparr>, w') \<le> ss_left (ss, w)"
    for reg :: "'c Registry" and ss :: "('a, 'b) Session" and w q x w'
    using help_left [of reg d "(ss_io ss, w)" q "(x, w')"] by (simp add: ss_left_def)
  show "dispatch c d st = (r, st') \<Longrightarrow> ss_left st' \<le> ss_left st"
    by (auto simp: dispatch_def Let_def split: prod.splits if_splits async.splits result.splits option.splits
          dest!: invoke_left dest: h)
qed

lemma finalize_left: "finalize e d g st = (r, st') \<Longrightarrow> ss_left st' \<le> ss_left st"
  by (auto simp: finalize_def ss_left_def split: prod.splits if_splits async.splits result.splits option.splits HandlerError.splits
        dest!: respond_line_left)

lemma so_deadline_reads: "so_deadline t w = (r, w') \<Longrightarrow> w_reads w' = w_reads w"
  using now_keeps [of w] by (cases "now w") (auto simp: so_deadline_def split: if_splits)

lemma ss_left_world: "w_reads w' = w_reads w \<Longrightarrow> ss_left (ss, w') = ss_left (ss, w)"
  by (simp add: ss_left_def io_left_def left_def)

section \<open>The command loop\<close>

text \<open>
  One turn of the loop: \<open>False\<close> when the session is over, after the end of the stream or
  after \<open>BYE\<close>.
\<close>

definition command_turn :: "('s, 'p, bool) drives" where
  "command_turn st =
     (case st of (ss, w) \<Rightarrow>
      case so_deadline (so_idle_timeout (ss_options ss)) w of
        (Err e, w) \<Rightarrow> (Fail e, (ss, w))
      | (Panic, w) \<Rightarrow> (Abort, (ss, w))
      | (Ok idle, w) \<Rightarrow>
          bindM (read_command idle) (\<lambda>call (ss, w).
            (case call of
               None \<Rightarrow> (Done False, (ss, w))
             | Some line \<Rightarrow>
                 (case Command_parse line of
                    Err e \<Rightarrow> (Fail (SvProtocol e), (ss, w))
                  | Panic \<Rightarrow> (Abort, (ss, w))
                  | Ok command \<Rightarrow>
                      (case so_deadline (so_command_timeout (ss_options ss)) w of
                         (Err e, w) \<Rightarrow> (Fail e, (ss, w))
                       | (Panic, w) \<Rightarrow> (Abort, (ss, w))
                       | (Ok d, w) \<Rightarrow>
                           bindM (dispatch command d) (\<lambda>result.
                           bindM (finalize result d False) (\<lambda>_.
                           returnM (cmd_name command \<noteq> lit ''BYE''))) (ss, w))))) (ss, w))"

lemma command_turn_uses:
  assumes "command_turn st = (Done True, st')"
  shows "ss_left st' < ss_left st"
proof -
  obtain ss w where st: "st = (ss, w)" by force
  obtain idle w1 where d1: "so_deadline (so_idle_timeout (ss_options ss)) w = (Ok idle, w1)"
    using assms st by (auto simp: command_turn_def split: prod.splits result.splits)
  obtain ss2 w2 line where rc: "read_command idle (ss, w1) = (Done (Some line), (ss2, w2))"
    using assms st d1 by (auto simp: command_turn_def bindM_Done split: option.splits)
  obtain command where c: "Command_parse line = Ok command"
    using assms st d1 rc by (auto simp: command_turn_def bindM_def split: result.splits)
  obtain d w3 where d2: "so_deadline (so_command_timeout (ss_options ss2)) w2 = (Ok d, w3)"
    using assms st d1 rc c by (auto simp: command_turn_def bindM_def split: prod.splits result.splits)
  obtain e st4 where di: "dispatch command d (ss2, w3) = (Done e, st4)" and fi: "finalize e d False st4 = (Done (), st')"
    using assms st d1 rc c d2 by (auto simp: command_turn_def bindM_def returnM_def split: prod.splits async.splits)
  have "ss_left st' \<le> ss_left (ss2, w3)" using dispatch_left [OF di] finalize_left [OF fi] by simp
  also have "\<dots> = ss_left (ss2, w2)" by (rule ss_left_world [OF so_deadline_reads [OF d2]])
  also have "\<dots> < ss_left (ss, w1)" by (rule read_command_uses [OF rc])
  also have "\<dots> = ss_left st" unfolding st by (rule ss_left_world [OF so_deadline_reads [OF d1]])
  finally show ?thesis .
qed

function command_loop :: "('s, 'p, unit) drives" where
  "command_loop st =
     (case command_turn st of
        (Done True, st') \<Rightarrow> command_loop st'
      | (Done False, st') \<Rightarrow> (Done (), st')
      | (Fail e, st') \<Rightarrow> (Fail e, st')
      | (Abort, st') \<Rightarrow> (Abort, st')
      | (Cancelled, st') \<Rightarrow> (Cancelled, st'))"
  by pat_completeness auto

termination
  by (relation "measure ss_left") (auto dest: command_turn_uses [OF sym])

declare command_loop.simps [simp del]

definition drive :: "('s, 'p, unit) drives" where
  "drive st =
     (case st of (ss, w) \<Rightarrow>
      case so_deadline (so_greeting_timeout (ss_options ss)) w of
        (Err e, w) \<Rightarrow> (Fail e, (ss, w))
      | (Panic, w) \<Rightarrow> (Abort, (ss, w))
      | (Ok d, w) \<Rightarrow>
          bindM (invoke (hk_authenticate (ss_hooks ss) (ss_view ss)) d) (\<lambda>auth.
          bindM (finalize auth d True) (\<lambda>_ (ss, w).
          command_loop (ss\<lparr>ss_authenticated := True\<rparr>, w))) (ss, w))"

text \<open>
  \<open>run\<close>: validated options, the session, the closed channel and machine, and the close hook
  with the reason, whose failure only counts after an otherwise clean session. A panic or a
  dropped future skips the orderly end; the channel goes with the session.
\<close>

definition Session_run :: "nat \<Rightarrow> ('s, 'p, unit) drives" where
  "Session_run max_permits st =
     (case st of (ss, w) \<Rightarrow>
      case so_validate max_permits (ss_options ss) w of
        (Err e, w) \<Rightarrow> (Fail e, (ss, w))
      | (Panic, w) \<Rightarrow> (Abort, (ss, w))
      | (Ok _, w) \<Rightarrow>
          (case drive (ss, w) of
             (Abort, st) \<Rightarrow> (Abort, st)
           | (Cancelled, st) \<Rightarrow> (Cancelled, st)
           | (result, (ss, w)) \<Rightarrow>
               let x = ss_io ss;
                   ss = ss\<lparr>ss_io := x\<lparr>sx_channel := ch_close (sx_channel x), sx_machine := sm_close (sx_machine x)\<rparr>\<rparr>;
                   reason = (case result of Fail e \<Rightarrow> end_reason e | _ \<Rightarrow> EndClean)
               in (case so_deadline (so_shutdown_timeout (ss_options ss)) w of
                     (Err e, w) \<Rightarrow> (Fail e, (ss, w))
                   | (Panic, w) \<Rightarrow> (Abort, (ss, w))
                   | (Ok _, w) \<Rightarrow>
                       (case hk_closed (ss_hooks ss) reason (ss_state ss) of
                          (Abort, s) \<Rightarrow> (Abort, (ss\<lparr>ss_state := s\<rparr>, w))
                        | (Cancelled, s) \<Rightarrow> (Cancelled, (ss\<lparr>ss_state := s\<rparr>, w))
                        | (closed, s) \<Rightarrow>
                            let ss = ss\<lparr>ss_state := s\<rparr>;
                                error = (case closed of Done None \<Rightarrow> None | Done (Some e) \<Rightarrow> Some (SvHandler e)
                                         | _ \<Rightarrow> Some (SvTransport TTimeout))
                            in ((case (result, error) of (Done _, Some e) \<Rightarrow> Fail e | _ \<Rightarrow> result), (ss, w))))))"

definition session_debug :: "('s, 'p) Session \<Rightarrow> dbg" where
  "session_debug ss = DStruct ''Session''
     [(''phase'', DText (case sm_state (sx_machine (ss_io ss)) of
          SGreeting \<Rightarrow> ''Greeting'' | SReady \<Rightarrow> ''Ready'' | SHandler \<Rightarrow> ''Handler'' | SInquiry \<Rightarrow> ''Inquiry''
        | SAwaitFinal \<Rightarrow> ''AwaitFinal'' | SInvalid \<Rightarrow> ''Invalid'' | SClosed \<Rightarrow> ''Closed'')),
      (''authenticated'', DBool (ss_authenticated ss))] True"

end
