(* ===== verification/Server_Dialogue.thy ===== *)
theory Server_Dialogue
  imports Server_Session
begin

text \<open>
  What a client sees of a session (\<open>assuan-server/src/session.rs\<close>), for every
  environment and every handler and hook: \<open>talk\<close> is what a program can do to the wire while
  it runs (no final response, no command read), \<open>dialogue\<close> the abstract protocol, in which
  every command is answered by exactly one final response after its intermediate lines, and
  the lemmas show that the command loop follows it.
\<close>

section \<open>What programs do to the connection\<close>

definition nonfinal :: "ServerLine \<Rightarrow> bool" where
  "nonfinal l \<longleftrightarrow> kind l \<notin> {KOk, KErr}"

text \<open>A line that may stand before the final response: it fits the wire and parses back.\<close>

definition intermediate :: "ServerLine \<Rightarrow> bool" where
  "intermediate l \<longleftrightarrow> nonfinal l \<and> encodable l"

lemma list_intermediate: "list_all intermediate ls \<longleftrightarrow> list_all nonfinal ls \<and> list_all encodable ls"
  by (auto simp: intermediate_def list_all_iff)

text \<open>Requests other than commands, taken off a byte stream.\<close>

inductive takes_answers :: "bytes \<Rightarrow> bytes \<Rightarrow> bool" where
  none [intro!]: "takes_answers bs bs"
| one: "takes_request bs k raw mid \<Longrightarrow> k \<noteq> ReqCommand \<Longrightarrow> takes_answers mid rest \<Longrightarrow> takes_answers bs rest"

lemma takes_answers_trans: "takes_answers a b \<Longrightarrow> takes_answers b c \<Longrightarrow> takes_answers a c"
  by (induction rule: takes_answers.induct) (auto intro: takes_answers.one)

lemma takes_answer_answers: "takes_answer a k raw b \<Longrightarrow> k \<noteq> ReqCommand \<Longrightarrow> takes_answers a b"
  by (induction rule: takes_answer.induct) (auto intro: takes_answers.one)

abbreviation wires :: "ServerLine list \<Rightarrow> bytes" where
  "wires ls \<equiv> concat (map wire ls)"

definition io_stream :: "ServerIo \<times> world \<Rightarrow> bytes" where
  "io_stream st = stream (sx_channel (fst st)) (snd st)"

definition talk :: "ServerIo \<times> world \<Rightarrow> ServerLine list \<Rightarrow> ServerIo \<times> world \<Rightarrow> bool" where
  "talk st ls st' \<longleftrightarrow> (case (st, st') of ((x, w), (x', w')) \<Rightarrow>
     io_inv st' \<and> list_all intermediate ls \<and> (sv_dead x \<longrightarrow> w_sent w' = w_sent w)
     \<and> (if sv_dead x' then \<exists>n. w_sent w' = w_sent w @ take n (wires ls)
        else \<not> sv_dead x \<and> w_sent w' = w_sent w @ wires ls
             \<and> takes_answers (io_stream st) (io_stream st')))"

lemma talk_refl: "io_inv st \<Longrightarrow> talk st [] st"
  by (auto simp: talk_def split: prod.splits)

lemma talk_inv: "talk st ls st' \<Longrightarrow> io_inv st'"
  by (auto simp: talk_def split: prod.splits)

lemma talk_trans:
  assumes "talk st ls st1" and "talk st1 ls' st2"
  shows "\<exists>ls. talk st ls st2"
proof -
  obtain x w x1 w1 x2 w2 where st: "st = (x, w)" "st1 = (x1, w1)" "st2 = (x2, w2)" by (cases st; cases st1; cases st2)
  show ?thesis
  proof (cases "sv_dead x1")
    case True
    then have "w_sent w2 = w_sent w1" "sv_dead x2" using assms(2) by (auto simp: talk_def st split: if_splits)
    then have "talk st ls st2" using assms True by (auto simp: talk_def st)
    then show ?thesis ..
  next
    case False
    then have w1: "w_sent w1 = w_sent w @ wires ls" using assms(1) by (simp add: talk_def st)
    have "\<exists>k. w_sent w2 = w_sent w @ take k (wires (ls @ ls'))" if "w_sent w2 = w_sent w1 @ take n (wires ls')" for n
      using that w1 by (intro exI [of _ "length (wires ls) + n"]) simp
    then have "talk st (ls @ ls') st2"
      using assms False w1 by (auto simp: talk_def st intro: takes_answers_trans)
    then show ?thesis ..
  qed
qed

lemma emits_talk_all: "emits ls st r st' \<Longrightarrow> list_all intermediate ls \<Longrightarrow> talk st ls st'"
  by (auto simp: emits_def talk_def io_inv_def io_stream_def stream_def quiet_def dest: beginning_cut split: prod.splits if_splits)

lemma emits_talk:
  assumes "emits ls st r st'" and "list_all nonfinal ls"
  shows "\<exists>ls. talk st ls st'"
proof (cases "is_done r")
  case True
  then have "list_all intermediate ls" using assms by (auto simp: emits_def list_intermediate split: prod.splits)
  then show ?thesis using emits_talk_all [OF assms(1)] by blast
next
  case False
  obtain x w x' w' where st: "st = (x, w)" "st' = (x', w')" by (cases st; cases st')
  from False assms(1) obtain bs where bs: "beginning ls bs" "w_sent w' = w_sent w @ bs" by (auto simp: emits_def st)
  then obtain ms more n where ms: "ls = ms @ more" "list_all encodable ms" "bs = take n (wires ms)" by (auto simp: beginning_def)
  then have "talk st ms st'"
    using False assms bs(2) by (auto simp: emits_def talk_def st io_inv_def quiet_def list_intermediate)
  then show ?thesis ..
qed

lemma data_lines_nonfinal: "list_all nonfinal (data_lines bs)"
  by (auto simp: data_lines_def list_all_iff nonfinal_def kind_def)

lemma dead_talk:
  assumes "io_inv (x', w)" and "sv_dead x'"
  shows "talk (x, w) [] (x', w)"
  using assms by (simp add: talk_def)

lemma si_drop_talk: "io_inv (x, w) \<Longrightarrow> \<not> si_finished q \<Longrightarrow> talk (x, w) [] (si_drop q x, w)"
  using si_drop_inv [of x q] io_drop_inv [of x]
  by (intro dead_talk) (auto simp: io_inv_def si_drop_def sv_inv_def ch_inv_shape)

lemma si_next_talk:
  assumes "io_inv (x, w)" and "sv_dead x \<or> sm_state (sx_machine x) = SInquiry"
    and "si_next q (x, w) = (r, (x', w'))"
  shows "talk (x, w) [] (x', w')" and "sv_dead x' \<or> sm_state (sx_machine x') = SInquiry"
    and "\<And>v q'. r = Done (v, q') \<Longrightarrow> si_finished q' = si_finished q" and "r \<noteq> Abort"
proof -
  have inv: "sv_inv x" "reads_ok w" using assms(1) by (auto simp: io_inv_def)
  have "talk (x, w) [] (x', w') \<and> (sv_dead x' \<or> sm_state (sx_machine x') = SInquiry)
    \<and> (\<forall>v q'. r = Done (v, q') \<longrightarrow> si_finished q' = si_finished q) \<and> r \<noteq> Abort"
  proof (cases "si_outcome q")
    case None
    have sp: "sv_inv x'" "reads_ok w'" "w_sent w' = w_sent w" "r \<noteq> Abort" "sv_dead x \<longrightarrow> \<not> is_done r" "sv_dead x' = (\<not> is_done r)"
      "\<forall>v. r = Done v \<longrightarrow> sm_state (sx_machine x) = SInquiry \<longrightarrow> sx_machine x' = sx_machine x
         \<and> (\<exists>k raw. takes_answer (stream (sx_channel x) w) k raw (stream (sx_channel x') w') \<and> answer_gives q k raw v)"
      using si_next_spec [OF inv None] assms(3) by auto
    show ?thesis
    proof (cases r)
      case (Done v)
      obtain k raw where k: "takes_answer (stream (sx_channel x) w) k raw (stream (sx_channel x') w')" "answer_gives q k raw v"
        and m: "sx_machine x' = sx_machine x" "sm_state (sx_machine x) = SInquiry" using sp assms(2) Done by auto
      have "k \<noteq> ReqCommand" using k(2) by (auto simp: answer_gives_def)
      then have "takes_answers (io_stream (x, w)) (io_stream (x', w'))" using takes_answer_answers [OF k(1)] by (simp add: io_stream_def)
      moreover have "si_finished (snd v) = si_finished q" using k(2) by (auto simp: answer_gives_def split: RequestKind.splits option.splits)
      ultimately show ?thesis using sp m Done by (auto simp: talk_def io_inv_def)
    qed (use sp in \<open>auto simp: talk_def io_inv_def\<close>)
  next
    case (Some outcome)
    then have "r = Done (None, q) \<and> x' = x \<and> w' = w" using assms(3) by (auto simp: si_next_def returnM_def)
    then show ?thesis using talk_refl [OF assms(1)] assms(2) by auto
  qed
  then show "talk (x, w) [] (x', w')" and "sv_dead x' \<or> sm_state (sx_machine x') = SInquiry"
    and "\<And>v q'. r = Done (v, q') \<Longrightarrow> si_finished q' = si_finished q" and "r \<noteq> Abort" by blast+
qed

lemma si_finish_talk:
  assumes "io_inv (x, w)" and "\<not> si_finished q" and "si_finish q x = (r, x')"
  shows "talk (x, w) [] (x', w)" and "r \<noteq> Panic"
  using si_finish_spec [of x q r x'] assms
  by (auto simp: talk_def io_inv_def io_stream_def is_ok_def split: result.splits)

text \<open>A program talks, whatever it does.\<close>

lemma run_prog_talk:
  fixes p :: "'s prog" and ip :: "'s iprog"
  shows "run_prog p opts d (s, st) = (r, (s', st')) \<Longrightarrow> io_inv st \<Longrightarrow> \<exists>ls. talk st ls st'"
    and "run_iprog ip opts d q (s, st) = (r, (s', st')) \<Longrightarrow> io_inv st \<Longrightarrow> \<not> si_finished q \<Longrightarrow>
      sv_dead (fst st) \<or> sm_state (sx_machine (fst st)) = SInquiry \<Longrightarrow> \<exists>ls. talk st ls st'"
proof (induction p and ip arbitrary: s st and q s st)
  case (PStatus kw args f)
  obtain x w where st: "st = (x, w)" by force
  obtain y st1 where o': "send_status d kw args st = (y, st1)" "emits [LineStatus kw args] st y st1"
    using status_emits [of x w d kw args] PStatus.prems(2) by (auto simp: st io_inv_def)
  obtain ls where t: "talk st ls st1" using emits_talk [OF o'(2)] by (auto simp: nonfinal_def kind_def)
  have "y \<noteq> Abort" using o'(2) by (auto simp: emits_def split: prod.splits)
  then have "run_prog (f (outcome_of y)) opts d (s, st1) = (r, (s', st'))" using PStatus.prems(1) o'(1) by (cases y) auto
  from PStatus.IH [OF rangeI this talk_inv [OF t]] talk_trans [OF t] show ?case by blast
next
  case (PData bs f)
  obtain x w where st: "st = (x, w)" by force
  obtain y st1 where o': "send_data d bs st = (y, st1)" "emits (data_lines bs) st y st1"
    using send_data_emits [of x w d bs] PData.prems(2) by (auto simp: st io_inv_def)
  obtain ls where t: "talk st ls st1" using emits_talk [OF o'(2) data_lines_nonfinal] by blast
  have "y \<noteq> Abort" using o'(2) by (auto simp: emits_def split: prod.splits)
  then have "run_prog (f (outcome_of y)) opts d (s, st1) = (r, (s', st'))" using PData.prems(1) o'(1) by (cases y) auto
  from PData.IH [OF rangeI this talk_inv [OF t]] talk_trans [OF t] show ?case by blast
next
  case (PInquire kw args sens f g)
  obtain x w where st: "st = (x, w)" by force
  obtain y x1 w1 where o': "inquire opts d kw args sens st = (y, (x1, w1))" "emits [LineInquire kw args] st y (x1, w1)"
    "\<And>q. y = Done q \<Longrightarrow> sm_state (sx_machine x1) = SInquiry \<and> \<not> si_finished q"
    using inquire_emits [of x w opts d kw args sens] PInquire.prems(2) by (auto simp: st io_inv_def)
  obtain ls where t: "talk st ls (x1, w1)" using emits_talk [OF o'(2)] by (auto simp: nonfinal_def kind_def)
  note inv = talk_inv [OF t]
  have "\<exists>ls. talk (x1, w1) ls st'"
  proof (cases y)
    case (Done q)
    then have "run_iprog g opts d q (s, (x1, w1)) = (r, (s', st'))" using PInquire.prems(1) o'(1) by simp
    from PInquire.IH(2) [OF this inv] o'(3) [OF Done] show ?thesis by simp
  next
    case (Fail e)
    then have "run_prog (f (Some e)) opts d (s, (x1, w1)) = (r, (s', st'))" using PInquire.prems(1) o'(1) by simp
    from PInquire.IH(1) [OF rangeI this inv] show ?thesis .
  next
    case Cancelled
    then have "run_prog (f None) opts d (s, (x1, w1)) = (r, (s', st'))" using PInquire.prems(1) o'(1) by simp
    from PInquire.IH(1) [OF rangeI this inv] show ?thesis .
  qed (use o'(2) in \<open>auto simp: emits_def split: prod.splits\<close>)
  then show ?case using talk_trans [OF t] by blast
next
  case (PState h f)
  have "run_prog (f (h s)) opts d (h s, st) = (r, (s', st'))" using PState.prems by simp
  then show ?case by (rule PState.IH [OF rangeI]) (rule PState.prems)
next
  case (INext f)
  obtain x w where st: "st = (x, w)" by force
  obtain y x1 w1 where o': "si_next q (x, w) = (y, (x1, w1))" by (metis prod_cases3)
  have ph: "sv_dead x \<or> sm_state (sx_machine x) = SInquiry" using INext.prems(4) st by simp
  note nx = si_next_talk [OF INext.prems(2) [unfolded st] ph o']
  note inv = talk_inv [OF nx(1)]
  have go: "\<exists>ls. talk (x1, w1) ls st'"
    if "run_iprog (f z) opts d q' (s, (x1, w1)) = (r, (s', st'))" and "si_finished q' = si_finished q" for z q'
    using INext.IH [OF rangeI that(1) inv] that(2) INext.prems(3) nx(2) by simp
  have "\<exists>ls. talk (x1, w1) ls st'"
    using INext.prems(1) o' st nx(3,4) go by (cases y) (auto split: prod.splits)
  then show ?case using talk_trans [OF nx(1)] st by blast
next
  case (IFinish f)
  obtain x w where st: "st = (x, w)" by force
  obtain y x1 where o': "si_finish q x = (y, x1)" by force
  note fi = si_finish_talk [OF IFinish.prems(2) [unfolded st] IFinish.prems(3) o']
  have "run_prog (f y) opts d (s, (x1, w)) = (r, (s', st'))" using IFinish.prems(1) o' st fi(2) by (cases y) auto
  from IFinish.IH [OF rangeI this talk_inv [OF fi(1)]] talk_trans [OF fi(1)] st show ?case by blast
next
  case (IDrop p)
  obtain x w where st: "st = (x, w)" by force
  note t = si_drop_talk [OF IDrop.prems(2) [unfolded st] IDrop.prems(3)]
  have "run_prog p opts d (s, (si_drop q x, w)) = (r, (s', st'))" using IDrop.prems(1) st by simp
  from IDrop.IH [OF this talk_inv [OF t]] talk_trans [OF t] st show ?case by blast
qed (auto intro: talk_refl si_drop_talk)

section \<open>The replies to a command\<close>

definition same_setup :: "('s, 'p) Session \<Rightarrow> ('s, 'p) Session \<Rightarrow> bool" where
  "same_setup ss ss' \<longleftrightarrow> ss_registry ss' = ss_registry ss \<and> ss_hooks ss' = ss_hooks ss \<and> ss_options ss' = ss_options ss
     \<and> ss_peer ss' = ss_peer ss \<and> ss_authenticated ss' = ss_authenticated ss"

definition rg_clean :: "'h Registry \<Rightarrow> bool" where
  "rg_clean reg \<longleftrightarrow> list_all (\<lambda>(n, h). token n \<and> clean (hd_description h)) (rg_entries reg)"

definition help_lines :: "'h Registry \<Rightarrow> ServerLine list" where
  "help_lines reg = concat (map (comment_lines \<circ> entry_texts)
     (COMMANDS @ map (\<lambda>(name, h). (name, hd_description h)) (rg_entries reg)))"

text \<open>
  What the built-in commands answer, as the lines before the final response and the
  result that decides it; the other commands are up to the application.
\<close>

definition replies :: "'h Registry \<Rightarrow> Command \<Rightarrow> ServerLine list \<Rightarrow> HandlerError option \<Rightarrow> bool" where
  "replies reg c ls e \<longleftrightarrow>
     (if cmd_name c \<in> {lit ''NOP'', lit ''BYE''} then ls = [] \<and> e = None
      else if cmd_name c = lit ''HELP'' then ls = help_lines reg \<and> e = None
      else if cmd_name c = lit ''OPTION'' then
        (if is_ok (OptionRequest_parse (cmd_args c)) then True
         else ls = [] \<and> e = Some (HeRemote INVALID_VALUE (lit ''invalid option'')))
      else if cmd_name c = lit ''RESET'' \<or> rg_get reg (cmd_name c) \<noteq> None then True
      else ls = [] \<and> e = Some (HeRemote UNKNOWN_COMMAND (lit ''unknown command'')))"

lemma invoke_talk:
  assumes "invoke p d (ss, w) = (r, (ss', w'))" and "io_inv (ss_io ss, w)"
  shows "\<exists>ls. talk (ss_io ss, w) ls (ss_io ss', w')" and "same_setup ss ss'"
proof -
  obtain q s x w1 where rp: "run_prog p (ss_options ss) d (ss_state ss, (ss_io ss, w)) = (q, (s, (x, w1)))" by (metis prod_cases4)
  have eq: "ss' = ss\<lparr>ss_state := s, ss_io := x\<rparr>" "w' = w1" using assms(1) rp by (auto simp: invoke_def)
  show "\<exists>ls. talk (ss_io ss, w) ls (ss_io ss', w')" using run_prog_talk(1) [OF rp assms(2)] eq by simp
  show "same_setup ss ss'" by (simp add: eq same_setup_def)
qed

lemma COMMANDS_clean: "list_all (\<lambda>(n, ds). token n \<and> clean ds) COMMANDS"
  by (simp add: COMMANDS_def lit_def token_def clean_def forbidden_def is_ascii_graphic_def)

lemma help_lines_intermediate:
  assumes "rg_clean reg"
  shows "list_all intermediate (help_lines reg)"
proof -
  have "list_all (\<lambda>(n, ds). token n \<and> clean ds) (COMMANDS @ map (\<lambda>(name, h). (name, hd_description h)) (rg_entries reg))"
    using COMMANDS_clean assms by (auto simp: rg_clean_def list_all_iff)
  then have "list_all encodable (help_lines reg)" using entry_texts_encodable by (fastforce simp: help_lines_def list_all_iff)
  moreover have "list_all nonfinal (help_lines reg)"
    by (auto simp: help_lines_def comment_lines_def list_all_iff nonfinal_def kind_def)
  ultimately show ?thesis by (simp add: list_intermediate)
qed

lemma help_emits:
  assumes "io_inv (x, w)" and "\<not> sv_dead x" and "rg_clean reg"
  shows "\<exists>r x' w'. help_listing reg d (x, w) = (r, (x', w')) \<and> emits (help_lines reg) (x, w) r (x', w')"
proof -
  let ?own = "map (\<lambda>(name, h). (name, hd_description h)) (rg_entries reg)"
  have inv: "sv_inv x" "reads_ok w" using assms(1) by (auto simp: io_inv_def)
  obtain r x1 w1 where b: "help_loop d COMMANDS (x, w) = (r, (x1, w1))"
    "emits (concat (map (comment_lines \<circ> entry_texts) COMMANDS)) (x, w) r (x1, w1)"
    using help_loop_emits [OF inv assms(2) COMMANDS_clean] by blast
  have own: "list_all (\<lambda>(n, ds). token n \<and> clean ds) ?own" using assms(3) by (auto simp: rg_clean_def list_all_iff)
  have "\<exists>r' x' w'. help_loop d ?own (x1, w1) = (r', (x', w'))
      \<and> emits (concat (map (comment_lines \<circ> entry_texts) ?own)) (x1, w1) r' (x', w')" if "r = Done v" for v
    by (rule help_loop_emits [OF _ _ _ own]) (use emits_keeps [OF b(2)] that in simp_all)
  from bind_emits [where m = "help_loop d COMMANDS" and f = "\<lambda>_. help_loop d ?own", OF b this]
  show ?thesis by (simp add: help_listing_def help_lines_def)
qed

definition final_for :: "HandlerError option \<Rightarrow> ServerLine" where
  "final_for e = (case e of None \<Rightarrow> LineOk [] | Some (HeRemote code message) \<Rightarrow> LineErr code message
     | Some _ \<Rightarrow> LineErr INTERNAL (lit ''internal error''))"

lemma fixed_finals_encodable:
  "encodable (final_for None)" "encodable (final_for (Some (HeRemote INVALID_VALUE (lit ''invalid option''))))"
  "encodable (final_for (Some (HeRemote UNKNOWN_COMMAND (lit ''unknown command''))))"
  by (simp_all add: final_for_def encodable_def line_body_def wire_line_def MAX_LINE_BYTES_def lit_def forbidden_def
        opt_field_def INVALID_VALUE_def UNKNOWN_COMMAND_def dec.simps)

lemma dispatch_talk:
  assumes "dispatch c d (ss, w) = (r, (ss', w'))" and "io_inv (ss_io ss, w)" and "\<not> sv_dead (ss_io ss)"
    and "rg_clean (ss_registry ss)"
  shows "\<exists>ls. talk (ss_io ss, w) ls (ss_io ss', w')
     \<and> (\<forall>e. r = Done e \<longrightarrow> \<not> sv_dead (ss_io ss') \<longrightarrow> replies (ss_registry ss) c ls e)
     \<and> (\<exists>e. replies (ss_registry ss) c ls e \<and> encodable (final_for e))" (is "\<exists>ls. ?P ls")
    and "same_setup ss ss'"
proof -
  let ?name = "cmd_name c"
  have "(\<exists>ls. ?P ls) \<and> same_setup ss ss'"
  proof -
    consider (nop) "?name \<in> {lit ''NOP'', lit ''BYE''}" | (listing) "?name = lit ''HELP''" | (option) "?name = lit ''OPTION''"
      | (reset) "?name = lit ''RESET''"
      | (other) "?name \<notin> {lit ''NOP'', lit ''BYE'', lit ''HELP'', lit ''OPTION'', lit ''RESET''}" by blast
    then show ?thesis
    proof cases
      case nop
      then have "r = Done None \<and> ss' = ss \<and> w' = w" using assms(1) by (auto simp: dispatch_def)
      then show ?thesis using nop talk_refl [OF assms(2)] fixed_finals_encodable(1) by (auto simp: replies_def same_setup_def)
    next
      case listing
      obtain q x1 w1 where h: "help_listing (ss_registry ss) d (ss_io ss, w) = (q, (x1, w1))"
        "emits (help_lines (ss_registry ss)) (ss_io ss, w) q (x1, w1)" using help_emits [OF assms(2-4)] by blast
      have t: "talk (ss_io ss, w) (help_lines (ss_registry ss)) (x1, w1)" by (rule emits_talk_all [OF h(2) help_lines_intermediate [OF assms(4)]])
      have "?name \<notin> {lit ''NOP'', lit ''BYE''}" using listing by (simp add: lit_def)
      then have "ss' = ss\<lparr>ss_io := x1\<rparr> \<and> w' = w1 \<and> (\<forall>e. r = Done e \<longrightarrow> \<not> sv_dead x1 \<longrightarrow> e = None)"
        using assms(1) listing h(1) emits_keeps [OF h(2)] by (cases q) (auto simp: dispatch_def Let_def)
      then show ?thesis using t listing \<open>?name \<notin> _\<close> fixed_finals_encodable(1) by (auto simp: replies_def same_setup_def)
    next
      case option
      have n: "?name \<notin> {lit ''NOP'', lit ''BYE'', lit ''HELP''}" using option by (simp add: lit_def)
      show ?thesis
      proof (cases "OptionRequest_parse (cmd_args c)")
        case (Ok q)
        then have "invoke (hk_option (ss_hooks ss) q (ss_view ss)) d (ss, w) = (r, (ss', w'))"
          using assms(1) option n by (auto simp: dispatch_def Let_def)
        from invoke_talk [OF this assms(2)] show ?thesis using n option Ok fixed_finals_encodable(1) by (auto simp: replies_def is_ok_def)
      next
        case (Err e)
        then have "r = Done (Some (HeRemote INVALID_VALUE (lit ''invalid option''))) \<and> ss' = ss \<and> w' = w"
          using assms(1) option n by (auto simp: dispatch_def Let_def)
        then show ?thesis using talk_refl [OF assms(2)] n option Err fixed_finals_encodable(2) by (auto simp: replies_def same_setup_def is_ok_def)
      next
        case Panic
        then have "r = Abort \<and> ss' = ss \<and> w' = w" using assms(1) option n by (auto simp: dispatch_def Let_def)
        then show ?thesis
          using talk_refl [OF assms(2)] n option Panic fixed_finals_encodable(2) by (auto simp: replies_def is_ok_def same_setup_def)
      qed
    next
      case reset
      have n: "?name \<notin> {lit ''NOP'', lit ''BYE'', lit ''HELP'', lit ''OPTION''}" using reset by (simp add: lit_def)
      then have "invoke (hk_reset (ss_hooks ss) (ss_view ss)) d (ss, w) = (r, (ss', w'))"
        using assms(1) reset by (auto simp: dispatch_def Let_def)
      from invoke_talk [OF this assms(2)] show ?thesis using n reset fixed_finals_encodable(1) by (auto simp: replies_def)
    next
      case other
      show ?thesis
      proof (cases "rg_get (ss_registry ss) ?name")
        case None
        then have "r = Done (Some (HeRemote UNKNOWN_COMMAND (lit ''unknown command''))) \<and> ss' = ss \<and> w' = w"
          using assms(1) other by (auto simp: dispatch_def Let_def)
        then show ?thesis using talk_refl [OF assms(2)] other None fixed_finals_encodable(3) by (auto simp: replies_def same_setup_def)
      next
        case (Some h)
        then have "invoke (hd_call h c (ss_view ss)) d (ss, w) = (r, (ss', w'))"
          using assms(1) other by (auto simp: dispatch_def Let_def)
        from invoke_talk [OF this assms(2)] show ?thesis using other Some fixed_finals_encodable(1) by (auto simp: replies_def)
      qed
    qed
  qed
  then show "\<exists>ls. ?P ls" "same_setup ss ss'" by blast+
qed

section \<open>The final response\<close>

definition answerable :: "HandlerError option \<Rightarrow> bool" where
  "answerable e \<longleftrightarrow> (case e of None \<Rightarrow> True | Some (HeRemote code message) \<Rightarrow> True | Some HeInternal \<Rightarrow> True | Some _ \<Rightarrow> False)"

text \<open>The session between two commands: ready, or dead after a rejected greeting.\<close>

definition between :: "ServerIo \<times> world \<Rightarrow> bool" where
  "between st \<longleftrightarrow> ch_inv (sx_channel (fst st)) \<and> sm_good (sx_machine (fst st)) \<and> reads_ok (snd st)
     \<and> (sm_state (sx_machine (fst st)) = SReady \<or> sm_dead (sx_machine (fst st)))"

lemma final_between:
  "sm_send_response m (kind (final_for e)) = (Ok (), m') \<Longrightarrow> sm_state m' = SReady \<or> sm_dead m'"
  by (auto simp: sm_send_response_def sm_dead_def sm_invalidate_def final_for_def kind_def Let_def
        split: if_splits option.splits HandlerError.splits)

lemma final_line_ok: "final_line e = Ok l \<Longrightarrow> answerable e \<and> l = final_for e"
  by (auto simp: final_line_def answerable_def final_for_def bind_eq_Ok split: option.splits HandlerError.splits)

lemma validate_no_panic: "validate_remote e \<noteq> Panic"
  using encode_scratch [of "case e of HeRemote c m \<Rightarrow> LineErr c m | _ \<Rightarrow> LineOk []"]
  by (auto simp: validate_remote_def validate_message_def split: HandlerError.splits result.splits if_splits prod.splits)

lemma final_line_no_panic: "final_line e \<noteq> Panic"
  using validate_no_panic
  by (auto simp: final_line_def map_err_def bind_def split: option.splits HandlerError.splits result.splits)

lemma finalize_cases:
  assumes "finalize e d g (ss, w) = (r, (ss', w'))" and "io_inv (ss_io ss, w)"
  shows "same_setup ss ss' \<and> r \<noteq> Abort \<and> (\<exists>n. w_sent w' = w_sent w @ take n (wire (final_for e)))
    \<and> (w_sent w' = w_sent w \<or> answerable e \<and> encodable (final_for e))
    \<and> (sv_dead (ss_io ss) \<longrightarrow> \<not> is_done r \<and> w_sent w' = w_sent w)
    \<and> (is_done r \<longrightarrow> answerable e \<and> (g \<longrightarrow> e = None) \<and> encodable (final_for e) \<and> w_sent w' = w_sent w @ wire (final_for e)
         \<and> between (ss_io ss', w') \<and> io_stream (ss_io ss', w') = io_stream (ss_io ss, w))"
proof (cases "r = Abort \<or> ss' \<noteq> ss \<or> w' \<noteq> w \<or> is_done r")
  case False
  then show ?thesis by (auto simp: same_setup_def intro: exI [of _ 0])
next
  case True
  have inv: "ch_inv (sx_channel (ss_io ss))" "sm_good (sx_machine (ss_io ss))" "reads_ok w"
    using assms(2) by (auto simp: io_inv_def sv_inv_def)
  have alive: "sm_state (sx_machine (ss_io ss)) \<in> {SGreeting, SHandler, SAwaitFinal}" and fatal: "answerable e \<or> final_line e = Panic"
    and ok: "\<exists>l. final_line e = Ok l"
    using assms(1) True final_line_no_panic [of e]
    by (auto simp: finalize_def answerable_def split: option.splits HandlerError.splits if_splits result.splits)
  then have nd: "\<not> sv_dead (ss_io ss)" by (auto simp: sv_dead_def sm_dead_def)
  have l: "final_line e = Ok (final_for e)" "answerable e" using ok final_line_ok by blast+
  from respond_line_cases [OF inv(1,2), of SvProtocol SvState SvTransport "final_for e" d Secret w] obtain q x1 w1 where
    rl: "respond_line SvProtocol SvState SvTransport (final_for e) d Secret (ss_io ss, w) = (q, (x1, w1))"
      "ch_inv (sx_channel x1)" "sm_good (sx_machine x1)" "q \<noteq> Abort" "w_reads w1 = w_reads w"
      "\<exists>n. w_sent w1 = w_sent w @ take n (wire (final_for e))" "encodable (final_for e) \<or> w_sent w1 = w_sent w"
      "is_done q \<longrightarrow> encodable (final_for e) \<and> sx_channel x1 = sx_channel (ss_io ss)
         \<and> sm_send_response (sx_machine (ss_io ss)) (kind (final_for e)) = (Ok (), sx_machine x1) \<and> w_sent w1 = w_sent w @ wire (final_for e)"
    by blast
  have eq: "ss' = ss\<lparr>ss_io := x1\<rparr>" "w' = w1" "r \<noteq> Abort" "is_done r \<longrightarrow> is_done q \<and> (g \<longrightarrow> e = None)"
    using assms(1) alive l rl(1,4)
    by (cases q; auto simp: finalize_def answerable_def split: option.splits HandlerError.splits if_splits)+
  have "between (x1, w1)" if "is_done q"
    using final_between rl that inv(3) by (auto simp: between_def reads_ok_def)
  then show ?thesis
    using eq rl nd l(2) by (auto simp: same_setup_def io_stream_def stream_def)
qed

section \<open>Reading a command\<close>

lemma read_at_end:
  assumes "ch_inv c" and "reads_ok w" and "read_line_or_eof d s (c, w) = (Done None, (c', w'))"
  shows "stream c w = []"
proof -
  have a: "ch_inv c'" "lb_line (ch_line c') = None" "reads_as [] c w (Done ()) c' w'"
    using read_line_or_eof_cases [OF assms(1,2), of d s] assms(3) by (auto split: if_splits)
  have "lb_line (ch_line c') = (case lb_abs (ch_line c') of Complete l \<Rightarrow> Some l | _ \<Rightarrow> None)"
    using a(1) by (intro lines.line_abs) (simp add: ch_inv_def ch_shape_def)
  then show ?thesis
    using a(2,3) frame_feed_partial [of "[]" "stream c w"]
    by (auto simp: reads_as_def stream_def Let_def split: prod.splits framing.splits read_event.splits if_splits)
qed

lemma ready_request:
  assumes "sm_good m" and "sm_state m = SReady \<or> sm_dead m" and "sm_receive_request m k = (Ok (), m')"
  shows "sm_good m' \<and> sm_state m = SReady \<and> (if k \<in> {ReqEmpty, ReqComment} then m' = m else k = ReqCommand \<and> sm_state m' = SHandler)"
  using assms receive_good [OF assms(1,3)]
  by (auto simp: sm_receive_request_def sm_dead_def Let_def split: if_splits)

lemma read_one_cases:
  assumes "between (ss_io ss, w)"
  shows "\<exists>r x' w'. read_one idle (ss, w) = (r, (ss\<lparr>ss_io := x'\<rparr>, w')) \<and> w_sent w' = w_sent w \<and> r \<noteq> Abort
     \<and> (r = Done None \<longrightarrow> io_stream (ss_io ss, w) = [])
     \<and> (\<forall>k line. r = Done (Some (k, line)) \<longrightarrow> takes_request (io_stream (ss_io ss, w)) k line (io_stream (x', w'))
          \<and> (if k \<in> {ReqEmpty, ReqComment} then between (x', w')
             else k = ReqCommand \<and> io_inv (x', w') \<and> sm_state (sx_machine x') = SHandler))"
proof -
  let ?x = "ss_io ss"
  have inv: "ch_inv (sx_channel ?x)" "sm_good (sx_machine ?x)" "reads_ok w"
    "sm_state (sx_machine ?x) = SReady \<or> sm_dead (sx_machine ?x)" using assms by (auto simp: between_def)
  from read_line_or_eof_spec [OF inv(1,3), of idle Secret] obtain q c w1 where
    rd: "read_line_or_eof idle Secret (sx_channel ?x, w) = (q, (c, w1))" "ch_inv c" "reads_ok w1" "w_sent w1 = w_sent w" "q \<noteq> Abort"
      "\<And>l. q = Done (Some l) \<Longrightarrow> takes_line (stream (sx_channel ?x) w) l (stream c w1)" by blast
  show ?thesis
  proof (cases q)
    case (Done v)
    show ?thesis
    proof (cases v)
      case None
      then show ?thesis using rd Done read_at_end [OF inv(1,3), of idle Secret c w1] by (auto simp: read_one_def io_stream_def)
    next
      case (Some line)
      show ?thesis
      proof (cases "request_kind line")
        case (Ok k)
        obtain t m where st: "sm_receive_request (sx_machine ?x) k = (t, m)" by force
        have tk: "takes_request (io_stream (?x, w)) k line (stream c w1)"
          using rd(6) Done Some Ok by (simp add: takes_request_def io_stream_def)
        show ?thesis
        proof (cases t)
          case (Ok u)
          let ?x' = "?x\<lparr>sx_channel := c, sx_machine := m\<rparr>"
          have m: "sm_good m" "sm_state (sx_machine ?x) = SReady"
            "if k \<in> {ReqEmpty, ReqComment} then m = sx_machine ?x else k = ReqCommand \<and> sm_state m = SHandler"
            using ready_request [OF inv(2,4)] st Ok by auto
          have "\<not> MAX_LINE_BYTES < length line" using takes_line_fits [OF rd(6)] Done Some by fastforce
          then have "read_one idle (ss, w) = (Done (Some (k, line)), (ss\<lparr>ss_io := ?x'\<rparr>, w1))"
            using rd(1) Done Some \<open>request_kind line = Ok k\<close> st Ok by (simp add: read_one_def)
          then show ?thesis
            using rd(2-4) tk m
            by (auto simp: between_def io_inv_def sv_inv_def sv_dead_def sm_dead_def io_stream_def split: if_splits)
        next
          case (Err e)
          then have "read_one idle (ss, w) = (Fail (SvState e), (ss\<lparr>ss_io := ?x\<lparr>sx_channel := c, sx_machine := m\<rparr>\<rparr>, w1))"
            using rd(1) Done Some \<open>request_kind line = Ok k\<close> st by (simp add: read_one_def)
          then show ?thesis using rd(4) by auto
        qed (use st receive_no_panic in metis)
      next
        case (Err e)
        then have "read_one idle (ss, w) = (Fail (SvProtocol e), (ss\<lparr>ss_io := ?x\<lparr>sx_channel := c\<rparr>\<rparr>, w1))"
          using rd(1) Done Some by (simp add: read_one_def)
        then show ?thesis using rd(4) by auto
      qed (use request_no_panic in metis)
    qed
  qed (use rd in \<open>auto simp: read_one_def\<close>)
qed

text \<open>What is left of the stream when only comments and empty lines come before its end.\<close>

inductive idles :: "bytes \<Rightarrow> bool" where
  over: "idles []"
| skip: "takes_request bs k raw mid \<Longrightarrow> k \<in> {ReqComment, ReqEmpty} \<Longrightarrow> idles mid \<Longrightarrow> idles bs"

lemma read_command_cases:
  "between (ss_io ss, w) \<Longrightarrow>
   \<exists>r x' w'. read_command idle (ss, w) = (r, (ss\<lparr>ss_io := x'\<rparr>, w')) \<and> w_sent w' = w_sent w \<and> r \<noteq> Abort
     \<and> (r = Done None \<longrightarrow> idles (io_stream (ss_io ss, w)))
     \<and> (\<forall>line. r = Done (Some line) \<longrightarrow> takes_answer (io_stream (ss_io ss, w)) ReqCommand line (io_stream (x', w'))
          \<and> io_inv (x', w') \<and> sm_state (sx_machine x') = SHandler)"
proof (induction "ss_left (ss, w)" arbitrary: ss w rule: less_induct)
  case less
  obtain r x1 w1 where ro: "read_one idle (ss, w) = (r, (ss\<lparr>ss_io := x1\<rparr>, w1))" "w_sent w1 = w_sent w" "r \<noteq> Abort"
    "r = Done None \<longrightarrow> io_stream (ss_io ss, w) = []"
    "\<forall>k line. r = Done (Some (k, line)) \<longrightarrow> takes_request (io_stream (ss_io ss, w)) k line (io_stream (x1, w1))
       \<and> (if k \<in> {ReqEmpty, ReqComment} then between (x1, w1)
          else k = ReqCommand \<and> io_inv (x1, w1) \<and> sm_state (sx_machine x1) = SHandler)"
    using read_one_cases [OF less.prems] by blast
  show ?case
  proof (cases "\<exists>k line. r = Done (Some (k, line)) \<and> k \<in> {ReqEmpty, ReqComment}")
    case True
    then obtain k line where r: "r = Done (Some (k, line))" "k \<in> {ReqEmpty, ReqComment}" by blast
    have b: "takes_request (io_stream (ss_io ss, w)) k line (io_stream (x1, w1))" "between (x1, w1)" using ro(5) r by auto
    have "ss_left (ss\<lparr>ss_io := x1\<rparr>, w1) < ss_left (ss, w)" using read_one_uses ro(1) r(1) by blast
    from less.hyps [OF this] b(2) obtain r2 x2 w2 where
      ih: "read_command idle (ss\<lparr>ss_io := x1\<rparr>, w1) = (r2, (ss\<lparr>ss_io := x2\<rparr>, w2))" "w_sent w2 = w_sent w1" "r2 \<noteq> Abort"
        "r2 = Done None \<longrightarrow> idles (io_stream (x1, w1))"
        "\<forall>line. r2 = Done (Some line) \<longrightarrow> takes_answer (io_stream (x1, w1)) ReqCommand line (io_stream (x2, w2))
          \<and> io_inv (x2, w2) \<and> sm_state (sx_machine x2) = SHandler" by auto
    have k: "k \<in> {ReqComment, ReqEmpty}" using r(2) by blast
    have "read_command idle (ss, w) = (r2, (ss\<lparr>ss_io := x2\<rparr>, w2))"
      using ro(1) r ih(1) by (simp add: read_command.simps [of idle "(ss, w)"])
    then show ?thesis using ih(2-5) ro(2) idles.skip [OF b(1) k] takes_answer.skip [OF b(1) k] by auto
  next
    case False
    then have "read_command idle (ss, w) = (case r of Done (Some (k, line)) \<Rightarrow> Done (Some line) | Done None \<Rightarrow> Done None
        | Fail e \<Rightarrow> Fail e | Abort \<Rightarrow> Abort | Cancelled \<Rightarrow> Cancelled, (ss\<lparr>ss_io := x1\<rparr>, w1))"
      using ro(1) by (auto simp: read_command.simps [of idle "(ss, w)"] split: async.splits option.splits)
    then show ?thesis using ro(2-5) False
      by (auto intro!: exI [of _ x1] takes_answer.here intro: idles.over split: async.splits option.splits)
  qed
qed

section \<open>The dialogue of a session\<close>

text \<open>
  An exchange is the line of a command, the lines sent before the final response, and the
  result behind it. While the command runs, its inquiries may take further lines from the
  client, none of which is a command. Nothing follows \<open>BYE\<close>.
\<close>

type_synonym exchange = "bytes \<times> ServerLine list \<times> HandlerError option"

definition exchange_made :: "'h Registry \<Rightarrow> bytes \<Rightarrow> bytes \<Rightarrow> Command \<Rightarrow> ServerLine list \<Rightarrow> HandlerError option \<Rightarrow> bytes \<Rightarrow> bool" where
  "exchange_made reg bs line c ls e rest \<longleftrightarrow>
     (\<exists>mid. takes_answer bs ReqCommand line mid \<and> takes_answers mid rest) \<and> Command_parse line = Ok c
     \<and> list_all intermediate ls \<and> answerable e \<and> encodable (final_for e) \<and> replies reg c ls e"

inductive dialogue :: "'h Registry \<Rightarrow> bytes \<Rightarrow> exchange list \<Rightarrow> bytes \<Rightarrow> bool" for reg where
  start: "dialogue reg bs [] bs"
| turn: "exchange_made reg bs line c ls e mid \<Longrightarrow> (cmd_name c = lit ''BYE'' \<longrightarrow> ts = []) \<Longrightarrow>
    dialogue reg mid ts rest \<Longrightarrow> dialogue reg bs ((line, ls, e) # ts) rest"

definition response :: "exchange \<Rightarrow> bytes" where
  "response t = (case t of (line, ls, e) \<Rightarrow> wires (ls @ [final_for e]))"

definition responses :: "exchange list \<Rightarrow> bytes" where
  "responses ts = concat (map response ts)"

text \<open>
  What may follow the complete responses when a session fails: nothing, or a part of the
  response to the next command on the stream, without the end of its final line. Every line
  of that response fits the wire, so its line feeds are the ends of its lines.
\<close>

definition part_of_reply :: "'h Registry \<Rightarrow> Command \<Rightarrow> bytes \<Rightarrow> bool" where
  "part_of_reply reg c bs \<longleftrightarrow> (\<exists>ls e n. list_all intermediate ls \<and> encodable (final_for e) \<and> replies reg c ls e
     \<and> n < length (wires (ls @ [final_for e])) \<and> bs = take n (wires (ls @ [final_for e])))"

definition cut_short :: "'h Registry \<Rightarrow> bytes \<Rightarrow> bytes \<Rightarrow> bool" where
  "cut_short reg rest bs \<longleftrightarrow> bs = [] \<or> (\<exists>line mid c. takes_answer rest ReqCommand line mid \<and> Command_parse line = Ok c
     \<and> part_of_reply reg c bs)"

lemma cut_short_Nil [simp]: "cut_short reg rest []"
  by (simp add: cut_short_def)

lemma part_of_lines:
  assumes "list_all intermediate ls" and "encodable (final_for e)" and "replies reg c ls e"
  shows "part_of_reply reg c (take n (wires ls))"
  unfolding part_of_reply_def using assms
  by (intro exI [of _ ls] exI [of _ e] exI [of _ "min n (length (wires ls))"]) (auto simp: wire_def min_def)

definition said_bye :: "exchange list \<Rightarrow> bool" where
  "said_bye ts \<longleftrightarrow> ts \<noteq> [] \<and> (\<exists>c. Command_parse (fst (last ts)) = Ok c \<and> cmd_name c = lit ''BYE'')"

definition ended :: "exchange list \<Rightarrow> bytes \<Rightarrow> bool" where
  "ended ts rest \<longleftrightarrow> idles rest \<or> said_bye ts"

text \<open>Lines and then the final response: the final one is sent only after all of them.\<close>

lemma talk_final:
  assumes "talk (x, w) ls (x', w')" and "finalize e d g (ss, w') = (r, (ss', w''))" and "ss_io ss = x'"
  shows "(\<exists>n. w_sent w'' = w_sent w @ take n (wires ls))
    \<or> \<not> sv_dead x' \<and> answerable e \<and> encodable (final_for e) \<and> (\<exists>n. w_sent w'' = w_sent w @ wires ls @ take n (wire (final_for e)))"
proof -
  have inv: "io_inv (ss_io ss, w')" using talk_inv [OF assms(1)] assms(3) by simp
  note fin = finalize_cases [OF assms(2) inv]
  show ?thesis
  proof (cases "sv_dead x' \<or> w_sent w'' = w_sent w'")
    case True
    then have "w_sent w'' = w_sent w'" using fin assms(3) by blast
    moreover have "\<exists>n. w_sent w' = w_sent w @ take n (wires ls)"
      using assms(1) by (cases "sv_dead x'") (auto simp: talk_def intro: exI [of _ "length (wires ls)"])
    ultimately show ?thesis by simp
  next
    case False
    then have "w_sent w' = w_sent w @ wires ls" using assms(1) by (simp add: talk_def)
    then show ?thesis using fin False by auto
  qed
qed

lemma talk_sent:
  assumes "talk (x, w) ls (x', w')"
  shows "\<exists>n. w_sent w' = w_sent w @ take n (wires ls)"
  using assms by (cases "sv_dead x'") (auto simp: talk_def intro: exI [of _ "length (wires ls)"])

lemma talk_cut:
  assumes "talk (x, w) ls (x', w')" and "finalize e d g (ss, w') = (r, (ss', w''))" and "ss_io ss = x'"
    and "replies reg c ls e'" and "encodable (final_for e')" and "\<not> sv_dead x' \<Longrightarrow> replies reg c ls e"
  shows "(\<exists>bs. part_of_reply reg c bs \<and> w_sent w'' = w_sent w @ bs)
    \<or> \<not> sv_dead x' \<and> answerable e \<and> encodable (final_for e) \<and> replies reg c ls e \<and> w_sent w'' = w_sent w @ wires (ls @ [final_for e])"
proof -
  have ls: "list_all intermediate ls" using assms(1) by (simp add: talk_def)
  from talk_final [OF assms(1-3)] show ?thesis
  proof (elim disjE exE conjE)
    fix n assume "w_sent w'' = w_sent w @ take n (wires ls)"
    then show ?thesis using part_of_lines [OF ls assms(5,4)] by auto
  next
    fix n assume f: "\<not> sv_dead x'" "answerable e" "encodable (final_for e)" "w_sent w'' = w_sent w @ wires ls @ take n (wire (final_for e))"
    note re = assms(6) [OF f(1)]
    show ?thesis
    proof (cases "n < length (wire (final_for e))")
      case True
      then have "part_of_reply reg c (wires ls @ take n (wire (final_for e)))"
        unfolding part_of_reply_def using ls f(3) re
        by (intro exI [of _ ls] exI [of _ e] exI [of _ "length (wires ls) + n"]) simp
      then show ?thesis using f(4) by blast
    next
      case False
      then show ?thesis using f re by simp
    qed
  qed
qed

lemma so_deadline_sent: "so_deadline t w = (r, w') \<Longrightarrow> quiet w w' \<and> r \<noteq> Panic"
  using quiet_now [of w] by (cases "now w") (auto simp: so_deadline_def split: if_splits)

text \<open>One turn of the loop is one exchange, or the end.\<close>

definition exchanged ::
  "('s, 'p) Session \<times> world \<Rightarrow> bytes \<Rightarrow> Command \<Rightarrow> ServerLine list \<Rightarrow> HandlerError option \<Rightarrow> ('s, 'p) Session \<times> world \<Rightarrow> bool" where
  "exchanged st line c ls e st' \<longleftrightarrow> (case (st, st') of ((ss, w), (ss', w')) \<Rightarrow>
     exchange_made (ss_registry ss) (io_stream (ss_io ss, w)) line c ls e (io_stream (ss_io ss', w'))
     \<and> w_sent w' = w_sent w @ wires (ls @ [final_for e]) \<and> between (ss_io ss', w'))"

text \<open>A turn that fails: a part of a response was sent, or all of it and the session failed then.\<close>

definition stopped :: "('s, 'p) Session \<times> world \<Rightarrow> ('s, 'p) Session \<times> world \<Rightarrow> bool" where
  "stopped st st' \<longleftrightarrow> (case (st, st') of ((ss, w), (ss', w')) \<Rightarrow>
     (\<exists>bs. cut_short (ss_registry ss) (io_stream (ss_io ss, w)) bs \<and> w_sent w' = w_sent w @ bs)
     \<or> (\<exists>line c ls e rest. exchange_made (ss_registry ss) (io_stream (ss_io ss, w)) line c ls e rest
          \<and> w_sent w' = w_sent w @ wires (ls @ [final_for e])))"

definition turned :: "('s, 'p) Session \<times> world \<Rightarrow> (bool, ServerError) async \<Rightarrow> ('s, 'p) Session \<times> world \<Rightarrow> bool" where
  "turned st r st' \<longleftrightarrow> (case (st, st') of ((ss, w), (ss', w')) \<Rightarrow>
     same_setup ss ss'
     \<and> (case r of
          Done again \<Rightarrow>
            (w_sent w' = w_sent w \<and> \<not> again \<and> idles (io_stream (ss_io ss, w)))
            \<or> (\<exists>line c ls e. exchanged st line c ls e st' \<and> again = (cmd_name c \<noteq> lit ''BYE''))
        | _ \<Rightarrow> stopped st st'))"

lemma turned_quiet: "same_setup ss ss' \<Longrightarrow> w_sent w' = w_sent w \<Longrightarrow> \<not> is_done r \<Longrightarrow> turned (ss, w) r (ss', w')"
  by (auto simp: turned_def stopped_def split: async.splits intro: exI [of _ "[]"])

lemma same_setup_trans: "same_setup a b \<Longrightarrow> same_setup b c \<Longrightarrow> same_setup a c"
  by (simp add: same_setup_def)

lemma same_setup_io [simp]: "same_setup ss (ss\<lparr>ss_io := x\<rparr>)" "same_setup ss ss"
  by (simp_all add: same_setup_def)

lemma answer_turned:
  assumes inv: "io_inv (ss_io ss, w)" "\<not> sv_dead (ss_io ss)" "rg_clean (ss_registry ss)"
    and run: "bindM (dispatch c d) (\<lambda>result. bindM (finalize result d False) (\<lambda>_. returnM again)) (ss, w) = (r, (ss', w'))"
  shows "same_setup ss ss' \<and> (case r of
      Done a \<Rightarrow> a = again \<and> between (ss_io ss', w') \<and> takes_answers (io_stream (ss_io ss, w)) (io_stream (ss_io ss', w'))
        \<and> (\<exists>ls e. list_all intermediate ls \<and> answerable e \<and> encodable (final_for e) \<and> replies (ss_registry ss) c ls e \<and> w_sent w' = w_sent w @ wires (ls @ [final_for e]))
    | _ \<Rightarrow> (\<exists>bs. part_of_reply (ss_registry ss) c bs \<and> w_sent w' = w_sent w @ bs)
        \<or> (\<exists>ls e rest. list_all intermediate ls \<and> answerable e \<and> encodable (final_for e) \<and> replies (ss_registry ss) c ls e
             \<and> takes_answers (io_stream (ss_io ss, w)) rest \<and> w_sent w' = w_sent w @ wires (ls @ [final_for e])))"
proof -
  obtain q ss1 w1 where di: "dispatch c d (ss, w) = (q, (ss1, w1))" by (metis prod_cases3)
  from dispatch_talk [OF di inv] obtain ls e' where
    t: "talk (ss_io ss, w) ls (ss_io ss1, w1)" "\<And>e. q = Done e \<Longrightarrow> \<not> sv_dead (ss_io ss1) \<Longrightarrow> replies (ss_registry ss) c ls e"
    and su: "same_setup ss ss1" and e': "replies (ss_registry ss) c ls e'" "encodable (final_for e')" by auto
  have ls: "list_all intermediate ls" using t(1) by (simp add: talk_def)
  show ?thesis
  proof (cases q)
    case (Done e)
    obtain q2 ss2 w2 where fi: "finalize e d False (ss1, w1) = (q2, (ss2, w2))" by (metis prod_cases3)
    note fc = finalize_cases [OF fi talk_inv [OF t(1)]]
    have su2: "same_setup ss ss2" using same_setup_trans [OF su] fc by blast
    have res: "(r, (ss', w')) = (case q2 of Done _ \<Rightarrow> Done again | Fail e \<Rightarrow> Fail e | Abort \<Rightarrow> Abort | Cancelled \<Rightarrow> Cancelled, (ss2, w2))"
      using run di Done fi by (cases q2) (auto simp: bindM_def returnM_def)
    show ?thesis
    proof (cases "is_done q2")
      case True
      have nd: "\<not> sv_dead (ss_io ss1)" using fc True by blast
      then have t': "w_sent w1 = w_sent w @ wires ls" "takes_answers (io_stream (ss_io ss, w)) (io_stream (ss_io ss1, w1))"
        using t(1) by (auto simp: talk_def)
      have "r = Done again" "ss' = ss2" "w' = w2" using res True by (cases q2; simp)+
      then show ?thesis using ls t' t(2) [OF Done nd] fc True su2 by auto
    next
      case False
      have "takes_answers (io_stream (ss_io ss, w)) (io_stream (ss_io ss1, w1))" if "\<not> sv_dead (ss_io ss1)"
        using t(1) that by (auto simp: talk_def)
      then show ?thesis using res su2 False ls talk_cut [OF t(1) fi refl e' t(2) [OF Done]] by (cases q2) auto
    qed
  qed (use run di su talk_sent [OF t(1)] part_of_lines [OF ls e'(2,1)] in \<open>auto simp: bindM_def\<close>)
qed

text \<open>A line that was read as a command, from its deadline to the answer.\<close>

lemma line_turned:
  assumes "takes_answer (io_stream (ss_io ss, w)) ReqCommand line (io_stream (x, w1))" and "io_inv (x, w1)" and "\<not> sv_dead x"
    and "rg_clean (ss_registry ss)" and "w_sent w1 = w_sent w" and "Command_parse line = Ok c"
    and d: "so_deadline (so_command_timeout (ss_options ss)) w1 = (q, w2)"
    and run: "(case q of
        Err e \<Rightarrow> (Fail e, (ss\<lparr>ss_io := x\<rparr>, w2))
      | Panic \<Rightarrow> (Abort, (ss\<lparr>ss_io := x\<rparr>, w2))
      | Ok d \<Rightarrow> bindM (dispatch c d) (\<lambda>result. bindM (finalize result d False)
          (\<lambda>_. returnM (cmd_name c \<noteq> lit ''BYE''))) (ss\<lparr>ss_io := x\<rparr>, w2)) = (r, (ss', w'))"
  shows "turned (ss, w) r (ss', w')"
proof -
  have quiet: "quiet w1 w2" "q \<noteq> Panic" using so_deadline_sent [OF d] by auto
  show ?thesis
  proof (cases q)
    case (Err e)
    then show ?thesis using run assms(5) quiet(1) by (auto simp: quiet_def intro!: turned_quiet)
  next
    case (Ok d)
    let ?ss = "ss\<lparr>ss_io := x\<rparr>"
    have inv: "io_inv (ss_io ?ss, w2)" "\<not> sv_dead (ss_io ?ss)" "rg_clean (ss_registry ?ss)"
      using assms(2-4) quiet(1) by (auto simp: io_inv_def reads_ok_def quiet_def)
    have s2: "io_stream (x, w2) = io_stream (x, w1)" "w_sent w2 = w_sent w"
      using quiet(1) assms(5) by (auto simp: io_stream_def stream_def quiet_def)
    note an = answer_turned [OF inv run [unfolded Ok, simplified]]
    have su: "same_setup ss ss'" using an by (simp add: same_setup_def)
    have "stopped (ss, w) (ss', w')" if "\<not> is_done r"
    proof -
      have "(\<exists>bs. part_of_reply (ss_registry ss) c bs \<and> w_sent w' = w_sent w @ bs)
        \<or> (\<exists>ls e rest. list_all intermediate ls \<and> answerable e \<and> encodable (final_for e) \<and> replies (ss_registry ss) c ls e
             \<and> takes_answers (io_stream (x, w1)) rest \<and> w_sent w' = w_sent w @ wires (ls @ [final_for e]))"
        using an that by (cases r) (simp_all add: s2 del: map_append concat_append)
      then show ?thesis unfolding stopped_def prod.case cut_short_def exchange_made_def using assms(1,6) by (elim disjE exE conjE) metis+
    qed
    note stop = this
    show ?thesis
    proof (cases r)
      case (Done again)
      then obtain ls e where "list_all intermediate ls" "answerable e" "encodable (final_for e)" "replies (ss_registry ss) c ls e"
        "w_sent w' = w_sent w2 @ wires (ls @ [final_for e])" using an by auto
      then have "exchanged (ss, w) line c ls e (ss', w')" using an Done assms(1,6) s2 by (auto simp: exchanged_def exchange_made_def)
      then show ?thesis using an Done su by (auto simp: turned_def)
    qed (use stop su in \<open>auto simp: turned_def\<close>)
  qed (use quiet in simp)
qed

lemma command_turned:
  assumes "between (ss_io ss, w)" and "rg_clean (ss_registry ss)" and "command_turn (ss, w) = (r, (ss', w'))"
  shows "turned (ss, w) r (ss', w')"
proof -
  obtain q1 w1 where d1: "so_deadline (so_idle_timeout (ss_options ss)) w = (q1, w1)" by force
  have quiet1: "quiet w w1" "q1 \<noteq> Panic" using so_deadline_sent [OF d1] by auto
  have b1: "between (ss_io ss, w1)" and s1: "io_stream (ss_io ss, w1) = io_stream (ss_io ss, w)"
    using assms(1) quiet1(1) by (auto simp: between_def reads_ok_def quiet_def io_stream_def stream_def)
  show ?thesis
  proof (cases q1)
    case (Err e)
    then show ?thesis using assms(3) d1 quiet1(1) by (auto simp: command_turn_def quiet_def intro!: turned_quiet)
  next
    case (Ok idle)
    obtain q2 x w2 where rc: "read_command idle (ss, w1) = (q2, (ss\<lparr>ss_io := x\<rparr>, w2))" "w_sent w2 = w_sent w1" "q2 \<noteq> Abort"
      "q2 = Done None \<longrightarrow> idles (io_stream (ss_io ss, w1))"
      "\<forall>line. q2 = Done (Some line) \<longrightarrow> takes_answer (io_stream (ss_io ss, w1)) ReqCommand line (io_stream (x, w2))
         \<and> io_inv (x, w2) \<and> sm_state (sx_machine x) = SHandler"
      using read_command_cases [OF b1, of idle] by blast
    have sent2: "w_sent w2 = w_sent w" using rc(2) quiet1(1) by (simp add: quiet_def)
    note turn = assms(3) [unfolded command_turn_def prod.case d1 Ok result.case bindM_def [of "read_command idle"] rc(1)]
    consider (bad) "\<not> is_done q2" | (over) "q2 = Done None" | (line) line where "q2 = Done (Some line)"
      by (metis is_done_simps(2-4) async.exhaust option.exhaust)
    then show ?thesis
    proof cases
      case bad
      then show ?thesis using turn rc(3) sent2 by (cases q2) (auto intro!: turned_quiet)
    next
      case over
      then show ?thesis using turn rc(4) sent2 s1 by (auto simp: turned_def)
    next
      case (line line)
      have l: "takes_answer (io_stream (ss_io ss, w)) ReqCommand line (io_stream (x, w2))" "io_inv (x, w2)"
        "\<not> sv_dead x" using rc(5) line s1 by (auto simp: sv_dead_def sm_dead_def)
      obtain q3 w3 where d3: "so_deadline (so_command_timeout (ss_options ss)) w2 = (q3, w3)" by force
      show ?thesis
      proof (cases "Command_parse line")
        case (Ok c)
        show ?thesis
          by (rule line_turned [OF l assms(2) sent2 Ok d3]) (use turn line Ok d3 in simp)
      qed (use turn line sent2 in \<open>auto intro!: turned_quiet\<close>)
    qed
  qed (use quiet1 in simp)
qed

text \<open>The whole command loop follows the protocol.\<close>

definition converses :: "('s, 'p) Session \<times> world \<Rightarrow> (unit, ServerError) async \<Rightarrow> ('s, 'p) Session \<times> world \<Rightarrow> bool" where
  "converses st r st' \<longleftrightarrow> (case (st, st') of ((ss, w), (ss', w')) \<Rightarrow>
     same_setup ss ss' \<and> (\<exists>ts rest bs. dialogue (ss_registry ss) (io_stream (ss_io ss, w)) ts rest
       \<and> cut_short (ss_registry ss) rest bs \<and> (said_bye ts \<longrightarrow> bs = []) \<and> w_sent w' = w_sent w @ responses ts @ bs
       \<and> (is_done r \<longrightarrow> bs = [] \<and> ended ts rest)))"

lemma converses_over:
  "same_setup ss ss1 \<Longrightarrow> w_sent w1 = w_sent w \<Longrightarrow> idles (io_stream (ss_io ss, w)) \<Longrightarrow> converses (ss, w) (Done ()) (ss1, w1)"
  by (auto simp: converses_def responses_def ended_def intro!: exI [of _ "[]"] exI [of _ "io_stream (ss_io ss, w)"] dialogue.start)

lemma dialogue_one: "exchange_made reg bs line c ls e rest \<Longrightarrow> dialogue reg bs [(line, ls, e)] rest"
  using dialogue.turn [OF _ _ dialogue.start] by fastforce

lemma responses_one: "responses [(line, ls, e)] = wires (ls @ [final_for e])"
  by (simp add: responses_def response_def)

lemma converses_stop:
  assumes "turned (ss, w) q (ss1, w1)" and "\<not> is_done q" and "\<not> is_done r"
  shows "converses (ss, w) r (ss1, w1)"
proof -
  have su: "same_setup ss ss1" and "stopped (ss, w) (ss1, w1)" using assms(1,2) by (cases q; auto simp: turned_def)+
  then consider bs where "cut_short (ss_registry ss) (io_stream (ss_io ss, w)) bs" "w_sent w1 = w_sent w @ responses [] @ bs"
    | line ls e rest where "dialogue (ss_registry ss) (io_stream (ss_io ss, w)) [(line, ls, e)] rest"
        "w_sent w1 = w_sent w @ responses [(line, ls, e)] @ []"
    by (auto simp: stopped_def responses_one simp del: map_append concat_append dest: dialogue_one) (simp add: responses_def)
  then show ?thesis
  proof cases
    case 1
    then show ?thesis using assms(3) su dialogue.start unfolding converses_def prod.case said_bye_def by blast
  next
    case 2
    then show ?thesis using assms(3) su cut_short_Nil unfolding converses_def prod.case by blast
  qed
qed

lemma converses_bye:
  assumes "exchanged (ss, w) line c ls e (ss1, w1)" and "cmd_name c = lit ''BYE''" and "same_setup ss ss1"
  shows "converses (ss, w) (Done ()) (ss1, w1)"
proof -
  have "dialogue (ss_registry ss) (io_stream (ss_io ss, w)) [(line, ls, e)] (io_stream (ss_io ss1, w1))"
    using assms(1) by (auto simp: exchanged_def intro: dialogue_one)
  moreover have "w_sent w1 = w_sent w @ responses [(line, ls, e)] @ []"
    using assms(1) by (simp add: exchanged_def responses_one)
  moreover have "ended [(line, ls, e)] (io_stream (ss_io ss1, w1))"
    using assms(1,2) by (auto simp: ended_def said_bye_def exchanged_def exchange_made_def)
  ultimately show ?thesis using assms(3) cut_short_Nil unfolding converses_def prod.case by blast
qed

lemma converses_turn:
  assumes "exchanged (ss, w) line c ls e (ss1, w1)" and "cmd_name c \<noteq> lit ''BYE''" and "same_setup ss ss1"
    and "converses (ss1, w1) r (ss', w')"
  shows "converses (ss, w) r (ss', w')"
proof -
  have x: "exchange_made (ss_registry ss) (io_stream (ss_io ss, w)) line c ls e (io_stream (ss_io ss1, w1))"
    "w_sent w1 = w_sent w @ wires (ls @ [final_for e])" "Command_parse line = Ok c"
    using assms(1) by (auto simp: exchanged_def exchange_made_def)
  have rg: "ss_registry ss1 = ss_registry ss" using assms(3) by (simp add: same_setup_def)
  from assms(4) rg obtain ts rest bs where
    ih: "same_setup ss1 ss'" "dialogue (ss_registry ss) (io_stream (ss_io ss1, w1)) ts rest" "cut_short (ss_registry ss) rest bs"
      "w_sent w' = w_sent w1 @ responses ts @ bs" "is_done r \<longrightarrow> bs = [] \<and> ended ts rest" "said_bye ts \<longrightarrow> bs = []"
    by (auto simp: converses_def)
  have "dialogue (ss_registry ss) (io_stream (ss_io ss, w)) ((line, ls, e) # ts) rest"
    by (rule dialogue.turn [OF x(1) _ ih(2)]) (use assms(2) in simp)
  moreover have "w_sent w' = w_sent w @ responses ((line, ls, e) # ts) @ bs"
    using ih(4) x(2) by (simp add: responses_def response_def)
  moreover have bye: "said_bye ((line, ls, e) # ts) = said_bye ts" using x(3) assms(2) by (auto simp: said_bye_def)
  moreover have "is_done r \<longrightarrow> bs = [] \<and> ended ((line, ls, e) # ts) rest" using ih(5) by (auto simp: ended_def bye)
  ultimately show ?thesis using ih(3,6) same_setup_trans [OF assms(3) ih(1)] unfolding converses_def prod.case by metis
qed

lemma command_loop_converses:
  "between (ss_io ss, w) \<Longrightarrow> rg_clean (ss_registry ss) \<Longrightarrow> command_loop (ss, w) = (r, (ss', w')) \<Longrightarrow>
   converses (ss, w) r (ss', w')"
proof (induction "ss_left (ss, w)" arbitrary: ss w rule: less_induct)
  case less
  obtain q ss1 w1 where ct: "command_turn (ss, w) = (q, (ss1, w1))" by (metis prod_cases3)
  note t = command_turned [OF less.prems(1,2) ct]
  note loop = less.prems(3) [unfolded command_loop.simps [of "(ss, w)"] ct]
  show ?case
  proof (cases "is_done q")
    case True
    then obtain again where q: "q = Done again" by (cases q) auto
    have su: "same_setup ss ss1" using t by (simp add: turned_def)
    from t q consider (over) "w_sent w1 = w_sent w" "\<not> again" "idles (io_stream (ss_io ss, w))"
      | (turn) line c ls e where "exchanged (ss, w) line c ls e (ss1, w1)" "again = (cmd_name c \<noteq> lit ''BYE'')"
      by (auto simp: turned_def)
    then show ?thesis
    proof cases
      case over
      then show ?thesis using converses_over [OF su] loop q by auto
    next
      case turn
      show ?thesis
      proof (cases again)
        case True
        have "ss_left (ss1, w1) < ss_left (ss, w)" using command_turn_uses [of "(ss, w)" "(ss1, w1)"] ct q True by simp
        moreover have "between (ss_io ss1, w1)" "rg_clean (ss_registry ss1)"
          using turn(1) su less.prems(2) by (auto simp: exchanged_def same_setup_def)
        ultimately have "converses (ss1, w1) r (ss', w')" using less.hyps loop q True by simp
        then show ?thesis using converses_turn [OF turn(1) _ su] turn(2) True by simp
      qed (use converses_bye [OF turn(1) _ su] turn(2) loop q in auto)
    qed
  next
    case False
    then show ?thesis using converses_stop [OF t False, of r] loop by (cases q) auto
  qed
qed

end
