(* ===== verification/Server_Correct.thy ===== *)
theory Server_Correct
  imports Server_Dialogue
begin

text \<open>
  The properties of a server session: the whole of \<open>Session::run\<close> follows the abstract
  dialogue, its operations fail for good, an inquiry hands out exactly the client's answers,
  \<open>HELP\<close> lists every command, and the final response reveals nothing of an internal error.
\<close>

section \<open>Greeting and the whole run\<close>

lemma registered_facts:
  assumes "rearranges shuffle"
  shows "rg_inv (register_all shuffle hs rg_new)" and "rg_clean (register_all shuffle hs rg_new)"
proof -
  let ?r = "register_all shuffle hs rg_new"
  have new: "rg_inv rg_new" by (simp add: rg_inv_def rg_new_def)
  show inv: "rg_inv ?r"
    using registry.add_all_inv [OF new, of shuffle hs, folded register_all_table, unfolded reordering_id [OF assms]] .
  have get: "rg_get ?r n = find (\<lambda>h. admissible_handler h \<and> hd_name h = n) hs" for n
    using registry.first_wins [OF new, of shuffle hs n, folded register_all_table, unfolded reordering_id [OF assms]]
    by (simp add: rg_get_def rg_new_def)
  show "rg_clean ?r"
    unfolding rg_clean_def list_all_iff entries_set [OF inv]
    by (auto simp: get find_Some_iff admissible_handler_def)
qed

lemma so_validate_quiet: "so_validate permits opts w = (r, w') \<Longrightarrow> quiet w w' \<and> r \<noteq> Panic"
proof -
  have "so_durations ds w = (r, w') \<Longrightarrow> quiet w w' \<and> r \<noteq> Panic" for ds w r w'
  proof (induction ds arbitrary: w)
    case (Cons d ds)
    obtain q w1 where d: "so_deadline d w = (q, w1)" by force
    note so_deadline_sent [OF d]
    then show ?case using Cons d by (cases q) (auto intro: quiet_trans)
  qed auto
  then show "so_validate permits opts w = (r, w') \<Longrightarrow> quiet w w' \<and> r \<noteq> Panic"
    by (auto simp: so_validate_def simp del: so_durations.simps split: if_splits)
qed

text \<open>
  What a run may have sent when nobody was authenticated: a beginning of a greeting, up to
  the whole of it.
\<close>

definition greeting_part :: "bytes \<Rightarrow> bool" where
  "greeting_part bs \<longleftrightarrow> (\<exists>ls e n. list_all intermediate ls \<and> encodable (final_for e) \<and> bs = take n (wires (ls @ [final_for e])))"

lemma greeting_lines: "list_all intermediate ls \<Longrightarrow> greeting_part (take n (wires ls))"
  unfolding greeting_part_def using fixed_finals_encodable(1)
  by (intro exI [of _ ls] exI [of _ None] exI [of _ "min n (length (wires ls))"]) (simp add: min_def)

lemma greeting_cut:
  assumes "talk (x, w) ls (x', w')" and "finalize e d g (ss, w') = (r, (ss', w''))" and "ss_io ss = x'"
  shows "\<exists>bs. greeting_part bs \<and> w_sent w'' = w_sent w @ bs"
proof -
  have ls: "list_all intermediate ls" using assms(1) by (simp add: talk_def)
  from talk_final [OF assms] show ?thesis
  proof (elim disjE exE conjE)
    fix n assume "w_sent w'' = w_sent w @ take n (wires ls)"
    then show ?thesis using greeting_lines [OF ls] by blast
  next
    fix n assume f: "encodable (final_for e)" "w_sent w'' = w_sent w @ wires ls @ take n (wire (final_for e))"
    then have "greeting_part (wires ls @ take n (wire (final_for e)))"
      unfolding greeting_part_def using ls by (intro exI [of _ ls] exI [of _ e] exI [of _ "length (wires ls) + n"]) simp
    then show ?thesis using f(2) by blast
  qed
qed

text \<open>Authentication and greeting, then the dialogue.\<close>

definition greeted :: "('s, 'p) Session \<times> world \<Rightarrow> (unit, ServerError) async \<Rightarrow> ('s, 'p) Session \<times> world \<Rightarrow> bool" where
  "greeted st r st' \<longleftrightarrow> (case (st, st') of ((ss, w), (ss', w')) \<Rightarrow>
     if ss_authenticated ss' then
       \<exists>ls start ts rest bs. list_all intermediate ls \<and> takes_answers (io_stream (ss_io ss, w)) start
         \<and> dialogue (ss_registry ss) start ts rest \<and> cut_short (ss_registry ss) rest bs
         \<and> (said_bye ts \<longrightarrow> bs = [])
         \<and> w_sent w' = w_sent w @ wires (ls @ [LineOk []]) @ responses ts @ bs
         \<and> (is_done r \<longrightarrow> bs = [] \<and> ended ts rest)
     else \<not> is_done r \<and> (\<exists>bs. greeting_part bs \<and> w_sent w' = w_sent w @ bs))"

lemma drive_greeted:
  assumes "io_inv (ss_io ss, w)" and "rg_clean (ss_registry ss)" and "\<not> ss_authenticated ss" and "drive (ss, w) = (r, (ss', w'))"
  shows "greeted (ss, w) r (ss', w')"
proof -
  obtain q1 w1 where d1: "so_deadline (so_greeting_timeout (ss_options ss)) w = (q1, w1)" by force
  have quiet1: "quiet w w1" "q1 \<noteq> Panic" using so_deadline_sent [OF d1] by auto
  have inv1: "io_inv (ss_io ss, w1)" using assms(1) quiet1 by (auto simp: io_inv_def quiet_def reads_ok_def)
  have s1: "io_stream (ss_io ss, w1) = io_stream (ss_io ss, w)" "w_sent w1 = w_sent w"
    using quiet1 by (auto simp: io_stream_def stream_def quiet_def)
  show ?thesis
  proof (cases q1)
    case (Err e)
    then show ?thesis using assms(3,4) d1 s1 greeting_lines [of "[]" 0] by (auto simp: drive_def greeted_def intro: exI [of _ "[]"])
  next
    case (Ok d)
    obtain q2 ss2 w2 where iv: "invoke (hk_authenticate (ss_hooks ss) (ss_view ss)) d (ss, w1) = (q2, (ss2, w2))" by (metis prod_cases3)
    obtain ls where t: "talk (ss_io ss, w1) ls (ss_io ss2, w2)" and su2: "same_setup ss ss2"
      using invoke_talk [OF iv inv1] by blast
    show ?thesis
    proof (cases q2)
      case (Done e)
      obtain q3 ss3 w3 where fi: "finalize e d True (ss2, w2) = (q3, (ss3, w3))" by (metis prod_cases3)
      note fc = finalize_cases [OF fi talk_inv [OF t]]
      have su3: "same_setup ss ss3" using same_setup_trans [OF su2] fc by blast
      show ?thesis
      proof (cases "is_done q3")
        case True
        have nd: "\<not> sv_dead (ss_io ss2)" and e: "e = None" using fc True by blast+
        then have t': "list_all intermediate ls" "w_sent w3 = w_sent w @ wires (ls @ [LineOk []])"
          "takes_answers (io_stream (ss_io ss, w)) (io_stream (ss_io ss3, w3))"
          using t fc True s1 by (auto simp: talk_def final_for_def list_intermediate)
        let ?ss = "ss3\<lparr>ss_authenticated := True\<rparr>"
        have "command_loop (?ss, w3) = (r, (ss', w'))"
          using assms(4) d1 Ok iv Done fi True by (cases q3) (auto simp: drive_def bindM_def)
        moreover have "between (ss_io ?ss, w3)" "rg_clean (ss_registry ?ss)" using fc True su3 assms(2) by (auto simp: same_setup_def)
        ultimately have "converses (?ss, w3) r (ss', w')" using command_loop_converses by blast
        then obtain ts rest bs where c: "same_setup ?ss ss'" "dialogue (ss_registry ?ss) (io_stream (ss_io ?ss, w3)) ts rest"
          "cut_short (ss_registry ?ss) rest bs" "w_sent w' = w_sent w3 @ responses ts @ bs" "is_done r \<longrightarrow> bs = [] \<and> ended ts rest"
          "said_bye ts \<longrightarrow> bs = []"
          unfolding converses_def prod.case by blast
        have "ss_authenticated ss'" "ss_registry ?ss = ss_registry ss" using c(1) su3 by (auto simp: same_setup_def)
        moreover have "w_sent w' = w_sent w @ wires (ls @ [LineOk []]) @ responses ts @ bs" using c(4) t'(2) by simp
        moreover have "takes_answers (io_stream (ss_io ss, w)) (io_stream (ss_io ?ss, w3))" using t'(3) by simp
        ultimately show ?thesis
          unfolding greeted_def prod.case using t'(1) c(2,3,5,6) by (simp only: if_True) metis
      next
        case False
        then have "\<not> is_done r" "ss' = ss3" "w' = w3"
          using assms(4) d1 Ok iv Done fi by (cases q3; auto simp: drive_def bindM_def)+
        then show ?thesis using greeting_cut [OF t fi refl] su3 assms(3) s1 by (auto simp: greeted_def same_setup_def)
      qed
    qed (use assms(3,4) d1 Ok iv su2 s1 talk_sent [OF t] greeting_lines t in \<open>auto simp: drive_def bindM_def greeted_def same_setup_def talk_def\<close>)
  qed (use quiet1 in simp)
qed

text \<open>The orderly end sends nothing and does not turn a failure into success.\<close>

lemma run_end:
  assumes "Session_run permits (ss, w) = (r, (ss', w'))" and "so_validate permits (ss_options ss) w = (Ok (), w1)"
    and "drive (ss, w1) = (q, (ss1, w2))"
  shows "w_sent w' = w_sent w2 \<and> ss_authenticated ss' = ss_authenticated ss1 \<and> (is_done r \<longrightarrow> is_done q)"
proof -
  obtain v w3 where d: "so_deadline (so_shutdown_timeout (ss_options ss1)) w2 = (v, w3)" by force
  have "w_sent w3 = w_sent w2" "v \<noteq> Panic" using so_deadline_sent [OF d] by (auto simp: quiet_def)
  then show ?thesis
    using assms d
    by (cases q; cases v) (auto simp: Session_run_def Let_def split: prod.splits async.splits option.splits)
qed

lemma session_run_dialogue:
  assumes "rearranges shuffle" and "reads_ok w"
  shows "case Session_run permits (Session_new peer s (register_all shuffle hs rg_new) hooks opts, w) of (r, (ss', w')) \<Rightarrow>
     if ss_authenticated ss' then
       \<exists>ls start ts rest bs. list_all intermediate ls \<and> takes_answers (incoming (w_reads w)) start
         \<and> dialogue (register_all shuffle hs rg_new) start ts rest
         \<and> cut_short (register_all shuffle hs rg_new) rest bs \<and> (if said_bye ts then bs = [] else True)
         \<and> w_sent w' = w_sent w @ wires (ls @ [LineOk []]) @ responses ts @ bs
         \<and> (if is_done r then bs = [] \<and> ended ts rest else True)
     else \<not> is_done r \<and> (\<exists>bs. greeting_part bs \<and> w_sent w' = w_sent w @ bs)"
proof -
  let ?reg = "register_all shuffle hs rg_new"
  let ?ss = "Session_new peer s ?reg hooks opts"
  obtain r ss' w' where run: "Session_run permits (?ss, w) = (r, (ss', w'))" by (metis prod_cases3)
  obtain v w1 where va: "so_validate permits (ss_options ?ss) w = (v, w1)" by force
  have quiet: "quiet w w1" "v \<noteq> Panic" using so_validate_quiet [OF va] by auto
  show ?thesis
  proof (cases v)
    case (Ok u)
    obtain q ss1 w2 where dr: "drive (?ss, w1) = (q, (ss1, w2))" by (metis prod_cases3)
    have "io_inv (ss_io ?ss, w1)"
      using assms(2) quiet(1) ch_new_inv
      by (auto simp: Session_new_def io_inv_def sv_inv_def sv_dead_def sm_dead_def sm_good_def sm_new_def quiet_def reads_ok_def)
    moreover have "rg_clean (ss_registry ?ss)" using registered_facts(2) [OF assms(1), of hs] by (simp add: Session_new_def)
    moreover have "\<not> ss_authenticated ?ss" by (simp add: Session_new_def)
    ultimately have g: "greeted (?ss, w1) q (ss1, w2)" using dr by (rule drive_greeted)
    have st: "io_stream (ss_io ?ss, w1) = incoming (w_reads w)"
      using quiet(1) by (simp add: Session_new_def io_stream_def stream_def buffered_def ch_new_def quiet_def)
    have "w_sent w' = w_sent w2" "ss_authenticated ss' = ss_authenticated ss1" "is_done r \<longrightarrow> is_done q" "w_sent w1 = w_sent w"
      using run_end [OF run _ dr] va Ok quiet(1) by (auto simp: quiet_def)
    note after = this
    have reg: "ss_registry ?ss = ?reg" by (simp add: Session_new_def)
    show ?thesis
    proof (cases "ss_authenticated ss1")
      case True
      from g [unfolded greeted_def prod.case st reg if_P [OF True]] obtain ls start ts rest bs where
        "list_all intermediate ls" "takes_answers (incoming (w_reads w)) start" "dialogue ?reg start ts rest" "cut_short ?reg rest bs"
        "said_bye ts \<longrightarrow> bs = []"
        "w_sent w2 = w_sent w1 @ wires (ls @ [LineOk []]) @ responses ts @ bs" "is_done q \<longrightarrow> bs = [] \<and> ended ts rest" by blast
      then show ?thesis unfolding run prod.case using True after by (simp del: map_append concat_append) blast
    next
      case False
      then show ?thesis using g [unfolded greeted_def prod.case st] after unfolding run prod.case by auto
    qed
  next
    case (Err e)
    then have "r = Fail e" "ss' = ?ss" "w' = w1" using run va by (simp_all add: Session_run_def)
    then show ?thesis using quiet(1) run greeting_lines [of "[]" 0] by (auto simp: Session_new_def quiet_def intro: exI [of _ "[]"])
  qed (use quiet in simp)
qed

text \<open>
  C2: A session follows the protocol. Whatever the application's handlers and hooks do and
  however the environment behaves, the bytes of a run are these, whether it succeeds or
  fails. Unless the client was authenticated and greeted, the run did not succeed and sent at
  most one response, the greeting, or a beginning of it. Otherwise it sent the greeting,
  ending in OK, and then for each command it took off the stream exactly one complete
  response, intermediate lines and one final line, in order and each of them a line that fits
  the wire and parses back. After these comes nothing, or, in a run that fails and has not
  answered BYE, a beginning of the response to the next command on the stream that stops
  before the end of its final line: no second final response can be sent for a command, and
  none without a command. The built-in commands answer as they should, lines read in between
  are answers to inquiries and never commands, nothing follows BYE; and a run that succeeds
  has answered everything: it ended with BYE or at the end of the stream.
\<close>

theorem session_dialogue:
  assumes "rearranges shuffle" and "reads_ok w"
  shows "case Session_run permits (Session_new peer s (register_all shuffle hs rg_new) hooks opts, w) of (r, (ss', w')) \<Rightarrow>
     if ss_authenticated ss' then
       \<exists>ls start ts rest bs. list_all intermediate ls \<and> takes_answers (incoming (w_reads w)) start
         \<and> dialogue (register_all shuffle hs rg_new) start ts rest
         \<and> cut_short (register_all shuffle hs rg_new) rest bs \<and> (if said_bye ts then bs = [] else True)
         \<and> w_sent w' = w_sent w @ wires (ls @ [LineOk []]) @ responses ts @ bs
         \<and> (if is_done r then bs = [] \<and> ended ts rest else True)
     else \<not> is_done r \<and> (\<exists>bs. greeting_part bs \<and> w_sent w' = w_sent w @ bs)"
  by (rule session_run_dialogue [OF assms])

theorem session_dialogue_witness:
  "case Session_run 10 (Session_new None () (register_all rev [] rg_new) DefaultHooks ServerOptions_default, sample_world)
   of (r, (ss' :: (unit, unit) Session, w')) \<Rightarrow>
     if ss_authenticated ss' then \<exists>ls ts rest bs. list_all intermediate ls \<and> cut_short (register_all rev [] rg_new :: (unit, unit) handler_call Registry) rest bs
       \<and> w_sent w' = wires (ls @ [LineOk []]) @ responses ts @ bs
     else \<not> is_done r"
proof -
  have re: "rearranges rev" by (simp add: rearranges_def)
  obtain r and ss' :: "(unit, unit) Session" and w' where run: "Session_run 10
      (Session_new None () (register_all rev [] rg_new) DefaultHooks ServerOptions_default, sample_world) = (r, (ss', w'))"
    by (metis prod_cases3)
  have "w_sent sample_world = []" by (simp add: sample_world_def)
  then show ?thesis
    using session_dialogue [OF re sample_ok(1), where permits = 10 and peer = "None :: unit option" and s = "()" and hs = "[]"
        and hooks = DefaultHooks and opts = ServerOptions_default]
    unfolding run prod.case by (simp only: append_Nil split: if_splits) blast+
qed

section \<open>Failure\<close>

text \<open>
  C15: A failed server session stays failed. Take any sequence of status lines, data,
  inquiries, reads of inquiry data and finishes by a handler: the successes come first; from
  the first failure on, be it an error, a timeout or a dropped future, every operation
  fails, the session is dead, and nothing more is read from or written to the stream.
\<close>

theorem server_fail_stop:
  assumes "io_inv (x, w)"
  shows "case server_io.run ops (x, w) of (oks, (x', w')) \<Rightarrow>
     \<exists>n \<le> length ops. oks = replicate n True @ replicate (length ops - n) False
       \<and> (if n = length ops then io_inv (x', w')
          else sv_dead x' \<and> quiet (snd (snd (server_io.run (take (Suc n) ops) (x, w)))) w')"
  by (rule server_io.run_fail_stop [OF assms])

definition sample_io :: ServerIo where
  "sample_io = \<lparr>sx_channel = ch_new, sx_machine = \<lparr>sm_state = SInquiry, sm_inquiry_origin = SHandler\<rparr>\<rparr>"

lemma sample_io_inv: "io_inv (sample_io, sample_world)" "\<not> sv_dead sample_io"
  using ch_new_inv sample_ok
  by (simp_all add: sample_io_def io_inv_def sv_inv_def sv_dead_def sm_dead_def sm_good_def)

theorem server_fail_stop_witness:
  "case server_io.run [SopData 5 [], SopStatus 5 [] []] (sample_io, sample_world) of (oks, (x', w')) \<Rightarrow>
     oks \<in> {[True, True], [True, False], [False, False]}"
proof -
  obtain oks x' w' where run: "server_io.run [SopData 5 [], SopStatus 5 [] []] (sample_io, sample_world) = (oks, (x', w'))"
    by (metis prod_cases3)
  obtain n where "n \<le> 2" "oks = replicate n True @ replicate (2 - n) False"
    using server_fail_stop [OF sample_io_inv(1), of "[SopData 5 [], SopStatus 5 [] []]", unfolded run prod.case]
    by (auto simp: numeral_2_eq_2)
  then have "oks \<in> {[True, True], [True, False], [False, False]}" by (auto simp: le_Suc_eq numeral_2_eq_2)
  then show ?thesis using run by simp
qed

section \<open>Inquiries\<close>

lemma answer_line:
  "takes_answer bs k raw rest \<Longrightarrow>
     (k = ReqEnd \<longrightarrow> raw = lit ''END'') \<and> (k = ReqCan \<longrightarrow> raw = lit ''CAN'') \<and> (k = ReqData \<longrightarrow> take 2 raw = lit ''D '')"
proof (induction rule: takes_answer.induct)
  case (here bs k raw rest)
  then show ?case
    using data_request [of raw] by (auto simp: takes_request_def request_kind_def bind_eq_Ok lit_def split: if_splits)
qed

text \<open>
  C6: An inquiry hands out exactly what the client answers, within the limit. When the
  next data of an inquiry is asked for, comments and empty lines are skipped and the next
  line decides: a data line gives its decoded bytes in a buffer of the inquiry's
  sensitivity and counts them, which never passes the limit; END completes the inquiry and
  CAN cancels it.
  Nothing is sent. Every other line, data beyond the limit, a bad escape, a timeout or a
  dropped future leaves the session dead with its channel closed and wiped.
\<close>

theorem server_inquiry_exact:
  assumes "io_inv (x, w)" and "sm_state (sx_machine x) = SInquiry" and "si_outcome q = None"
    and "si_received q \<le> si_limit q"
  shows "case si_next q (x, w) of (r, (x', w')) \<Rightarrow> w_sent w' = w_sent w \<and>
     (case r of
        Done (v, q') \<Rightarrow> sx_machine x' = sx_machine x \<and> si_received q' \<le> si_limit q' \<and> si_limit q' = si_limit q
          \<and> (\<exists>k raw. takes_answer (io_stream (x, w)) k raw (io_stream (x', w'))
              \<and> (case k of
                   ReqEnd \<Rightarrow> raw = lit ''END'' \<and> v = None \<and> si_outcome q' = Some Completed
                 | ReqCan \<Rightarrow> raw = lit ''CAN'' \<and> v = None \<and> si_outcome q' = Some InqCancelled
                 | ReqData \<Rightarrow> take 2 raw = lit ''D '' \<and> (\<exists>bs. decode (drop 2 raw) = Some bs \<and> v = Some (payload_in (si_sensitivity q) bs)
                     \<and> si_received q' = si_received q + length bs \<and> si_outcome q' = None)
                 | _ \<Rightarrow> False))
      | _ \<Rightarrow> sv_dead x' \<and> ch_wiped (sx_channel x') \<and> \<not> ch_open (sx_channel x'))"
proof -
  have inv: "sv_inv x" "reads_ok w" using assms(1) by (auto simp: io_inv_def)
  from si_next_spec [OF inv assms(3)] obtain r x' w' where
    sp: "si_next q (x, w) = (r, (x', w'))" "sv_inv x'" "w_sent w' = w_sent w" "sv_dead x' = (\<not> is_done r)"
      "\<And>v. r = Done v \<Longrightarrow> sx_machine x' = sx_machine x
         \<and> (\<exists>k raw. takes_answer (stream (sx_channel x) w) k raw (stream (sx_channel x') w') \<and> answer_gives q k raw v)"
    using assms(2) by blast
  show ?thesis
  proof (cases r)
    case (Done v)
    obtain p q' where v: "v = (p, q')" by force
    obtain k raw where k: "takes_answer (stream (sx_channel x) w) k raw (stream (sx_channel x') w')" "answer_gives q k raw (p, q')"
      "sx_machine x' = sx_machine x" using sp(5) [OF Done] v by blast
    have "si_received q' \<le> si_limit q' \<and> si_limit q' = si_limit q \<and> (case k of
         ReqEnd \<Rightarrow> raw = lit ''END'' \<and> p = None \<and> si_outcome q' = Some Completed
       | ReqCan \<Rightarrow> raw = lit ''CAN'' \<and> p = None \<and> si_outcome q' = Some InqCancelled
       | ReqData \<Rightarrow> take 2 raw = lit ''D '' \<and> (\<exists>bs. decode (drop 2 raw) = Some bs \<and> p = Some (payload_in (si_sensitivity q) bs)
           \<and> si_received q' = si_received q + length bs \<and> si_outcome q' = None)
       | _ \<Rightarrow> False)"
      using k(2) answer_line [OF k(1)] assms(3,4) by (cases k) (auto simp: answer_gives_def split: option.splits)
    then show ?thesis unfolding sp(1) prod.case Done v async.case using sp(3) k(1,3) by (auto simp: io_stream_def)
  qed (use sp in \<open>auto simp: sv_inv_def\<close>)
qed

definition sample_inquiry :: ServerInquiry where
  "sample_inquiry = \<lparr>si_deadline = 5, si_sensitivity = Secret, si_limit = 4, si_received = 1, si_outcome = None, si_finished = False\<rparr>"

theorem server_inquiry_exact_witness:
  "io_inv (sample_io, sample_world)
   \<and> (case si_next sample_inquiry (sample_io, sample_world) of (r, (x', w')) \<Rightarrow>
        w_sent w' = [] \<and> (\<forall>v q'. r = Done (v, q') \<longrightarrow> si_received q' \<le> 4))"
proof -
  have pre: "sm_state (sx_machine sample_io) = SInquiry" "si_outcome sample_inquiry = None" "si_received sample_inquiry \<le> si_limit sample_inquiry"
    and lim: "si_limit sample_inquiry = 4" "w_sent sample_world = []"
    by (simp_all add: sample_io_def sample_inquiry_def sample_world_def)
  show ?thesis
    using server_inquiry_exact [OF sample_io_inv(1) pre] sample_io_inv(1) lim
    by (auto split: prod.splits async.splits)
qed

section \<open>Final responses\<close>

lemma fatal_final:
  "\<not> answerable e \<Longrightarrow> \<exists>q. finalize e d g (ss, w) = (Fail q, (ss, w))"
  by (auto simp: answerable_def finalize_def split: option.splits HandlerError.splits)

text \<open>
  C21: The final response of an operation. A result without error is answered by a bare OK, a
  remote error by exactly its code and message, an internal error by the fixed text and
  nothing else; transport, protocol, state and limit errors are answered by nothing and end
  the session. The response is sent whole or the session fails, an error in the greeting
  ends the session too, and after a success the session is ready for the next command with
  its input untouched.
\<close>

theorem final_response:
  assumes "io_inv (ss_io ss, w)"
  shows "case finalize e d greeting (ss, w) of (r, (ss', w')) \<Rightarrow>
     let line = (case e of None \<Rightarrow> lit ''OK''
       | Some (HeRemote code message) \<Rightarrow> line_body (LineErr code message)
       | Some HeInternal \<Rightarrow> lit ''ERR 63 internal error'' | Some _ \<Rightarrow> []) in
     if line = [] then w_sent w' = w_sent w \<and> r = Fail (SvHandler (the e))
     else if is_done r then w_sent w' = w_sent w @ line @ [LF] \<and> io_stream (ss_io ss', w') = io_stream (ss_io ss, w)
       \<and> between (ss_io ss', w') \<and> (if greeting then e = None else True)
     else \<exists>n. w_sent w' = w_sent w @ take n (line @ [LF])"
proof -
  let ?line = "case e of None \<Rightarrow> lit ''OK'' | Some (HeRemote code message) \<Rightarrow> line_body (LineErr code message)
       | Some HeInternal \<Rightarrow> lit ''ERR 63 internal error'' | Some _ \<Rightarrow> []"
  obtain r ss' w' where fi: "finalize e d greeting (ss, w) = (r, (ss', w'))" by (metis prod_cases3)
  have err: "line_body (LineErr c m) \<noteq> []" for c m by (simp add: line_body_def lit_def)
  have internal: "line_body (LineErr INTERNAL (lit ''internal error'')) = lit ''ERR 63 internal error''"
    by (simp add: line_body_def INTERNAL_def lit_def dec.simps opt_field_def)
  have ok: "line_body (LineOk []) = lit ''OK''" by (simp add: line_body_def opt_field_def)
  show ?thesis
  proof (cases "answerable e")
    case True
    then have w: "wire (final_for e) = ?line @ [LF]" "?line \<noteq> []"
      using err internal ok by (auto simp: answerable_def final_for_def wire_def lit_def split: option.splits HandlerError.splits)
    note fc = finalize_cases [OF fi assms, unfolded w(1)]
    show ?thesis unfolding fi prod.case Let_def if_not_P [OF w(2)] using fc by (cases "is_done r") simp_all
  next
    case False
    then show ?thesis
      by (auto simp: answerable_def finalize_def fi Let_def split: option.splits HandlerError.splits)
  qed
qed

definition sample_serving :: "(unit, unit) Session" where
  "sample_serving = (Session_new None () rg_new DefaultHooks ServerOptions_default)\<lparr>ss_io := sample_io\<rparr>"

theorem final_response_witness:
  "case finalize (Some HeInternal) 5 False (sample_serving, sample_world) of (r, (ss', w')) \<Rightarrow>
     \<exists>n. w_sent w' = take n (lit ''ERR 63 internal error'' @ [LF])"
proof -
  have inv: "io_inv (ss_io sample_serving, sample_world)" using sample_io_inv(1) by (simp add: sample_serving_def)
  have w: "w_sent sample_world = []" and ne: "lit ''ERR 63 internal error'' \<noteq> []" by (simp_all add: sample_world_def lit_def)
  obtain r and ss' :: "(unit, unit) Session" and w' where
    fi: "finalize (Some HeInternal) 5 False (sample_serving, sample_world) = (r, (ss', w'))" by (metis prod_cases3)
  have "is_done r \<Longrightarrow> w_sent w' = take 22 (lit ''ERR 63 internal error'' @ [LF])"
    using final_response [OF inv, where e = "Some HeInternal" and d = 5 and greeting = False] ne unfolding fi prod.case Let_def by (simp add: w lit_def)
  moreover have "\<not> is_done r \<Longrightarrow> \<exists>n. w_sent w' = take n (lit ''ERR 63 internal error'' @ [LF])"
    using final_response [OF inv, where e = "Some HeInternal" and d = 5 and greeting = False] ne unfolding fi prod.case Let_def by (simp add: w)
  ultimately show ?thesis unfolding fi prod.case by blast
qed

section \<open>HELP\<close>

lemma COMMANDS_utf8: "e \<in> set COMMANDS \<Longrightarrow> utf8_valid (fst e) \<and> utf8_valid (snd e)"
  by (auto simp: COMMANDS_def lit_def intro!: ascii_utf8_valid)

text \<open>
  C28: HELP lists every command. For a registry built by registering any handlers with
  well-formed descriptions, the listing is one group of comment lines per command, the
  built-in ones first and then every registered one exactly once; the texts of a group
  joined are the name, a space and the description, cut at character boundaries into
  pieces that fit on a line. It is sent whole, or the session is dead and only a beginning
  was sent.
\<close>

theorem help_lists_commands:
  assumes "rearranges shuffle" and "\<forall>h \<in> set hs. utf8_valid (hd_description h)"
    and "io_inv (x, w)" and "\<not> sv_dead x"
  shows "\<exists>own groups. set own = {(n, hd_description h) |n h. rg_get (register_all shuffle hs rg_new) n = Some h}
     \<and> distinct (map fst own)
     \<and> map concat groups = map (\<lambda>(n, ds). n @ lit '' '' @ ds) (COMMANDS @ own)
     \<and> list_all (list_all (\<lambda>t. length t \<le> 997)) groups
     \<and> (case help_listing (register_all shuffle hs rg_new) d (x, w) of (r, (x', w')) \<Rightarrow>
          let sent = concat (map (\<lambda>t. lit ''# '' @ t @ [LF]) (concat groups)) in
          if is_done r then w_sent w' = w_sent w @ sent
          else sv_dead x' \<and> (\<exists>n. w_sent w' = w_sent w @ take n sent))"
proof -
  let ?reg = "register_all shuffle hs rg_new"
  note rg = registered_facts [OF assms(1), of hs]
  define own where "own = map (\<lambda>(name, h). (name, hd_description h)) (rg_entries ?reg)"
  define groups where "groups = map entry_texts (COMMANDS @ own)"
  have get: "rg_get ?reg n = Some h \<Longrightarrow> h \<in> set hs" for n h
  proof -
    have new: "rg_inv (rg_new :: 'a Registry)" by (simp add: rg_inv_def rg_new_def)
    assume "rg_get ?reg n = Some h"
    then have "find (\<lambda>h. admissible_handler h \<and> hd_name h = n) hs = Some h"
      using registry.first_wins [OF new, of shuffle hs n, folded register_all_table, unfolded reordering_id [OF assms(1)]]
      by (simp add: rg_get_def rg_new_def)
    then show "h \<in> set hs" by (auto simp: find_Some_iff)
  qed
  have own: "set own = {(n, hd_description h) |n h. rg_get ?reg n = Some h}" "map fst own = map fst (rg_entries ?reg)"
    using entries_set [OF rg(1)] by (force simp: own_def)+
  have "utf8_valid (fst e) \<and> utf8_valid (snd e)" if "e \<in> set (COMMANDS @ own)" for e
  proof (cases "e \<in> set COMMANDS")
    case False
    then show ?thesis
      using that own(1) get assms(2) rg(2) entries_set [OF rg(1)] by (auto simp: rg_clean_def list_all_iff intro: token_utf8)
  qed (rule COMMANDS_utf8)
  then have "map concat groups = map (\<lambda>(n, ds). n @ lit '' '' @ ds) (COMMANDS @ own)"
    "list_all (list_all (\<lambda>t. length t \<le> 997)) groups"
    using entry_texts_facts(1) entry_texts_facts(2) [unfolded list_all_iff]
    by (auto simp: groups_def list_all_iff lit_def, blast+)
  moreover obtain r x' w' where h: "help_listing ?reg d (x, w) = (r, (x', w'))" "emits (help_lines ?reg) (x, w) r (x', w')"
    using help_emits [OF assms(3,4) rg(2)] by blast
  moreover have "wires (help_lines ?reg) = concat (map (\<lambda>t. lit ''# '' @ t @ [LF]) (concat groups))"
    by (simp add: help_lines_def groups_def own_def comment_lines_def wire_def line_body_def lit_def map_concat o_def)
  moreover have "\<exists>n. w_sent w' = w_sent w @ take n (wires (help_lines ?reg))" if "\<not> is_done r"
    using h(2) that beginning_cut by (fastforce simp: emits_def)
  moreover have "distinct (map fst own)" using entries_names [OF rg(1)] rg(1) own(2) by (simp add: rg_inv_def)
  ultimately show ?thesis using own(1) by (intro exI [of _ own] exI [of _ groups]) (auto simp: emits_def Let_def)
qed

theorem help_lists_commands_witness:
  "\<exists>own groups. fst ` set own = {lit ''ECHO''} \<and> map concat groups = map (\<lambda>(n, ds). n @ lit '' '' @ ds) (COMMANDS @ own)
     \<and> (case help_listing (register_all rev [\<lparr>hd_name = lit ''ECHO'', hd_description = lit ''Echo'', hd_call = ()\<rparr>] rg_new) 5
          (sample_io, sample_world) of (r, (x', w')) \<Rightarrow>
          is_done r \<longrightarrow> w_sent w' = concat (map (\<lambda>t. lit ''# '' @ t @ [LF]) (concat groups)))"
proof -
  let ?h = "\<lparr>hd_name = lit ''ECHO'', hd_description = lit ''Echo'', hd_call = ()\<rparr>"
  have re: "rearranges rev" by (simp add: rearranges_def)
  have u: "\<forall>h \<in> set [?h]. utf8_valid (hd_description h)" by (simp add: lit_def ascii_utf8_valid)
  have "rg_get (register_all rev [?h] rg_new) n = (if n = lit ''ECHO'' then Some ?h else None)" for n
    using register_eq [of rev ?h rg_new]
    by (auto simp: rg_get_def rg_new_def admissible_handler_def reserved_names_def lit_def token_def is_ascii_graphic_def
          MAX_LINE_BYTES_def clean_def forbidden_def)
  moreover have "w_sent sample_world = []" by (simp add: sample_world_def)
  ultimately show ?thesis
    using help_lists_commands [OF re u sample_io_inv, of 5]
    by (elim exE conjE, intro exI conjI) (auto simp: Let_def split: prod.splits if_splits)
qed

end
