(* ===== verification/Server_Serve.thy ===== *)
theory Server_Serve
  imports Server_Session
begin

text \<open>
  The accept loop (\<open>assuan-server/src/server.rs\<close>). \<open>Server::serve\<close> runs concurrently with
  the sessions it spawned, so it is a state machine that reacts to the runtime: the serving
  task is polled, a session ends, an aborted session is dropped when it yields, the grace
  period runs out, the caller drops the serving future.
  The two biased selections are written out in their order: shutdown, a finished session,
  then a permit or an accepted connection. Every session is a run of \<open>Session_run\<close> on the
  connection it was spawned with and ends with the result of that run.
\<close>

section \<open>The server\<close>

text \<open>
  The state factory is application code that may answer differently each time it is
  called, and may panic; it is given the number of the call.
\<close>

record ('s, 'p) Server =
  sr_factory :: "nat \<Rightarrow> 's option"
  sr_registry :: "('s, 'p) handler_call Registry"
  sr_hooks :: "('s, 'p) SessionHooks"
  sr_options :: ServerOptions

definition Server_new :: "(nat \<Rightarrow> 's option) \<Rightarrow> ServerOptions \<Rightarrow> ('s, 'p) Server" where
  "Server_new factory opts = \<lparr>sr_factory = factory, sr_registry = rg_new, sr_hooks = DefaultHooks, sr_options = opts\<rparr>"

definition sr_register ::
  "(bytes list \<Rightarrow> bytes list) \<Rightarrow> ('s, 'p) handler_call Handler \<Rightarrow> ('s, 'p) Server \<Rightarrow> (unit, RegistryError) result \<times> ('s, 'p) Server" where
  "sr_register shuffle h srv =
     (case rg_register shuffle h (sr_registry srv) of (r, reg) \<Rightarrow> (r, srv\<lparr>sr_registry := reg\<rparr>))"

definition sr_set_hooks :: "('s, 'p) SessionHooks \<Rightarrow> ('s, 'p) Server \<Rightarrow> ('s, 'p) Server" where
  "sr_set_hooks hooks srv = srv\<lparr>sr_hooks := hooks\<rparr>"

section \<open>Session tasks\<close>

datatype joined = Joined "(unit, ServerError) result" | JoinCancelled | JoinPanic

datatype log_entry = SessionEnded SessionEnd | SessionTaskEnded string

fun record_joined :: "joined \<Rightarrow> log_entry list" where
  "record_joined (Joined (Ok ())) = []"
| "record_joined (Joined (Err error)) = [SessionEnded (end_reason error)]"
| "record_joined (Joined Panic) = [SessionTaskEnded ''panic'']"
| "record_joined JoinCancelled = [SessionTaskEnded ''cancelled'']"
| "record_joined JoinPanic = [SessionTaskEnded ''panic'']"

text \<open>
  A task of the set: the connection it owns, the number of its factory call, whether it was
  told to abort, and its result once it has one. It holds its permit until then.
\<close>

record 'p task =
  tk_peer :: "'p option"
  tk_world :: world
  tk_number :: nat
  tk_abort :: bool
  tk_result :: "joined option"

definition session_task :: "nat \<Rightarrow> ('s, 'p) Server \<Rightarrow> 'p task \<Rightarrow> joined" where
  "session_task max_permits srv t =
     (case sr_factory srv (tk_number t) of
        None \<Rightarrow> JoinPanic
      | Some s \<Rightarrow>
          (case fst (Session_run max_permits
                      (Session_new (tk_peer t) s (sr_registry srv) (sr_hooks srv) (sr_options srv), tk_world t)) of
             Done _ \<Rightarrow> Joined (Ok ())
           | Fail e \<Rightarrow> Joined (Err e)
           | Abort \<Rightarrow> JoinPanic
           | Cancelled \<Rightarrow> JoinCancelled))"

definition finished :: "'p task \<Rightarrow> bool" where
  "finished t \<longleftrightarrow> tk_result t \<noteq> None"

text \<open>Which finished task \<open>join_next\<close> gives is up to the runtime, which proposes one.\<close>

definition join_next :: "nat \<Rightarrow> 'p task list \<Rightarrow> (joined \<times> 'p task list) option" where
  "join_next pick ts =
     (let k = (if pick < length ts \<and> finished (ts ! pick) then pick else length (takeWhile (\<lambda>t. \<not> finished t) ts))
      in if k < length ts then Some (the (tk_result (ts ! k)), take k ts @ drop (Suc k) ts) else None)"

section \<open>The accept loop\<close>

text \<open>
  Where the serving task stands: waiting for a permit, waiting for a connection with a
  permit in hand, after the loop with its result, draining until the deadline, draining
  after the abort, returned, or dropped by its caller before it returned. \<open>sl_idle\<close> counts
  the permits of the semaphore that nobody holds. \<open>sl_tasks\<close> are the tasks of the set and,
  once the set is dropped, the ones it left behind.
\<close>

datatype phase =
    Acquiring
  | Accepting
  | Stopped "(unit, ServerError) result"
  | Draining "(unit, ServerError) result"
  | Aborting "(unit, ServerError) result"
  | Returned "(unit, ServerError) result"
  | Dropped

record 'p Serve =
  sl_phase :: phase
  sl_idle :: nat
  sl_tasks :: "'p task list"
  sl_spawned :: nat
  sl_log :: "log_entry list"

definition joins :: "joined \<times> 'p task list \<Rightarrow> 'p Serve \<Rightarrow> 'p Serve" where
  "joins j v = v\<lparr>sl_tasks := snd j, sl_log := sl_log v @ record_joined (fst j)\<rparr>"

definition in_hand :: "phase \<Rightarrow> nat" where
  "in_hand p = (if p = Accepting then 1 else 0)"

definition abort_all :: "'p task list \<Rightarrow> 'p task list" where
  "abort_all ts = map (\<lambda>t. t\<lparr>tk_abort := True\<rparr>) ts"

text \<open>
  Leaving \<open>serve\<close> early, by an early return, a panic or a drop, drops what it owns: a permit
  in hand goes back to the semaphore, and the set tells its tasks to abort but joins none.
\<close>

definition leaves :: "phase \<Rightarrow> 'p Serve \<Rightarrow> 'p Serve" where
  "leaves p v = v\<lparr>sl_phase := p, sl_idle := sl_idle v + in_hand (sl_phase v), sl_tasks := abort_all (sl_tasks v)\<rparr>"

text \<open>What the shutdown future, which is application code, answers when it is polled.\<close>

datatype shutdown_poll = ShutdownPending | ShutdownReady | ShutdownPanic

text \<open>
  One poll of the serving task. The runtime says what the shutdown future answers if it is
  polled, proposes a finished task, and gives what the acceptor answers if it is asked and
  the time. The semaphore is never closed, so acquiring a permit does not fail. A shutdown
  deadline that cannot be represented returns at once.
\<close>

definition serve_poll ::
  "('s, 'p) Server \<Rightarrow> shutdown_poll \<Rightarrow> nat \<Rightarrow> ('p option \<times> world, TransportError) result option \<Rightarrow> world \<Rightarrow> 'p Serve \<Rightarrow> 'p Serve" where
  "serve_poll srv shutdown pick accepted clock v =
     (case sl_phase v of
        Acquiring \<Rightarrow>
          (case shutdown of
             ShutdownReady \<Rightarrow> v\<lparr>sl_phase := Stopped (Ok ())\<rparr>
           | ShutdownPanic \<Rightarrow> leaves (Returned Panic) v
           | ShutdownPending \<Rightarrow>
               (case join_next pick (sl_tasks v) of
                  Some j \<Rightarrow> joins j v
                | None \<Rightarrow> if sl_idle v > 0 then v\<lparr>sl_phase := Accepting, sl_idle := sl_idle v - 1\<rparr> else v))
      | Accepting \<Rightarrow>
          (case shutdown of
             ShutdownReady \<Rightarrow> v\<lparr>sl_phase := Stopped (Ok ()), sl_idle := sl_idle v + 1\<rparr>
           | ShutdownPanic \<Rightarrow> leaves (Returned Panic) v
           | ShutdownPending \<Rightarrow>
               (case join_next pick (sl_tasks v) of
                  Some j \<Rightarrow> joins j v
                | None \<Rightarrow>
                    (case accepted of
                       None \<Rightarrow> v
                     | Some (Ok (peer, w)) \<Rightarrow>
                         v\<lparr>sl_phase := Acquiring, sl_spawned := sl_spawned v + 1,
                           sl_tasks := sl_tasks v @ [\<lparr>tk_peer = peer, tk_world = w, tk_number = sl_spawned v,
                                                      tk_abort = False, tk_result = None\<rparr>]\<rparr>
                     | Some (Err e) \<Rightarrow> v\<lparr>sl_phase := Stopped (Err (SvTransport e)), sl_idle := sl_idle v + 1\<rparr>
                     | Some Panic \<Rightarrow> leaves (Returned Panic) v)))
      | Stopped r \<Rightarrow>
          (case fst (so_deadline (so_shutdown_timeout (sr_options srv)) clock) of
             Ok _ \<Rightarrow> v\<lparr>sl_phase := Draining r\<rparr>
           | Err e \<Rightarrow> leaves (Returned (Err e)) v
           | Panic \<Rightarrow> leaves (Returned Panic) v)
      | Draining r \<Rightarrow>
          if sl_tasks v = [] then v\<lparr>sl_phase := Returned r\<rparr>
          else (case join_next pick (sl_tasks v) of Some j \<Rightarrow> joins j v | None \<Rightarrow> v)
      | Aborting r \<Rightarrow>
          if sl_tasks v = [] then v\<lparr>sl_phase := Returned r\<rparr>
          else (case join_next pick (sl_tasks v) of Some j \<Rightarrow> joins j v | None \<Rightarrow> v)
      | Returned r \<Rightarrow> v
      | Dropped \<Rightarrow> v)"

text \<open>
  What the tasks, the timer and the caller do between polls. A task that was told to abort
  is dropped when it yields, and not before; it may also run to its end first.
\<close>

definition ends_with :: "nat \<Rightarrow> joined \<Rightarrow> 'p Serve \<Rightarrow> 'p Serve" where
  "ends_with i r v =
     v\<lparr>sl_tasks := (sl_tasks v)[i := (sl_tasks v ! i)\<lparr>tk_result := Some r\<rparr>], sl_idle := sl_idle v + 1\<rparr>"

definition task_ends :: "nat \<Rightarrow> ('s, 'p) Server \<Rightarrow> nat \<Rightarrow> 'p Serve \<Rightarrow> 'p Serve" where
  "task_ends max_permits srv i v =
     (if i < length (sl_tasks v) \<and> \<not> finished (sl_tasks v ! i)
         \<and> (session_task max_permits srv (sl_tasks v ! i) \<noteq> JoinCancelled \<or> tk_abort (sl_tasks v ! i))
      then ends_with i (session_task max_permits srv (sl_tasks v ! i)) v else v)"

definition task_dropped :: "nat \<Rightarrow> 'p Serve \<Rightarrow> 'p Serve" where
  "task_dropped i v =
     (if i < length (sl_tasks v) \<and> \<not> finished (sl_tasks v ! i) \<and> tk_abort (sl_tasks v ! i)
      then ends_with i JoinCancelled v else v)"

definition grace_over :: "'p Serve \<Rightarrow> 'p Serve" where
  "grace_over v =
     (case sl_phase v of
        Draining r \<Rightarrow> v\<lparr>sl_phase := Aborting r, sl_tasks := abort_all (sl_tasks v)\<rparr>
      | _ \<Rightarrow> v)"

definition serve_dropped :: "'p Serve \<Rightarrow> 'p Serve" where
  "serve_dropped v = (case sl_phase v of Returned r \<Rightarrow> v | _ \<Rightarrow> leaves Dropped v)"

datatype 'p happening =
    Poll shutdown_poll nat "('p option \<times> world, TransportError) result option" world
  | TaskEnds nat
  | TaskDropped nat
  | GraceOver
  | ServeDropped

fun serve_step :: "nat \<Rightarrow> ('s, 'p) Server \<Rightarrow> 'p happening \<Rightarrow> 'p Serve \<Rightarrow> 'p Serve" where
  "serve_step n srv (Poll shutdown pick accepted clock) v = serve_poll srv shutdown pick accepted clock v"
| "serve_step n srv (TaskEnds i) v = task_ends n srv i v"
| "serve_step n srv (TaskDropped i) v = task_dropped i v"
| "serve_step n srv GraceOver v = grace_over v"
| "serve_step n srv ServeDropped v = serve_dropped v"

definition serve_start :: "nat \<Rightarrow> ('s, 'p) Server \<Rightarrow> world \<Rightarrow> 'p Serve" where
  "serve_start max_permits srv w =
     \<lparr>sl_phase = (case fst (so_validate max_permits (sr_options srv) w) of
          Ok _ \<Rightarrow> Acquiring | Err e \<Rightarrow> Returned (Err e) | Panic \<Rightarrow> Returned Panic),
      sl_idle = so_max_sessions (sr_options srv), sl_tasks = [], sl_spawned = 0, sl_log = []\<rparr>"

definition serve :: "nat \<Rightarrow> ('s, 'p) Server \<Rightarrow> world \<Rightarrow> 'p happening list \<Rightarrow> 'p Serve" where
  "serve max_permits srv w hs = fold (serve_step max_permits srv) hs (serve_start max_permits srv w)"

lemma serve_snoc: "serve m srv w (hs @ [h]) = serve_step m srv h (serve m srv w hs)"
  by (simp add: serve_def)

lemma serve_append: "serve m srv w (hs @ es) = fold (serve_step m srv) es (serve m srv w hs)"
  by (simp add: serve_def)

section \<open>Permits\<close>

definition running :: "'p task list \<Rightarrow> nat" where
  "running ts = length (filter (\<lambda>t. \<not> finished t) ts)"

lemma running_simps [simp]:
  "running [] = 0" "running (t # ts) = (if finished t then 0 else 1) + running ts" "running (ts @ us) = running ts + running us"
  by (simp_all add: running_def)

lemma running_all: "running ts = length ts \<longleftrightarrow> (\<forall>t \<in> set ts. \<not> finished t)"
  unfolding running_def by (metis (mono_tags, lifting) filter_True length_filter_less nat_neq_iff)

lemma running_split: "k < length ts \<Longrightarrow> running ts = running (take k ts) + (if finished (ts ! k) then 0 else 1) + running (drop (Suc k) ts)"
  by (subst (1) id_take_nth_drop [of k ts]) simp_all

lemma finished_found:
  assumes "length (takeWhile (\<lambda>t. \<not> finished t) ts) < length ts"
  shows "finished (ts ! length (takeWhile (\<lambda>t. \<not> finished t) ts))"
  using nth_length_takeWhile [OF assms] by simp

lemma join_next_Some:
  assumes "join_next pick ts = Some (r, us)"
  shows "running us = running ts \<and> Suc (length us) = length ts
    \<and> (\<exists>t \<in> set ts. tk_result t = Some r) \<and> set us \<subseteq> set ts"
proof -
  define k where "k = (if pick < length ts \<and> finished (ts ! pick) then pick else length (takeWhile (\<lambda>t. \<not> finished t) ts))"
  have k: "k < length ts" "r = the (tk_result (ts ! k))" "us = take k ts @ drop (Suc k) ts"
    using assms by (auto simp: join_next_def k_def Let_def split: if_splits)
  have f: "finished (ts ! k)" using k(1) finished_found by (auto simp: k_def split: if_splits)
  then have "tk_result (ts ! k) = Some r" using k(2) by (auto simp: finished_def)
  then have "\<exists>t \<in> set ts. tk_result t = Some r" using k(1) by (intro bexI [of _ "ts ! k"]) auto
  moreover have "running us = running ts" using running_split [OF k(1)] f k(3) by simp
  moreover have "set us \<subseteq> set ts" using k(3) set_take_subset [of k ts] set_drop_subset [of "Suc k" ts] by auto
  ultimately show ?thesis using k(1,3) by auto
qed

lemma join_next_None: "join_next pick ts = None \<longleftrightarrow> running ts = length ts"
proof -
  have "length (takeWhile (\<lambda>t. \<not> finished t) ts) < length ts \<longleftrightarrow> (\<exists>t \<in> set ts. finished t)"
    by (induction ts) auto
  moreover have "pick < length ts \<and> finished (ts ! pick) \<longrightarrow> (\<exists>t \<in> set ts. finished t)" by auto
  ultimately show ?thesis by (auto simp: join_next_def Let_def running_all)
qed

text \<open>
  At every moment each permit is idle, in the hand of the serving task, or with a session
  that runs, also with one that was left behind.
\<close>

definition permits_inv :: "nat \<Rightarrow> 'p Serve \<Rightarrow> bool" where
  "permits_inv n v \<longleftrightarrow> sl_idle v + in_hand (sl_phase v) + running (sl_tasks v) = n"

lemma abort_all_simps [simp]:
  "running (abort_all ts) = running ts" "length (abort_all ts) = length ts" "abort_all ts = [] \<longleftrightarrow> ts = []"
  "t \<in> set (abort_all ts) \<Longrightarrow> tk_abort t" "(\<forall>t \<in> set (abort_all ts). finished t) \<longleftrightarrow> (\<forall>t \<in> set ts. finished t)"
  by (auto simp: abort_all_def running_def finished_def filter_map o_def)

lemma leaves_permits: "permits_inv n v \<Longrightarrow> p \<noteq> Accepting \<Longrightarrow> permits_inv n (leaves p v)"
  by (simp add: permits_inv_def leaves_def in_hand_def)

lemma joins_permits: "permits_inv n v \<Longrightarrow> join_next pick (sl_tasks v) = Some j \<Longrightarrow> permits_inv n (joins j v)"
  using join_next_Some [of pick "sl_tasks v" "fst j" "snd j"] by (auto simp: permits_inv_def joins_def)

lemma poll_permits:
  assumes "permits_inv n v"
  shows "permits_inv n (serve_poll srv sd pick acc w v)"
proof (cases "sl_phase v")
  case Accepting
  then show ?thesis
    using assms joins_permits [OF assms, of pick] leaves_permits [OF assms]
    by (auto simp: serve_poll_def split: shutdown_poll.splits option.splits result.splits)
       (auto simp: permits_inv_def in_hand_def finished_def)
qed (use assms joins_permits [OF assms, of pick] leaves_permits [OF assms] in
  \<open>auto simp: serve_poll_def split: shutdown_poll.splits option.splits result.splits, auto simp: permits_inv_def in_hand_def\<close>)

lemma ends_permits:
  assumes "permits_inv n v" and "i < length (sl_tasks v)" and "\<not> finished (sl_tasks v ! i)"
  shows "permits_inv n (ends_with i r v)"
proof -
  let ?t = "(sl_tasks v ! i)\<lparr>tk_result := Some r\<rparr>"
  have "running ((sl_tasks v)[i := ?t]) + 1 = running (sl_tasks v)"
    using running_split [of i "(sl_tasks v)[i := ?t]"] running_split [OF assms(2)] assms(2,3) by (simp add: finished_def)
  then show ?thesis using assms(1,2) by (auto simp: permits_inv_def ends_with_def)
qed

lemma step_permits: "permits_inv n v \<Longrightarrow> permits_inv n (serve_step m srv h v)"
  by (cases h)
     (auto simp: poll_permits ends_permits task_ends_def task_dropped_def serve_dropped_def leaves_permits grace_over_def split: phase.splits,
      auto simp: permits_inv_def in_hand_def)

lemma start_permits: "permits_inv (so_max_sessions (sr_options srv)) (serve_start m srv w)"
  by (auto simp: permits_inv_def serve_start_def in_hand_def split: result.splits)

lemma serve_keeps:
  assumes "P (serve_start m srv w)" and "\<And>h v. P v \<Longrightarrow> P (serve_step m srv h v)"
  shows "P (serve m srv w hs)"
  by (induction hs rule: rev_induct) (use assms in \<open>simp_all add: serve_snoc\<close>, simp add: serve_def)

text \<open>Which tasks may be left, by how serving ended.\<close>

definition left_behind :: "'p Serve \<Rightarrow> bool" where
  "left_behind v \<longleftrightarrow>
     (case sl_phase v of
        Aborting _ \<Rightarrow> \<forall>t \<in> set (sl_tasks v). tk_abort t
      | Returned (Ok _) \<Rightarrow> sl_tasks v = []
      | Returned (Err (SvTransport _)) \<Rightarrow> sl_tasks v = []
      | Returned _ \<Rightarrow> \<forall>t \<in> set (sl_tasks v). tk_abort t
      | Dropped \<Rightarrow> \<forall>t \<in> set (sl_tasks v). tk_abort t
      | _ \<Rightarrow> True)"

lemma so_deadline_err: "so_deadline d w = (Err e, w') \<Longrightarrow> e = SvInvalidOptions"
  by (auto simp: so_deadline_def split: if_splits prod.splits)

lemma so_deadline_fst: "fst (so_deadline d w) \<noteq> Panic" "fst (so_deadline d w) = Err e \<Longrightarrow> e = SvInvalidOptions"
  using so_deadline_err by (auto simp: so_deadline_def split: if_splits prod.splits)

lemma empty_left: "sl_tasks v = [] \<Longrightarrow> left_behind v"
  by (auto simp: left_behind_def split: phase.splits result.splits ServerError.splits)

lemma leaves_left: "p \<in> {Returned Panic, Returned (Err SvInvalidOptions), Dropped} \<Longrightarrow> left_behind (leaves p v)"
  by (auto simp: left_behind_def leaves_def)

lemma joins_left:
  assumes "left_behind v" and "join_next pick (sl_tasks v) = Some j"
  shows "left_behind (joins j v)"
  using join_next_Some [of pick "sl_tasks v" "fst j" "snd j"] assms
  by (auto simp: left_behind_def joins_def split: phase.splits result.splits ServerError.splits)

lemma poll_left:
  assumes "left_behind v"
  shows "left_behind (serve_poll srv sd pick acc w v)"
proof (cases "sl_phase v")
  case (Stopped r)
  then show ?thesis
    using so_deadline_fst [of "so_shutdown_timeout (sr_options srv)" w]
    by (auto simp: serve_poll_def leaves_left split: result.splits) (simp add: left_behind_def)
next
  case (Draining r)
  then show ?thesis
    using assms joins_left [OF assms, of pick] empty_left [of "v\<lparr>sl_phase := Returned r\<rparr>"] by (auto simp: serve_poll_def split: option.splits)
next
  case (Aborting r)
  then show ?thesis
    using assms joins_left [OF assms, of pick] empty_left [of "v\<lparr>sl_phase := Returned r\<rparr>"] by (auto simp: serve_poll_def split: option.splits)
qed (use assms joins_left [OF assms, of pick] in
  \<open>auto simp: serve_poll_def leaves_left split: shutdown_poll.splits option.splits result.splits, auto simp: left_behind_def\<close>)

lemma ends_left:
  assumes "left_behind v" and "i < length (sl_tasks v)"
  shows "left_behind (ends_with i r v)"
proof -
  have "\<forall>t \<in> set ((sl_tasks v)[i := (sl_tasks v ! i)\<lparr>tk_result := Some r\<rparr>]). tk_abort t" if "\<forall>t \<in> set (sl_tasks v). tk_abort t"
    using that assms(2) set_update_subset_insert [of "sl_tasks v" i] by fastforce
  then show ?thesis
    using assms by (auto simp: left_behind_def ends_with_def split: phase.splits result.splits ServerError.splits)
qed

lemma step_left: "left_behind v \<Longrightarrow> left_behind (serve_step m srv h v)"
  by (cases h)
     (auto simp: poll_left ends_left task_ends_def task_dropped_def serve_dropped_def leaves_left grace_over_def split: phase.splits,
      auto simp: left_behind_def)

text \<open>
  C30: The server never runs more sessions than configured. Whatever connections arrive, and
  in whatever order sessions end and the serving task is polled or dropped, at most the
  configured number of sessions run at a time, those that outlive serving included; the
  acceptor is asked for a connection only while a permit for it is in hand; and no permit is
  lost or made up. When serving returns success or an error of the acceptor, every session
  has ended and was joined. When it ends in another way, by a shutdown deadline that cannot
  be represented, a panic or a drop, sessions may be left, but each was told to abort.
\<close>

theorem serve_bounded:
  "let v = serve max_permits srv w happenings; limit = so_max_sessions (sr_options srv) in
     running (sl_tasks v) \<le> limit
     \<and> (if sl_phase v = Accepting then running (sl_tasks v) < limit else True)
     \<and> sl_idle v + in_hand (sl_phase v) + running (sl_tasks v) = limit
     \<and> (case sl_phase v of
          Returned (Ok _) \<Rightarrow> sl_tasks v = []
        | Returned (Err (SvTransport _)) \<Rightarrow> sl_tasks v = []
        | Returned _ \<Rightarrow> list_all tk_abort (sl_tasks v)
        | Dropped \<Rightarrow> list_all tk_abort (sl_tasks v)
        | _ \<Rightarrow> True)"
proof -
  have "permits_inv (so_max_sessions (sr_options srv)) (serve max_permits srv w happenings)"
    by (rule serve_keeps [where P = "permits_inv (so_max_sessions (sr_options srv))", OF start_permits step_permits])
  moreover have "left_behind (serve max_permits srv w happenings)"
    by (rule serve_keeps [where P = left_behind, OF _ step_left]) (simp add: empty_left serve_start_def)
  ultimately show ?thesis
    by (auto simp: permits_inv_def left_behind_def Let_def in_hand_def list_all_iff split: if_splits phase.splits result.splits ServerError.splits)
qed

section \<open>Shutdown\<close>

text \<open>
  Once the loop has ended with a result, serving stays on the way to returning it, as long as
  its future is kept and the shutdown deadline can be represented.
\<close>

definition closing :: "(unit, ServerError) result \<Rightarrow> 'p Serve \<Rightarrow> bool" where
  "closing r v \<longleftrightarrow> sl_phase v \<in> {Stopped r, Draining r, Aborting r} \<or> sl_phase v = Returned r \<and> sl_tasks v = []"

fun undisturbed :: "('s, 'p) Server \<Rightarrow> 'p happening \<Rightarrow> bool" where
  "undisturbed srv (Poll sd pick acc clock) = is_ok (fst (so_deadline (so_shutdown_timeout (sr_options srv)) clock))"
| "undisturbed srv ServeDropped = False"
| "undisturbed srv _ = True"

fun is_poll :: "'p happening \<Rightarrow> bool" where
  "is_poll (Poll sd pick acc clock) = True"
| "is_poll _ = False"

text \<open>The polls it still takes when every session has ended.\<close>

definition polls_left :: "'p Serve \<Rightarrow> nat" where
  "polls_left v = (case sl_phase v of Returned _ \<Rightarrow> 0 | Stopped _ \<Rightarrow> length (sl_tasks v) + 2 | _ \<Rightarrow> length (sl_tasks v) + 1)"

lemma poll_closing:
  assumes "closing r v" and "is_ok (fst (so_deadline (so_shutdown_timeout (sr_options srv)) clock))"
  shows "closing r (serve_poll srv sd pick acc clock v)"
proof -
  consider "sl_phase v = Stopped r" | "sl_phase v = Draining r" | "sl_phase v = Aborting r" | "sl_phase v = Returned r" "sl_tasks v = []"
    using assms(1) by (auto simp: closing_def)
  then show ?thesis
    by cases (use assms(2) in \<open>auto simp: serve_poll_def is_ok_def closing_def joins_def split: result.splits option.splits\<close>)
qed

lemma ends_closing: "closing r v \<Longrightarrow> i < length (sl_tasks v) \<Longrightarrow> closing r (ends_with i q v)"
  by (auto simp: closing_def ends_with_def)

lemma step_closing:
  assumes "closing r v" and "undisturbed srv h"
  shows "closing r (serve_step m srv h v)"
proof (cases h)
  case GraceOver
  then show ?thesis using assms(1) by (auto simp: closing_def grace_over_def)
qed (use assms in \<open>auto simp: poll_closing ends_closing task_ends_def task_dropped_def\<close>)

text \<open>With every session ended, each poll joins one, and the last one returns.\<close>

lemma poll_progress:
  assumes "closing r v" and "\<forall>t \<in> set (sl_tasks v). finished t"
    and ok: "is_ok (fst (so_deadline (so_shutdown_timeout (sr_options srv)) clock))"
  shows "(\<forall>t \<in> set (sl_tasks (serve_poll srv sd pick acc clock v)). finished t)
    \<and> polls_left (serve_poll srv sd pick acc clock v) \<le> polls_left v - 1"
proof (cases "sl_tasks v = [] \<or> (\<exists>r. sl_phase v \<in> {Stopped r, Returned r})")
  case True
  then show ?thesis
    using assms by (auto simp: closing_def serve_poll_def polls_left_def is_ok_def split: result.splits)
next
  case False
  then have "running (sl_tasks v) \<noteq> length (sl_tasks v)" using assms(2) by (auto simp: running_all)
  then obtain q us where j: "join_next pick (sl_tasks v) = Some (q, us)"
    using join_next_None [of pick "sl_tasks v"] by (cases "join_next pick (sl_tasks v)") auto
  have "serve_poll srv sd pick acc clock v = joins (q, us) v"
    using assms(1) False j by (auto simp: closing_def serve_poll_def)
  then show ?thesis
    using join_next_Some [OF j] assms(1,2) False by (auto simp: polls_left_def joins_def closing_def)
qed

lemma step_progress:
  assumes "closing r v" and "\<forall>t \<in> set (sl_tasks v). finished t" and "undisturbed srv h"
  shows "(\<forall>t \<in> set (sl_tasks (serve_step m srv h v)). finished t)
    \<and> polls_left (serve_step m srv h v) \<le> polls_left v - (if is_poll h then 1 else 0)"
proof (cases h)
  case (Poll sd pick acc clock)
  then show ?thesis using poll_progress [OF assms(1,2), of srv clock sd pick acc] assms(3) by simp
next
  case GraceOver
  then show ?thesis using assms(2) by (auto simp: grace_over_def polls_left_def split: phase.splits)
qed (use assms in \<open>auto simp: task_ends_def task_dropped_def\<close>)

lemma closing_returns:
  "closing r v \<Longrightarrow> \<forall>t \<in> set (sl_tasks v). finished t \<Longrightarrow> list_all (undisturbed srv) es \<Longrightarrow>
   polls_left v \<le> length (filter is_poll es) \<Longrightarrow>
   sl_phase (fold (serve_step m srv) es v) = Returned r \<and> sl_tasks (fold (serve_step m srv) es v) = []"
proof (induction es arbitrary: v)
  case Nil
  then show ?case by (auto simp: closing_def polls_left_def)
next
  case (Cons h es)
  have h: "undisturbed srv h" "list_all (undisturbed srv) es" using Cons.prems(3) by auto
  note st = step_closing [OF Cons.prems(1) h(1), of m] step_progress [OF Cons.prems(1,2) h(1), of m]
  show ?case using Cons.IH [OF st(1) _ h(2)] st(2) Cons.prems(4) by (cases "is_poll h") auto
qed

lemma closing_fold: "closing r v \<Longrightarrow> list_all (undisturbed srv) es \<Longrightarrow> closing r (fold (serve_step m srv) es v)"
  by (induction es arbitrary: v) (auto simp: step_closing)

text \<open>
  C31: Shutdown ends once the sessions do. Take any state of the accept loop in which the
  serving task is polled with the shutdown future ready, and whatever happens after that, in
  any order, with the future of \<open>serve\<close> kept and the shutdown deadline representable. If at
  some point every session has ended, by itself or dropped after the grace period, then
  serving returns success, with every session joined, after at most as many further polls as
  there are sessions to join and two more. After the grace period a session that is left
  needs only to yield to end: it was told to abort. A session that never yields is not
  preempted, and serving then waits for it.
\<close>

theorem shutdown_returns:
  assumes "sl_phase (serve max_permits srv w hs) \<in> {Acquiring, Accepting}"
    and "list_all (undisturbed srv) (before @ after)"
    and "\<forall>t \<in> set (sl_tasks (serve max_permits srv w (hs @ Poll ShutdownReady pick acc clock # before))). finished t"
    and "length (sl_tasks (serve max_permits srv w (hs @ Poll ShutdownReady pick acc clock # before))) + 2 \<le> length (filter is_poll after)"
  shows "sl_phase (serve max_permits srv w (hs @ Poll ShutdownReady pick acc clock # before @ after)) = Returned (Ok ())
    \<and> sl_tasks (serve max_permits srv w (hs @ Poll ShutdownReady pick acc clock # before @ after)) = []
    \<and> (case sl_phase (serve max_permits srv w any) of
         Aborting _ \<Rightarrow> \<forall>i < length (sl_tasks (serve max_permits srv w any)).
           finished (sl_tasks (serve max_permits srv w (any @ [TaskDropped i])) ! i)
       | _ \<Rightarrow> True)"
proof -
  let ?v = "serve max_permits srv w (hs @ [Poll ShutdownReady pick acc clock])"
  let ?u = "serve max_permits srv w (hs @ Poll ShutdownReady pick acc clock # before)"
  have "closing (Ok ()) ?v" using assms(1) by (auto simp: serve_snoc serve_poll_def closing_def)
  then have u: "closing (Ok ()) ?u"
    using closing_fold [of "Ok ()" ?v srv before max_permits] assms(2) serve_append [of max_permits srv w "hs @ [Poll ShutdownReady pick acc clock]" before] by simp
  have "polls_left ?u \<le> length (filter is_poll after)" using assms(4) by (auto simp: polls_left_def split: phase.splits)
  from closing_returns [OF u assms(3) _ this, of srv max_permits] assms(2)
  have "sl_phase (fold (serve_step max_permits srv) after ?u) = Returned (Ok ()) \<and> sl_tasks (fold (serve_step max_permits srv) after ?u) = []"
    by simp
  moreover have "left_behind (serve max_permits srv w any)"
    by (rule serve_keeps [where P = left_behind, OF _ step_left]) (simp add: empty_left serve_start_def)
  ultimately show ?thesis
    using serve_append [of max_permits srv w "hs @ Poll ShutdownReady pick acc clock # before" after]
    by (auto simp: serve_snoc task_dropped_def ends_with_def finished_def left_behind_def split: phase.splits)
qed

text \<open>A server with one session that is still running when it is shut down.\<close>

definition sample_server :: "(unit, unit) Server" where
  "sample_server = Server_new (\<lambda>_. Some ()) ServerOptions_default"

definition sample_clock :: world where
  "sample_clock = sample_world\<lparr>w_instant_max := 10 ^ 15\<rparr>"

definition sample_history :: "unit happening list" where
  "sample_history = [Poll ShutdownPending 0 None sample_clock, Poll ShutdownPending 0 (Some (Ok (None, sample_world))) sample_clock]"

definition sample_abort :: "unit happening list" where
  "sample_abort = [Poll ShutdownPending 0 None sample_clock, GraceOver, TaskDropped 0]"

lemma sample_deadlines:
  "fst (so_validate 200 (sr_options sample_server) sample_clock) = Ok ()"
  "fst (so_deadline (so_shutdown_timeout (sr_options sample_server)) sample_clock) = Ok (seconds 30)"
  "so_max_sessions (sr_options sample_server) = 128"
  by (simp_all add: sample_server_def Server_new_def sample_clock_def sample_world_def so_validate_def so_deadline_def now_def
        ServerOptions_default_def seconds_def)

lemma sample_served:
  "sl_phase (serve 200 sample_server sample_clock sample_history) = Acquiring"
  "running (sl_tasks (serve 200 sample_server sample_clock sample_history)) = 1"
  "map tk_result (sl_tasks (serve 200 sample_server sample_clock
     (sample_history @ Poll ShutdownReady 0 None sample_clock # sample_abort))) = [Some JoinCancelled]"
proof -
  let ?t = "\<lparr>tk_peer = None, tk_world = sample_world, tk_number = 0, tk_abort = False, tk_result = None\<rparr> :: unit task"
  have h: "serve 200 sample_server sample_clock sample_history =
      \<lparr>sl_phase = Acquiring, sl_idle = 127, sl_tasks = [?t], sl_spawned = 1, sl_log = []\<rparr>"
    by (simp add: serve_def serve_start_def serve_poll_def join_next_def sample_history_def sample_deadlines)
  then show "sl_phase (serve 200 sample_server sample_clock sample_history) = Acquiring"
    "running (sl_tasks (serve 200 sample_server sample_clock sample_history)) = 1" by (simp_all add: finished_def)
  show "map tk_result (sl_tasks (serve 200 sample_server sample_clock
     (sample_history @ Poll ShutdownReady 0 None sample_clock # sample_abort))) = [Some JoinCancelled]"
    unfolding serve_append h
    by (simp add: serve_poll_def sample_abort_def sample_deadlines grace_over_def abort_all_def task_dropped_def ends_with_def finished_def)
qed

theorem shutdown_returns_witness:
  "running (sl_tasks (serve 200 sample_server sample_clock sample_history)) = 1
   \<and> (let v = serve 200 sample_server sample_clock (sample_history @ Poll ShutdownReady 0 None sample_clock
          # sample_abort @ replicate 3 (Poll ShutdownPending 0 None sample_clock)) in
      sl_phase v = Returned (Ok ()) \<and> sl_tasks v = [])"
proof -
  let ?u = "serve 200 sample_server sample_clock (sample_history @ Poll ShutdownReady 0 None sample_clock # sample_abort)"
  let ?after = "replicate 3 (Poll ShutdownPending 0 None sample_clock) :: unit happening list"
  have tasks: "length (sl_tasks ?u) = 1" "\<forall>t \<in> set (sl_tasks ?u). finished t"
    using sample_served(3) by (cases "sl_tasks ?u"; simp add: finished_def)+
  have "list_all (undisturbed sample_server) (sample_abort @ ?after)" by (simp add: sample_abort_def sample_deadlines is_ok_def list_all_iff)
  moreover have "length (sl_tasks ?u) + 2 \<le> length (filter is_poll ?after)" unfolding tasks(1) by (simp add: filter_replicate)
  ultimately have hyps: "list_all (undisturbed sample_server) (sample_abort @ ?after)" "length (sl_tasks ?u) + 2 \<le> length (filter is_poll ?after)" .
  from shutdown_returns [OF _ hyps(1) tasks(2) hyps(2)] sample_served(1,2) show ?thesis by (simp add: Let_def)
qed

section \<open>The result\<close>

text \<open>A happening of a history, in a phase of serving.\<close>

definition happened ::
  "nat \<Rightarrow> ('s, 'p) Server \<Rightarrow> world \<Rightarrow> 'p happening list \<Rightarrow> (phase \<Rightarrow> bool) \<Rightarrow> 'p happening \<Rightarrow> bool" where
  "happened m srv w hs P h \<longleftrightarrow> (\<exists>hs1 hs2. hs = hs1 @ h # hs2 \<and> P (sl_phase (serve m srv w hs1)))"

lemma happened_last: "P (sl_phase (serve m srv w hs)) \<Longrightarrow> happened m srv w (hs @ [h]) P h"
  unfolding happened_def by blast

lemma happened_earlier: "happened m srv w hs P h \<Longrightarrow> happened m srv w (hs @ [h']) P h"
  unfolding happened_def by fastforce

definition accept_loop :: "phase \<Rightarrow> bool" where
  "accept_loop p \<longleftrightarrow> p \<in> {Acquiring, Accepting}"

definition loop_ended :: "phase \<Rightarrow> bool" where
  "loop_ended p \<longleftrightarrow> (\<exists>r. p = Stopped r)"

definition explained :: "nat \<Rightarrow> ('s, 'p) Server \<Rightarrow> world \<Rightarrow> 'p happening list \<Rightarrow> (unit, ServerError) result \<Rightarrow> bool" where
  "explained m srv w hs r \<longleftrightarrow>
     (case r of
        Ok _ \<Rightarrow> \<exists>pick acc clock. happened m srv w hs accept_loop (Poll ShutdownReady pick acc clock)
      | Err (SvTransport t) \<Rightarrow> \<exists>pick clock. happened m srv w hs (\<lambda>p. p = Accepting) (Poll ShutdownPending pick (Some (Err t)) clock)
      | _ \<Rightarrow> False)"

definition caused :: "nat \<Rightarrow> ('s, 'p) Server \<Rightarrow> world \<Rightarrow> 'p happening list \<Rightarrow> phase \<Rightarrow> bool" where
  "caused m srv w hs p \<longleftrightarrow>
     (case p of
        Stopped r \<Rightarrow> explained m srv w hs r
      | Draining r \<Rightarrow> explained m srv w hs r
      | Aborting r \<Rightarrow> explained m srv w hs r
      | Returned r \<Rightarrow> explained m srv w hs r
          \<or> r = Err SvInvalidOptions \<and> (fst (so_validate m (sr_options srv) w) = Err SvInvalidOptions
              \<or> (\<exists>sd pick acc clock. happened m srv w hs loop_ended (Poll sd pick acc clock)
                   \<and> fst (so_deadline (so_shutdown_timeout (sr_options srv)) clock) = Err SvInvalidOptions))
          \<or> r = Panic \<and> (\<exists>pick acc clock. happened m srv w hs accept_loop (Poll ShutdownPanic pick acc clock)
              \<or> happened m srv w hs (\<lambda>p. p = Accepting) (Poll ShutdownPending pick (Some Panic) clock))
      | Dropped \<Rightarrow> ServeDropped \<in> set hs
      | _ \<Rightarrow> True)"

lemma explained_earlier: "explained m srv w hs r \<Longrightarrow> explained m srv w (hs @ [h]) r"
  by (auto simp: explained_def split: result.splits ServerError.splits dest: happened_earlier)

lemma caused_earlier: "caused m srv w hs p \<Longrightarrow> caused m srv w (hs @ [h]) p"
  by (auto simp: caused_def explained_earlier split: phase.splits dest: happened_earlier) (meson happened_earlier)+

lemma caused_loop: "caused m srv w hs Acquiring" "caused m srv w hs Accepting"
  by (simp_all add: caused_def)

lemma caused_ready: "happened m srv w hs accept_loop (Poll ShutdownReady pick acc clock) \<Longrightarrow> caused m srv w hs (Stopped (Ok ()))"
  by (auto simp: caused_def explained_def)

lemma caused_accept:
  "happened m srv w hs (\<lambda>p. p = Accepting) (Poll ShutdownPending pick (Some (Err t)) clock) \<Longrightarrow> caused m srv w hs (Stopped (Err (SvTransport t)))"
  by (auto simp: caused_def explained_def)

lemma caused_panic:
  "happened m srv w hs accept_loop (Poll ShutdownPanic pick acc clock) \<Longrightarrow> caused m srv w hs (Returned Panic)"
  "happened m srv w hs (\<lambda>p. p = Accepting) (Poll ShutdownPending pick (Some Panic) clock) \<Longrightarrow> caused m srv w hs (Returned Panic)"
  by (auto simp: caused_def)

lemmas caused_intros = caused_ready caused_accept caused_panic

lemma poll_caused:
  assumes "caused m srv w hs (sl_phase v)" and v: "v = serve m srv w hs"
  shows "caused m srv w (hs @ [Poll sd pick acc clock]) (sl_phase (serve_poll srv sd pick acc clock v))"
proof (cases "sl_phase v")
  case Acquiring
  have "happened m srv w (hs @ [Poll sd pick acc clock]) accept_loop (Poll sd pick acc clock)"
    by (rule happened_last) (use Acquiring v in \<open>simp add: accept_loop_def\<close>)
  then show ?thesis
    using Acquiring by (auto simp: serve_poll_def joins_def leaves_def caused_loop split: shutdown_poll.splits option.splits intro: caused_intros)
next
  case Accepting
  have "happened m srv w (hs @ [Poll sd pick acc clock]) accept_loop (Poll sd pick acc clock)"
    "happened m srv w (hs @ [Poll sd pick acc clock]) (\<lambda>p. p = Accepting) (Poll sd pick acc clock)"
    by (rule happened_last, use Accepting v in \<open>simp add: accept_loop_def\<close>)+
  then show ?thesis
    using Accepting by (auto simp: serve_poll_def joins_def leaves_def caused_loop
      split: shutdown_poll.splits option.splits result.splits intro: caused_intros)
next
  case (Stopped r)
  have h: "happened m srv w (hs @ [Poll sd pick acc clock]) loop_ended (Poll sd pick acc clock)"
    by (rule happened_last) (use Stopped v in \<open>simp add: loop_ended_def\<close>)
  show ?thesis
    using caused_earlier [OF assms(1), of "Poll sd pick acc clock"] Stopped h so_deadline_fst [of "so_shutdown_timeout (sr_options srv)" clock]
    by (auto simp: serve_poll_def leaves_def split: result.splits) (auto simp: caused_def)
qed (use caused_earlier [OF assms(1), of "Poll sd pick acc clock"] in
  \<open>auto simp: serve_poll_def joins_def split: option.splits, auto simp: caused_def\<close>)

lemma step_caused:
  assumes "caused m srv w hs (sl_phase (serve m srv w hs))"
  shows "caused m srv w (hs @ [h]) (sl_phase (serve m srv w (hs @ [h])))"
proof (cases h)
  case (Poll sd pick acc clock)
  then show ?thesis using poll_caused [OF assms refl] by (simp add: serve_snoc)
next
  case GraceOver
  then show ?thesis
    using caused_earlier [OF assms, of h] by (auto simp: serve_snoc grace_over_def split: phase.splits) (auto simp: caused_def)
next
  case ServeDropped
  then show ?thesis
    using caused_earlier [OF assms, of h] by (auto simp: serve_snoc serve_dropped_def leaves_def split: phase.splits) (auto simp: caused_def)
qed (use caused_earlier [OF assms, of h] in \<open>auto simp: serve_snoc task_ends_def task_dropped_def ends_with_def\<close>)

lemma so_durations_err: "so_durations ds w = (Err e, w') \<Longrightarrow> e = SvInvalidOptions"
  by (induction ds arbitrary: w) (auto split: prod.splits result.splits dest: so_deadline_err)

lemma so_durations_not_panic: "fst (so_durations ds w) \<noteq> Panic"
  using so_deadline_fst(1) by (induction ds arbitrary: w) (auto split: prod.splits result.splits, metis fst_conv)

lemma so_validate_fst: "fst (so_validate m opts w) \<noteq> Panic" "fst (so_validate m opts w) = Err e \<Longrightarrow> e = SvInvalidOptions"
  using so_durations_not_panic so_durations_err
  by (auto simp: so_validate_def simp del: so_durations.simps split: if_splits) (metis prod.collapse)+

lemma serve_caused: "caused m srv w hs (sl_phase (serve m srv w hs))"
proof (induction hs rule: rev_induct)
  case Nil
  then show ?case
    using so_validate_fst [of m "sr_options srv" w] by (auto simp: serve_def serve_start_def caused_def split: result.splits)
qed (rule step_caused)

text \<open>
  C32: Serving returns what ended it, and nothing a session does ends it. Success: the
  shutdown future was ready when the accept loop polled it. A transport error: the acceptor
  reported it, asked with a permit in hand and no shutdown. Invalid options: they were refused
  at the start, or the shutdown deadline could not be represented when the loop had ended. A
  panic: the shutdown future or the acceptor panicked in the accept loop. There is no other
  result, and serving is dropped only by its caller.
\<close>

theorem serve_result_caused:
  "case sl_phase (serve max_permits srv w hs) of
     Returned (Ok _) \<Rightarrow> \<exists>pick acc clock. happened max_permits srv w hs accept_loop (Poll ShutdownReady pick acc clock)
   | Returned (Err (SvTransport t)) \<Rightarrow>
       \<exists>pick clock. happened max_permits srv w hs (\<lambda>p. p = Accepting) (Poll ShutdownPending pick (Some (Err t)) clock)
   | Returned (Err SvInvalidOptions) \<Rightarrow>
       fst (so_validate max_permits (sr_options srv) w) = Err SvInvalidOptions
       \<or> (\<exists>sd pick acc clock. happened max_permits srv w hs loop_ended (Poll sd pick acc clock)
            \<and> fst (so_deadline (so_shutdown_timeout (sr_options srv)) clock) = Err SvInvalidOptions)
   | Returned Panic \<Rightarrow>
       \<exists>pick acc clock. happened max_permits srv w hs accept_loop (Poll ShutdownPanic pick acc clock)
         \<or> happened max_permits srv w hs (\<lambda>p. p = Accepting) (Poll ShutdownPending pick (Some Panic) clock)
   | Returned _ \<Rightarrow> False
   | Dropped \<Rightarrow> ServeDropped \<in> set hs
   | _ \<Rightarrow> True"
  using serve_caused [of max_permits srv w hs]
  by (auto simp: caused_def explained_def split: phase.splits result.splits ServerError.splits)

end
