(* ===== verification/Unix_Listener.thy ===== *)
theory Unix_Listener
  imports Discovery
begin

text \<open>
  Listeners (\<open>assuan-transport/src/unix.rs\<close>, \<open>listener.rs\<close>): the Unix socket with its
  private-directory policy, peer check and cleanup by identity, and the standard listener
  over it. The file system is explicit state: what \<open>lstat\<close> and \<open>canonicalize\<close> answer for each
  path. System calls that create, change or remove a file are given their outcome by the
  environment, and the file system may have changed in any way between two operations of a
  listener. Within one operation only its own calls change it: the code trusts processes of
  the same user not to interfere there.
\<close>

unbundle bit_operations_syntax

section \<open>Paths\<close>

text \<open>A path as its components, the way the standard library splits it.\<close>

datatype component = RootDir | CurDir | ParentDir | Normal bytes

type_synonym path = "component list"

fun segments :: "bytes \<Rightarrow> bytes \<Rightarrow> bytes list" where
  "segments [] acc = (if acc = [] then [] else [acc])"
| "segments (b # bs) acc =
     (if b = 0x2F then (if acc = [] then [] else [acc]) @ segments bs [] else segments bs (acc @ [b]))"

definition segment_component :: "bytes \<Rightarrow> component" where
  "segment_component s = (if s = lit ''..'' then ParentDir else if s = lit ''.'' then CurDir else Normal s)"

definition path_of :: "bytes \<Rightarrow> path" where
  "path_of bs =
     (let cs = map segment_component (segments bs []) in
      if starts_with (lit ''/'') bs then RootDir # filter (\<lambda>c. c \<noteq> CurDir) cs
      else case cs of [] \<Rightarrow> [] | c # rest \<Rightarrow> c # filter (\<lambda>c. c \<noteq> CurDir) rest)"

definition file_name :: "path \<Rightarrow> bytes option" where
  "file_name p = (if p = [] then None else case last p of Normal n \<Rightarrow> Some n | _ \<Rightarrow> None)"

definition parent :: "path \<Rightarrow> path option" where
  "parent p = (if p = [] \<or> last p = RootDir then None else Some (butlast p))"

definition component_bytes :: "component \<Rightarrow> bytes" where
  "component_bytes c = (case c of RootDir \<Rightarrow> [] | CurDir \<Rightarrow> lit ''.'' | ParentDir \<Rightarrow> lit ''..'' | Normal n \<Rightarrow> n)"

fun path_bytes :: "path \<Rightarrow> bytes" where
  "path_bytes [] = []"
| "path_bytes [c] = (if c = RootDir then lit ''/'' else component_bytes c)"
| "path_bytes (c # cs) = component_bytes c @ lit ''/'' @ path_bytes cs"

section \<open>The file system\<close>

datatype file_type = FDir | FSocket | FSymlink | FOther

record Metadata =
  md_device :: nat
  md_inode :: nat
  md_uid :: u32
  md_mode :: u32
  md_type :: file_type

record FileIdentity =
  fi_device :: nat
  fi_inode :: nat

definition identity_of :: "Metadata \<Rightarrow> FileIdentity" where
  "identity_of m = \<lparr>fi_device = md_device m, fi_inode = md_inode m\<rparr>"

record FileSystem =
  fs_lstat :: "path \<Rightarrow> (Metadata, io_error) result"
  fs_real :: "path \<Rightarrow> (path, io_error) result"

definition io_not_found :: nat where "io_not_found = 0"
definition io_already_exists :: nat where "io_already_exists = 1"

definition fs_put :: "path \<Rightarrow> (Metadata, io_error) result \<Rightarrow> FileSystem \<Rightarrow> FileSystem" where
  "fs_put p m fs = fs\<lparr>fs_lstat := (fs_lstat fs)(p := m)\<rparr>"

definition private_directory :: "FileSystem \<Rightarrow> path \<Rightarrow> u32 \<Rightarrow> (FileIdentity, TransportError) result" where
  "private_directory fs p uid =
     bind (map_err TIo (fs_lstat fs p)) (\<lambda>m.
       if md_type m \<noteq> FDir \<or> md_uid m \<noteq> uid \<or> md_mode m AND 0x3F \<noteq> 0 then Err TAccessPolicy
       else Ok (identity_of m))"

definition authorize_uid :: "u32 \<Rightarrow> u32 \<Rightarrow> (unit, TransportError) result" where
  "authorize_uid actual expected = (if actual \<noteq> expected then Err TAccessPolicy else Ok ())"

section \<open>The Unix listener\<close>

record UnixListener =
  ul_open :: bool
  ul_path :: path
  ul_parent :: FileIdentity
  ul_socket :: FileIdentity
  ul_uid :: u32
  ul_cleaned :: bool

definition verify_parent :: "FileSystem \<Rightarrow> UnixListener \<Rightarrow> (unit, TransportError) result" where
  "verify_parent fs l =
     bind (ok_or (parent (ul_path l)) TInvalidEndpoint) (\<lambda>p.
     bind (private_directory fs p (ul_uid l)) (\<lambda>i.
       if i \<noteq> ul_parent l then Err TAccessPolicy else Ok ()))"

definition ul_cleanup ::
  "(unit, io_error) result \<Rightarrow> UnixListener \<Rightarrow> FileSystem \<Rightarrow> (unit, TransportError) result \<times> UnixListener \<times> FileSystem" where
  "ul_cleanup removal l fs =
     (if ul_cleaned l then (Ok (), l, fs)
      else case verify_parent fs l of
        Err e \<Rightarrow> (Err e, l, fs)
      | Panic \<Rightarrow> (Panic, l, fs)
      | Ok _ \<Rightarrow>
          (let gone = l\<lparr>ul_open := False, ul_cleaned := True\<rparr> in
           case fs_lstat fs (ul_path l) of
             Ok m \<Rightarrow>
               if md_type m \<noteq> FSocket \<or> identity_of m \<noteq> ul_socket l \<or> md_uid m \<noteq> ul_uid l then (Err TAccessPolicy, l, fs)
               else (case removal of
                       Ok _ \<Rightarrow> (Ok (), gone, fs_put (ul_path l) (Err \<lparr>io_kind = io_not_found, io_detail = []\<rparr>) fs)
                     | Err e \<Rightarrow> (Err (TIo e), l, fs)
                     | Panic \<Rightarrow> (Panic, l, fs))
           | Err e \<Rightarrow> if io_kind e = io_not_found then (Ok (), gone, fs) else (Err (TIo e), l, fs)
           | Panic \<Rightarrow> (Panic, l, fs)))"

text \<open>
  \<open>bind\<close>: the system reports the outcome of creating the socket, what is at its path afterwards
  (a failed attempt may leave something there too), the outcome of changing its permissions
  and of the removal that follows if that fails.
\<close>

definition bind_target :: "u32 \<Rightarrow> path \<Rightarrow> FileSystem \<Rightarrow> (path \<times> FileIdentity, TransportError) result" where
  "bind_target uid path fs =
     bind (ok_or (file_name path) TInvalidEndpoint) (\<lambda>name.
     let supplied = (case parent path of Some p \<Rightarrow> if p \<noteq> [] then p else [CurDir] | None \<Rightarrow> [CurDir]) in
     bind (private_directory fs supplied uid) (\<lambda>original.
     bind (map_err TIo (fs_real fs supplied)) (\<lambda>real.
     bind (private_directory fs real uid) (\<lambda>dir.
       if dir \<noteq> original then Err TAccessPolicy
       else (case fs_lstat fs (real @ [Normal name]) of
               Ok _ \<Rightarrow> Err (TIo \<lparr>io_kind = io_already_exists, io_detail = []\<rparr>)
             | Err e \<Rightarrow> if io_kind e = io_not_found then Ok (real @ [Normal name], dir) else Err (TIo e)
             | Panic \<Rightarrow> Panic)))))"

text \<open>\<open>chmod\<close> keeps the file type bits of the mode.\<close>

definition with_permissions :: "u32 \<Rightarrow> Metadata \<Rightarrow> Metadata" where
  "with_permissions perm m = m\<lparr>md_mode := (md_mode m AND NOT 0xFFF) OR perm\<rparr>"

definition ul_bind ::
  "u32 \<Rightarrow> (unit, io_error) result \<Rightarrow> (Metadata, io_error) result \<Rightarrow> (unit, io_error) result \<Rightarrow> (unit, io_error) result
   \<Rightarrow> path \<Rightarrow> FileSystem \<Rightarrow> (UnixListener, TransportError) result \<times> FileSystem" where
  "ul_bind uid created there chmod removal path fs =
     (case bind_target uid path fs of
        Err e \<Rightarrow> (Err e, fs)
      | Panic \<Rightarrow> (Panic, fs)
      | Ok (p, dir) \<Rightarrow>
          let fs = fs_put p there fs in
          (case bind (map_err TIo created) (\<lambda>_. map_err TIo (fs_lstat fs p)) of
             Err e \<Rightarrow> (Err e, fs)
           | Panic \<Rightarrow> (Panic, fs)
           | Ok m \<Rightarrow>
               if md_type m \<noteq> FSocket \<or> md_uid m \<noteq> uid then (Err TAccessPolicy, fs)
               else
                 let l = \<lparr>ul_open = True, ul_path = p, ul_parent = dir, ul_socket = identity_of m, ul_uid = uid, ul_cleaned = False\<rparr> in
                 (case chmod of
                    Err e \<Rightarrow> (Err (TIo e), snd (snd (ul_cleanup removal l fs)))
                  | Panic \<Rightarrow> (Panic, fs)
                  | Ok _ \<Rightarrow>
                      let fs = fs_put p (Ok (with_permissions 0x180 m)) fs in
                      (bind (verify_parent fs l) (\<lambda>_. Ok l), fs))))"

record Credentials =
  cr_uid :: u32
  cr_gid :: u32
  cr_pid :: "int option"

definition ul_accept ::
  "UnixListener \<Rightarrow> (unit, io_error) result \<Rightarrow> (Credentials, io_error) result \<Rightarrow> (PeerIdentity option, TransportError) result" where
  "ul_accept l arrival credentials =
     (if \<not> ul_open l then Err TInvalidEndpoint
      else bind (map_err TIo arrival) (\<lambda>_.
           bind (map_err TIo credentials) (\<lambda>c.
           bind (authorize_uid (cr_uid c) (ul_uid l)) (\<lambda>_.
           Ok (Some (UnixPeer (cr_uid c) (cr_gid c)
             (Option.bind (cr_pid c) (\<lambda>pid. if 0 \<le> pid \<and> pid < 2 ^ 32 then Some (of_int pid) else None))))))))"

section \<open>Standard listeners\<close>

datatype Backend = TcpBackend | UnixBackend UnixListener

record Listener =
  li_inner :: Backend
  li_endpoint :: Endpoint

text \<open>Binding TCP asks the system for the socket and its address.\<close>

definition li_bind ::
  "u32 \<Rightarrow> (SocketAddr, io_error) result \<Rightarrow> (unit, io_error) result \<Rightarrow> (Metadata, io_error) result \<Rightarrow> (unit, io_error) result
   \<Rightarrow> (unit, io_error) result \<Rightarrow> Endpoint \<Rightarrow> FileSystem \<Rightarrow> (Listener, TransportError) result \<times> FileSystem" where
  "li_bind uid bound created there chmod removal endpoint fs =
     (case endpoint of
        EpTcp address \<Rightarrow>
          (bind (map_err TIo bound) (\<lambda>a. Ok \<lparr>li_inner = TcpBackend, li_endpoint = EpTcp a\<rparr>), fs)
      | EpUnix path \<Rightarrow>
          (case ul_bind uid created there chmod removal (path_of path) fs of
             (r, fs) \<Rightarrow> (bind r (\<lambda>u. Ok \<lparr>li_inner = UnixBackend u, li_endpoint = EpUnix (path_bytes (ul_path u))\<rparr>), fs)))"

definition li_cleanup ::
  "(unit, io_error) result \<Rightarrow> Listener \<Rightarrow> FileSystem \<Rightarrow> (unit, TransportError) result \<times> Listener \<times> FileSystem" where
  "li_cleanup removal l fs =
     (case li_inner l of
        TcpBackend \<Rightarrow> (Ok (), l, fs)
      | UnixBackend u \<Rightarrow>
          (case ul_cleanup removal u fs of (r, u, fs) \<Rightarrow> (r, l\<lparr>li_inner := UnixBackend u\<rparr>, fs)))"

definition listener_debug :: "Listener \<Rightarrow> dbg" where
  "listener_debug l = DStruct ''Listener'' [] True"

definition li_accept ::
  "Listener \<Rightarrow> (unit, io_error) result \<Rightarrow> (Credentials, io_error) result \<Rightarrow> (PeerIdentity option, TransportError) result" where
  "li_accept l arrival credentials =
     (case li_inner l of
        TcpBackend \<Rightarrow> bind (map_err TIo arrival) (\<lambda>_. Ok None)
      | UnixBackend u \<Rightarrow> ul_accept u arrival credentials)"

section \<open>The policy\<close>

definition private_to :: "FileSystem \<Rightarrow> path \<Rightarrow> u32 \<Rightarrow> FileIdentity \<Rightarrow> bool" where
  "private_to fs p uid i \<longleftrightarrow>
     (\<exists>m. fs_lstat fs p = Ok m \<and> md_type m = FDir \<and> md_uid m = uid \<and> md_mode m AND 0x3F = 0 \<and> identity_of m = i)"

lemma private_directory_Ok: "private_directory fs p uid = Ok i \<longleftrightarrow> private_to fs p uid i"
  by (auto simp: private_directory_def private_to_def bind_eq_Ok map_err_def split: result.splits)

lemma verify_parent_Ok:
  "verify_parent fs l = Ok u \<longleftrightarrow> (\<exists>p. parent (ul_path l) = Some p \<and> private_to fs p (ul_uid l) (ul_parent l))"
  by (auto simp: verify_parent_def bind_eq_Ok ok_or_def private_directory_Ok split: option.splits if_splits)

definition own_socket :: "UnixListener \<Rightarrow> FileSystem \<Rightarrow> bool" where
  "own_socket l fs \<longleftrightarrow>
     (\<exists>m. fs_lstat fs (ul_path l) = Ok m \<and> md_type m = FSocket \<and> identity_of m = ul_socket l \<and> md_uid m = ul_uid l)"

text \<open>What a cleanup may do to the file system.\<close>

lemma cleanup_cases:
  assumes "ul_cleanup removal l fs = (r, l', fs')"
  shows "case r of
      Ok _ \<Rightarrow> (if ul_cleaned l then l' = l \<and> fs' = fs
        else l' = l\<lparr>ul_open := False, ul_cleaned := True\<rparr>
          \<and> (\<exists>p. parent (ul_path l) = Some p \<and> private_to fs p (ul_uid l) (ul_parent l))
          \<and> (if own_socket l fs then fs' = fs_put (ul_path l) (Err \<lparr>io_kind = io_not_found, io_detail = []\<rparr>) fs
             else fs' = fs \<and> (\<exists>e. fs_lstat fs (ul_path l) = Err e \<and> io_kind e = io_not_found)))
    | _ \<Rightarrow> l' = l \<and> fs' = fs"
proof (cases "ul_cleaned l")
  case True
  then show ?thesis using assms by (auto simp: ul_cleanup_def)
next
  case False
  show ?thesis
  proof (cases "verify_parent fs l")
    case (Ok u)
    then have "\<exists>p. parent (ul_path l) = Some p \<and> private_to fs p (ul_uid l) (ul_parent l)" by (simp add: verify_parent_Ok)
    then show ?thesis
      using assms False Ok
      by (auto simp: ul_cleanup_def own_socket_def Let_def split: result.splits if_splits)
  qed (use assms False in \<open>auto simp: ul_cleanup_def split: result.split\<close>)
qed

text \<open>What a bind may do to it.\<close>

definition keeps_files :: "FileSystem \<Rightarrow> FileSystem \<Rightarrow> bool" where
  "keeps_files fs fs' \<longleftrightarrow> (\<forall>p m. fs_lstat fs p = Ok m \<longrightarrow> fs_lstat fs' p = Ok m)"

lemma keeps_files_put: "\<not> is_ok (fs_lstat fs p) \<Longrightarrow> keeps_files fs (fs_put p r fs)"
  by (auto simp: keeps_files_def fs_put_def is_ok_def)

lemma fs_put_put: "fs_put p r (fs_put p q fs) = fs_put p r fs"
  by (simp add: fs_put_def)

lemma cleanup_files: "\<exists>r. snd (snd (ul_cleanup removal l (fs_put (ul_path l) q fs))) = fs_put (ul_path l) r fs"
proof -
  obtain r l' fs' where c: "ul_cleanup removal l (fs_put (ul_path l) q fs) = (r, l', fs')" by (metis prod_cases3)
  have "fs' = fs_put (ul_path l) q fs \<or> fs' = fs_put (ul_path l) (Err \<lparr>io_kind = io_not_found, io_detail = []\<rparr>) (fs_put (ul_path l) q fs)"
    using cleanup_cases [OF c] by (cases r) (auto split: if_splits)
  then show ?thesis using c by (auto simp: fs_put_put)
qed

lemma bind_target_Ok:
  assumes "bind_target uid path fs = Ok (p, dir)"
  shows "\<not> is_ok (fs_lstat fs p)" and "\<exists>real. parent p = Some real \<and> private_to fs real uid dir"
proof -
  obtain real name where "p = real @ [Normal name]" "private_to fs real uid dir" "\<not> is_ok (fs_lstat fs p)"
    using assms by (auto simp: bind_target_def bind_eq_Ok private_directory_Ok Let_def split: if_splits result.splits)
  then show "\<not> is_ok (fs_lstat fs p)" and "\<exists>real. parent p = Some real \<and> private_to fs real uid dir"
    by (auto simp: parent_def)
qed

text \<open>The file that appears in the directory does not change what the directory answers.\<close>

lemma verify_parent_put:
  assumes "bind_target uid path fs = Ok (p, dir)" and "ul_path l = p" and "ul_parent l = dir" and "ul_uid l = uid"
  shows "verify_parent (fs_put p r fs) l = Ok ()"
proof -
  obtain real where real: "parent p = Some real" "private_to fs real uid dir" using bind_target_Ok(2) [OF assms(1)] by blast
  then have "length real < length p" by (auto simp: parent_def split: if_splits)
  then have "real \<noteq> p" by auto
  then have "private_to (fs_put p r fs) real uid dir" using real(2) by (simp add: private_to_def fs_put_def)
  then show ?thesis using real(1) assms verify_parent_Ok [of "fs_put p r fs" l "()"] by auto
qed

lemma bind_succeeds:
  "is_ok (fst (ul_bind uid created there chmod removal path fs)) \<longleftrightarrow>
     is_ok (bind_target uid path fs) \<and> is_ok created \<and> is_ok chmod
     \<and> (\<exists>m. there = Ok m \<and> md_type m = FSocket \<and> md_uid m = uid)"
proof (cases "bind_target uid path fs")
  case (Ok q)
  obtain p dir where q: "q = (p, dir)" by force
  have lstat: "fs_lstat (fs_put p r fs) p = r" for r by (simp add: fs_put_def)
  show ?thesis
    using verify_parent_put [OF Ok [unfolded q]] Ok q
    by (cases created; cases there; cases chmod)
       (auto simp: ul_bind_def Let_def lstat fs_put_put is_ok_def bind_def map_err_def)
qed (simp_all add: ul_bind_def is_ok_def)

lemma bind_files: "keeps_files fs (snd (ul_bind uid created there chmod removal path fs))"
proof (cases "bind_target uid path fs")
  case (Ok q)
  obtain p dir where q: "q = (p, dir)" by force
  have fresh: "keeps_files fs (fs_put p r fs)" for r
    using keeps_files_put bind_target_Ok(1) Ok q by blast
  have "keeps_files fs (snd (snd (ul_cleanup removal l (fs_put p there fs))))" if "ul_path l = p" for l
    using cleanup_files [of removal l there fs] that fresh by metis
  then show ?thesis
    using Ok q fresh by (auto simp: ul_bind_def Let_def fs_put_put split: result.split)
qed (auto simp: ul_bind_def keeps_files_def)

lemma bind_Ok:
  assumes "ul_bind uid created there chmod removal path fs = (Ok b, fs')"
  shows "ul_uid b = uid \<and> ul_open b \<and> \<not> is_ok (fs_lstat fs (ul_path b)) \<and> own_socket b fs'
    \<and> (\<exists>m dir. fs' = fs_put (ul_path b) (Ok m) fs \<and> md_mode m AND 0xFFF = 0x180
        \<and> parent (ul_path b) = Some dir \<and> private_to fs' dir uid (ul_parent b))"
proof -
  have "(x AND NOT 0xFFF OR 0x180) AND 0xFFF = 0x180" for x :: u32
    by (simp add: bit.conj_disj_distrib2 and.assoc)
  then have perm: "md_mode (with_permissions 0x180 m) AND 0xFFF = 0x180" for m by (simp add: with_permissions_def)
  obtain p dir where t: "bind_target uid path fs = Ok (p, dir)"
    using assms by (auto simp: ul_bind_def split: result.splits)
  then obtain m where m: "there = Ok m" "md_type m = FSocket" "md_uid m = uid"
    and b: "b = \<lparr>ul_open = True, ul_path = p, ul_parent = dir, ul_socket = identity_of m, ul_uid = uid, ul_cleaned = False\<rparr>"
    and f: "fs' = fs_put p (Ok (with_permissions 0x180 m)) fs" and v: "is_ok (verify_parent fs' b)"
    using assms
    by (auto simp: ul_bind_def Let_def bind_eq_Ok map_err_eq_Ok fs_put_put fs_put_def split: result.splits if_splits)
  show ?thesis
    using v b f m perm bind_target_Ok [OF t] 
    by (auto simp: is_ok_def verify_parent_Ok own_socket_def fs_put_def with_permissions_def identity_of_def split: result.splits)
qed

text \<open>
  C34: Cleanup removes nothing but the listener's own socket. In whatever state the file
  system is by then, a cleanup that succeeds removes the path only if a socket with the
  recorded identity and owner is there, in the recorded private directory; a replacement is
  left alone. A failed cleanup changes nothing and leaves the listener as it was, and
  cleaning up again does nothing. Binding changes no file that exists and succeeds exactly
  when the path is free in a private directory, the system creates the user's socket there
  and its permissions can be set; a listener it returns
  owns a socket that only its user may access, at a path where nothing was, in a directory
  that only its user may access; and only peers of that user are accepted.
\<close>

theorem unix_listener_policy:
  "(case ul_cleanup removal l fs of (r, l', fs') \<Rightarrow>
      if is_ok r \<and> \<not> ul_cleaned l then
        l' = l\<lparr>ul_open := False, ul_cleaned := True\<rparr>
        \<and> (\<exists>dir. parent (ul_path l) = Some dir \<and> private_to fs dir (ul_uid l) (ul_parent l))
        \<and> (if own_socket l fs then fs' = fs_put (ul_path l) (Err \<lparr>io_kind = io_not_found, io_detail = []\<rparr>) fs
           else fs' = fs \<and> \<not> is_ok (fs_lstat fs (ul_path l)))
        \<and> ul_cleanup removal' l' later = (Ok (), l', later)
      else l' = l \<and> fs' = fs)
   \<and> keeps_files fs (snd (ul_bind uid created there chmod removal path fs))
   \<and> (is_ok (fst (ul_bind uid created there chmod removal path fs)) \<longleftrightarrow>
        is_ok (bind_target uid path fs) \<and> is_ok created \<and> is_ok chmod
        \<and> (\<exists>m. there = Ok m \<and> md_type m = FSocket \<and> md_uid m = uid))
   \<and> (case ul_bind uid created there chmod removal path fs of
        (Ok b, fs') \<Rightarrow>
          \<not> is_ok (fs_lstat fs (ul_path b)) \<and> own_socket b fs'
          \<and> (\<exists>m dir. fs' = fs_put (ul_path b) (Ok m) fs \<and> md_mode m AND 0xFFF = 0x180
              \<and> parent (ul_path b) = Some dir \<and> private_to fs' dir uid (ul_parent b))
          \<and> (case ul_accept b arrival credentials of Ok peer \<Rightarrow> \<exists>gid pid. peer = Some (UnixPeer uid gid pid) | _ \<Rightarrow> True)
      | _ \<Rightarrow> True)"
proof (intro conjI)
  obtain r l' fs' where c: "ul_cleanup removal l fs = (r, l', fs')" by (metis prod_cases3)
  have again: "ul_cleaned l' \<Longrightarrow> ul_cleanup removal' l' later = (Ok (), l', later)" by (simp add: ul_cleanup_def)
  show "case ul_cleanup removal l fs of (r, l', fs') \<Rightarrow>
      if is_ok r \<and> \<not> ul_cleaned l then
        l' = l\<lparr>ul_open := False, ul_cleaned := True\<rparr>
        \<and> (\<exists>dir. parent (ul_path l) = Some dir \<and> private_to fs dir (ul_uid l) (ul_parent l))
        \<and> (if own_socket l fs then fs' = fs_put (ul_path l) (Err \<lparr>io_kind = io_not_found, io_detail = []\<rparr>) fs
           else fs' = fs \<and> \<not> is_ok (fs_lstat fs (ul_path l)))
        \<and> ul_cleanup removal' l' later = (Ok (), l', later)
      else l' = l \<and> fs' = fs"
    using cleanup_cases [OF c] again c by (cases r) (auto split: if_splits)
next
  have accept: "\<exists>gid pid. peer = Some (UnixPeer (ul_uid b) gid pid)"
    if "ul_accept b arrival credentials = Ok peer" for b peer
    using that by (auto simp: ul_accept_def bind_eq_Ok authorize_uid_def split: if_splits)
  show "case ul_bind uid created there chmod removal path fs of
        (Ok b, fs') \<Rightarrow>
          \<not> is_ok (fs_lstat fs (ul_path b)) \<and> own_socket b fs'
          \<and> (\<exists>m dir. fs' = fs_put (ul_path b) (Ok m) fs \<and> md_mode m AND 0xFFF = 0x180
              \<and> parent (ul_path b) = Some dir \<and> private_to fs' dir uid (ul_parent b))
          \<and> (case ul_accept b arrival credentials of Ok peer \<Rightarrow> \<exists>gid pid. peer = Some (UnixPeer uid gid pid) | _ \<Rightarrow> True)
      | _ \<Rightarrow> True"
    using bind_Ok [of uid created there chmod removal path fs] accept
    by (auto split: result.split prod.split)
qed (rule bind_files bind_succeeds)+

end
