(* ===== verification/Windows_Pipes.thy ===== *)
theory Windows_Pipes
  imports Discovery
begin

text \<open>
  Named pipes, the type-erased stream and discovery as built for Windows
  (\<open>assuan-transport/src/windows/pipe.rs\<close>, \<open>windows/security.rs\<close>, \<open>stream.rs\<close>, \<open>discovery.rs\<close>): which pipe names are accepted, the security descriptor a
  listener is created with, the retries of a connection, and the wrapper that closes the
  native stream directly. The Windows API and the native pipes are parameters: what a call
  returns is an argument, and the calls made on a native stream are recorded. The shown
  facts are that only the current user gets access, in a descriptor no identifier can
  break out of, that a connection is the first attempt the pipe does not refuse as busy, and that
  every pipe stream is closed exactly once and not used afterwards.
\<close>

section \<open>Pipe names\<close>

text \<open>A path is its UTF-16 code units. The prefix is that of the pipes of this machine.\<close>

definition pipe_prefix :: "u16 list" where
  "pipe_prefix = [92, 92, 46, 92, 112, 105, 112, 101, 92]"

definition validate_path :: "u16 list \<Rightarrow> (unit, TransportError) result" where
  "validate_path units =
     (if take (length pipe_prefix) units \<noteq> pipe_prefix \<or> length units \<le> length pipe_prefix \<or> length units > 256
         \<or> list_ex (\<lambda>u. u = 0 \<or> u = 47 \<or> u = 92) (drop (length pipe_prefix) units)
      then Err TInvalidEndpoint else Ok ())"

section \<open>The security descriptor\<close>

text \<open>The calls of the API, whose errors are not looked at, and the information of a token: for a
  user, an identifier if there is one.\<close>

datatype 'sid token_info = UserInfo "'sid option" | OtherInfo

record ('t, 'sid, 'd) SecurityApi =
  api_open_token :: "'t option"
  api_token_information :: "'t \<Rightarrow> 'sid token_info option"
  api_sid_string :: "'sid \<Rightarrow> bytes option"
  api_deserialize :: "u16 list \<Rightarrow> 'd option"

definition token_user_sid :: "('t, 'sid, 'd) SecurityApi \<Rightarrow> 't \<Rightarrow> (bytes, TransportError) result" where
  "token_user_sid api tok =
     bind (ok_or (api_token_information api tok) TAccessPolicy) (\<lambda>information.
     case information of
       OtherInfo \<Rightarrow> Err TAccessPolicy
     | UserInfo user \<Rightarrow>
         bind (ok_or user TAccessPolicy) (\<lambda>sid. ok_or (api_sid_string api sid) TAccessPolicy))"

definition current_user_sid :: "('t, 'sid, 'd) SecurityApi \<Rightarrow> (bytes, TransportError) result" where
  "current_user_sid api =
     bind (ok_or (api_open_token api) TAccessPolicy) (token_user_sid api)"

text \<open>
  The text of the descriptor and its wide form. Only digits and dashes follow the prefix of
  an accepted identifier, so the text is ASCII and each byte is one code unit; a wide string
  has no zero in it.
\<close>

definition sddl :: "bytes \<Rightarrow> bytes" where
  "sddl sid = lit ''O:'' @ sid @ lit ''D:P(A;;GA;;;'' @ sid @ lit '')''"

definition wide_string :: "bytes \<Rightarrow> u16 list option" where
  "wide_string bs = (if 0 \<in> set bs then None else Some (map ucast bs))"

definition descriptor_for_sid :: "('t, 'sid, 'd) SecurityApi \<Rightarrow> bytes \<Rightarrow> ('d, TransportError) result" where
  "descriptor_for_sid api sid =
     (if \<not> starts_with (lit ''S-1-'') sid \<or> \<not> list_all (\<lambda>b. is_ascii_digit b \<or> b = 0x2D) (drop 4 sid)
      then Err TAccessPolicy
      else bind (ok_or (wide_string (sddl sid)) TAccessPolicy) (\<lambda>text.
           ok_or (api_deserialize api text) TAccessPolicy))"

definition current_user_descriptor :: "('t, 'sid, 'd) SecurityApi \<Rightarrow> ('d, TransportError) result" where
  "current_user_descriptor api = bind (current_user_sid api) (descriptor_for_sid api)"

section \<open>Listening\<close>

record 'd PipeListenerOptions =
  lo_path :: "u16 list"
  lo_accept_remote :: bool
  lo_inheritable :: bool
  lo_security_descriptor :: "'d option"

text \<open>\<open>create\<close> is the call that creates the pipe; the listener is what it returns.\<close>

definition pl_bind ::
  "('t, 'sid, 'd) SecurityApi \<Rightarrow> ('d PipeListenerOptions \<Rightarrow> ('l, io_error) result) \<Rightarrow> u16 list \<Rightarrow> ('l, TransportError) result" where
  "pl_bind api create path =
     bind (validate_path path) (\<lambda>_.
     bind (current_user_descriptor api) (\<lambda>descriptor.
     map_err TIo (create \<lparr>lo_path = path, lo_accept_remote = False, lo_inheritable = False,
       lo_security_descriptor = Some descriptor\<rparr>)))"

text \<open>An accepted pipe comes without an identity.\<close>

definition pl_accept :: "(unit, io_error) result \<Rightarrow> (PeerIdentity option, TransportError) result" where
  "pl_accept arrival = bind (map_err TIo arrival) (\<lambda>_. Ok None)"

text \<open>The standard listener as built for Windows: pipes and TCP, and nothing to clean up.\<close>

datatype WindowsEndpoint = WinTcp SocketAddr | WinPipe "u16 list"

datatype 'l WindowsBackend = TcpListening | NamedPipe 'l

record 'l WindowsListener =
  wl_inner :: "'l WindowsBackend"
  wl_endpoint :: WindowsEndpoint

definition wl_bind ::
  "('t, 'sid, 'd) SecurityApi \<Rightarrow> ('d PipeListenerOptions \<Rightarrow> ('l, io_error) result) \<Rightarrow> (SocketAddr, io_error) result
   \<Rightarrow> WindowsEndpoint \<Rightarrow> ('l WindowsListener, TransportError) result" where
  "wl_bind api create bound endpoint =
     (case endpoint of
        WinPipe path \<Rightarrow>
          bind (pl_bind api create path) (\<lambda>inner. Ok \<lparr>wl_inner = NamedPipe inner, wl_endpoint = endpoint\<rparr>)
      | WinTcp address \<Rightarrow>
          bind (map_err TIo bound) (\<lambda>a. Ok \<lparr>wl_inner = TcpListening, wl_endpoint = WinTcp a\<rparr>))"

definition wl_cleanup :: "'l WindowsListener \<Rightarrow> (unit, TransportError) result \<times> 'l WindowsListener" where
  "wl_cleanup l = (case wl_inner l of NamedPipe _ \<Rightarrow> (Ok (), l) | TcpListening \<Rightarrow> (Ok (), l))"

definition wl_accept :: "'l WindowsListener \<Rightarrow> (unit, io_error) result \<Rightarrow> (PeerIdentity option, TransportError) result" where
  "wl_accept l arrival =
     (case wl_inner l of NamedPipe _ \<Rightarrow> pl_accept arrival | TcpListening \<Rightarrow> bind (map_err TIo arrival) (\<lambda>_. Ok None))"

section \<open>Connecting\<close>

definition io_timed_out :: nat where "io_timed_out = 2"
definition io_broken_pipe :: nat where "io_broken_pipe = 3"

text \<open>
  Attempts to connect, each with the raw code of the error if it has one. The loop only ends
  by a stream or another error than a busy pipe; what ends it otherwise is the deadline of
  the caller, or the caller going away. The value counts the pauses.
\<close>

datatype pipe_attempt = PipeOpened | PipeRefused io_error "int option" | PipeElapsed | PipeDropped

definition pipe_busy :: "io_error \<Rightarrow> int option \<Rightarrow> bool" where
  "pipe_busy e raw \<longleftrightarrow> io_kind e = io_timed_out \<or> raw = Some 231"

fun pipe_connect_loop :: "pipe_attempt list \<Rightarrow> nat \<Rightarrow> (unit, TransportError) async \<times> nat" where
  "pipe_connect_loop [] pauses = (Fail TTimeout, pauses)"
| "pipe_connect_loop (PipeOpened # as) pauses = (Done (), pauses)"
| "pipe_connect_loop (PipeElapsed # as) pauses = (Fail TTimeout, pauses)"
| "pipe_connect_loop (PipeDropped # as) pauses = (Cancelled, pauses)"
| "pipe_connect_loop (PipeRefused e raw # as) pauses =
     (if pipe_busy e raw then pipe_connect_loop as (Suc pauses) else (Fail (TIo e), pauses))"

definition pipe_connect :: "u16 list \<Rightarrow> pipe_attempt list \<Rightarrow> (unit, TransportError) async \<times> nat" where
  "pipe_connect path as =
     (case validate_path path of
        Err e \<Rightarrow> (Fail e, 0)
      | Panic \<Rightarrow> (Abort, 0)
      | Ok _ \<Rightarrow> pipe_connect_loop as 0)"

definition connect_pipe :: "u16 list \<Rightarrow> ConnectOptions \<Rightarrow> pipe_attempt list \<Rightarrow> unit connecting" where
  "connect_pipe path opts as = within_deadline opts (\<lambda>w. (fst (pipe_connect path as), w))"

section \<open>Streams\<close>

datatype 'a poll = Pending | Ready 'a

record 's IoStream =
  st_read :: "nat \<Rightarrow> 's \<Rightarrow> (bytes, io_error) result poll \<times> 's"
  st_write :: "bytes \<Rightarrow> 's \<Rightarrow> (nat, io_error) result poll \<times> 's"
  st_flush :: "'s \<Rightarrow> (unit, io_error) result poll \<times> 's"
  st_shutdown :: "'s \<Rightarrow> (unit, io_error) result poll \<times> 's"
  st_write_vectored :: "bytes list \<Rightarrow> 's \<Rightarrow> (nat, io_error) result poll \<times> 's"
  st_is_write_vectored :: "'s \<Rightarrow> bool"

text \<open>The type-erased stream owns a stream and hands every call on.\<close>

record 's Stream =
  sm_inner :: 's

definition stream_new :: "'s \<Rightarrow> 's Stream" where
  "stream_new s = \<lparr>sm_inner = s\<rparr>"

definition delegated :: "('s \<Rightarrow> 'r \<times> 's) \<Rightarrow> 's Stream \<Rightarrow> 'r \<times> 's Stream" where
  "delegated f s = (case f (sm_inner s) of (r, i) \<Rightarrow> (r, s\<lparr>sm_inner := i\<rparr>))"

definition erased :: "'s IoStream \<Rightarrow> 's Stream IoStream" where
  "erased io =
     \<lparr>st_read = (\<lambda>n. delegated (st_read io n)),
      st_write = (\<lambda>bs. delegated (st_write io bs)),
      st_flush = delegated (st_flush io),
      st_shutdown = delegated (st_shutdown io),
      st_write_vectored = (\<lambda>bufs. delegated (st_write_vectored io bufs)),
      st_is_write_vectored = (\<lambda>s. st_is_write_vectored io (sm_inner s))\<rparr>"

definition stream_debug :: "'s Stream \<Rightarrow> dbg" where
  "stream_debug s = DStruct ''Stream'' [] True"

text \<open>
  The pipe stream. Beside it is the list of the native streams that were released with
  \<open>evade_limbo\<close>, each in the state it had then.
\<close>

record 'n PipeStream =
  ps_inner :: "'n option"

definition broken_pipe :: io_error where
  "broken_pipe = \<lparr>io_kind = io_broken_pipe, io_detail = []\<rparr>"

definition ps_release :: "'n PipeStream \<times> 'n list \<Rightarrow> 'n PipeStream \<times> 'n list" where
  "ps_release st =
     (case st of (ps, released) \<Rightarrow>
      case ps_inner ps of None \<Rightarrow> (ps, released) | Some n \<Rightarrow> (ps\<lparr>ps_inner := None\<rparr>, released @ [n]))"

definition ps_drop :: "'n PipeStream \<times> 'n list \<Rightarrow> 'n PipeStream \<times> 'n list" where
  "ps_drop st = ps_release st"

definition ps_read ::
  "'n IoStream \<Rightarrow> nat \<Rightarrow> 'n PipeStream \<times> 'n list \<Rightarrow> (bytes, io_error) result poll \<times> 'n PipeStream \<times> 'n list" where
  "ps_read native len st =
     (case st of (ps, released) \<Rightarrow>
      case ps_inner ps of
        None \<Rightarrow> (Ready (Ok []), st)
      | Some n \<Rightarrow> (case st_read native len n of (r, n) \<Rightarrow> (r, (ps\<lparr>ps_inner := Some n\<rparr>, released))))"

definition ps_write ::
  "'n IoStream \<Rightarrow> bytes \<Rightarrow> 'n PipeStream \<times> 'n list \<Rightarrow> (nat, io_error) result poll \<times> 'n PipeStream \<times> 'n list" where
  "ps_write native bs st =
     (case st of (ps, released) \<Rightarrow>
      case ps_inner ps of
        None \<Rightarrow> (Ready (Err broken_pipe), st)
      | Some n \<Rightarrow> (case st_write native bs n of (r, n) \<Rightarrow> (r, (ps\<lparr>ps_inner := Some n\<rparr>, released))))"

definition ps_flush :: "'n PipeStream \<times> 'n list \<Rightarrow> (unit, io_error) result poll \<times> 'n PipeStream \<times> 'n list" where
  "ps_flush st = (if ps_inner (fst st) = None then (Ready (Err broken_pipe), st) else (Ready (Ok ()), st))"

definition ps_shutdown :: "'n PipeStream \<times> 'n list \<Rightarrow> (unit, io_error) result poll \<times> 'n PipeStream \<times> 'n list" where
  "ps_shutdown st = (Ready (Ok ()), ps_release st)"

text \<open>The vectored calls are the ones the trait provides, which are not part of the sources.\<close>

definition pipe_io ::
  "'n IoStream \<Rightarrow> (bytes list \<Rightarrow> 'n PipeStream \<times> 'n list \<Rightarrow> (nat, io_error) result poll \<times> 'n PipeStream \<times> 'n list)
   \<Rightarrow> ('n PipeStream \<times> 'n list) IoStream" where
  "pipe_io native vectored =
     \<lparr>st_read = ps_read native, st_write = ps_write native, st_flush = ps_flush, st_shutdown = ps_shutdown,
      st_write_vectored = vectored, st_is_write_vectored = (\<lambda>_. False)\<rparr>"

section \<open>What a stream that can be shut down promises\<close>

datatype poll_op = PollRead nat | PollWrite bytes | PollFlush | PollShutdown

datatype poll_value =
    GotBytes "(bytes, io_error) result poll" | GotLength "(nat, io_error) result poll" | GotUnit "(unit, io_error) result poll"

fun poll_one :: "'s IoStream \<Rightarrow> poll_op \<Rightarrow> 's \<Rightarrow> poll_value \<times> 's" where
  "poll_one io (PollRead n) s = map_prod GotBytes id (st_read io n s)"
| "poll_one io (PollWrite bs) s = map_prod GotLength id (st_write io bs s)"
| "poll_one io PollFlush s = map_prod GotUnit id (st_flush io s)"
| "poll_one io PollShutdown s = map_prod GotUnit id (st_shutdown io s)"

primrec polls :: "'s IoStream \<Rightarrow> poll_op list \<Rightarrow> 's \<Rightarrow> poll_value list \<times> 's" where
  "polls io [] s = ([], s)"
| "polls io (a # as) s = (case poll_one io a s of (v, s) \<Rightarrow> case polls io as s of (vs, s) \<Rightarrow> (v # vs, s))"

text \<open>What a stream that was shut down answers.\<close>

fun closed_value :: "io_error \<Rightarrow> poll_op \<Rightarrow> poll_value" where
  "closed_value e (PollRead n) = GotBytes (Ready (Ok []))"
| "closed_value e (PollWrite bs) = GotLength (Ready (Err e))"
| "closed_value e PollFlush = GotUnit (Ready (Err e))"
| "closed_value e PollShutdown = GotUnit (Ready (Ok ()))"

locale closable =
  fixes io :: "'s IoStream" and shut :: "'s \<Rightarrow> bool" and refusal :: io_error
  assumes shutdown_shuts: "poll_one io PollShutdown s = (v, s') \<Longrightarrow> v = GotUnit (Ready (Ok ())) \<and> shut s'"
    and shut_stays: "shut s \<Longrightarrow> poll_one io a s = (closed_value refusal a, s)"
begin

lemma shut_polls: "shut s \<Longrightarrow> polls io as s = (map (closed_value refusal) as, s)"
  by (induction as) (simp_all add: shut_stays)

lemma polls_split:
  assumes "polls io (takeWhile (\<lambda>a. a \<noteq> PollShutdown) as) s = (vs, s1)"
  shows "\<exists>s2. polls io as s = (vs @ map (closed_value refusal) (drop (length vs) as), s2)
     \<and> (if PollShutdown \<in> set as then s2 = snd (poll_one io PollShutdown s1) \<and> shut s2 else s2 = s1)"
  using assms
proof (induction as arbitrary: s vs)
  case (Cons a as)
  show ?case
  proof (cases "a = PollShutdown")
    case True
    obtain v s2 where p: "poll_one io PollShutdown s = (v, s2)" by force
    then have "v = GotUnit (Ready (Ok ()))" "shut s2" using shutdown_shuts by auto
    then show ?thesis using Cons.prems True p shut_polls by auto
  next
    case False
    obtain v s' where p: "poll_one io a s = (v, s')" by force
    obtain vs' where "polls io (takeWhile (\<lambda>a. a \<noteq> PollShutdown) as) s' = (vs', s1)" "vs = v # vs'"
      using Cons.prems False p by (auto split: prod.splits)
    then show ?thesis using Cons.IH [of s' vs'] False p by auto
  qed
qed simp

end

text \<open>The erased stream promises whatever the stream inside promises.\<close>

lemma erased_one: "poll_one (erased io) a s = (case poll_one io a (sm_inner s) of (v, i) \<Rightarrow> (v, s\<lparr>sm_inner := i\<rparr>))"
  by (cases a) (auto simp: erased_def delegated_def split: prod.splits)

lemma erased_polls: "polls (erased io) as s = (case polls io as (sm_inner s) of (vs, i) \<Rightarrow> (vs, s\<lparr>sm_inner := i\<rparr>))"
  by (induction as arbitrary: s) (auto simp: erased_one split: prod.splits)

lemma erased_closable: "closable io shut e \<Longrightarrow> closable (erased io) (\<lambda>s. shut (sm_inner s)) e"
  by (auto simp: closable_def erased_one simp del: poll_one.simps split: prod.splits)

interpretation pipe: closable "pipe_io native vectored" "\<lambda>st. ps_inner (fst st) = None" broken_pipe for native vectored
proof (unfold_locales, goal_cases)
  case (1 s v s')
  then show ?case by (auto simp: pipe_io_def ps_shutdown_def ps_release_def split: prod.splits option.splits)
next
  case (2 s a)
  then show ?case by (cases a) (auto simp: pipe_io_def ps_read_def ps_write_def ps_flush_def ps_shutdown_def ps_release_def split: prod.splits)
qed

interpretation erased_pipe: closable "erased (pipe_io native vectored)" "\<lambda>s. ps_inner (fst (sm_inner s)) = None" broken_pipe for native vectored
  by (rule erased_closable [OF pipe.closable_axioms])

section \<open>Pipe streams\<close>

text \<open>A native stream whose flush does nothing.\<close>

definition lazy_flush :: "'n IoStream \<Rightarrow> 'n IoStream" where
  "lazy_flush native = native\<lparr>st_flush := \<lambda>n. (Ready (Ok ()), n)\<rparr>"

lemma pipe_live:
  "PollShutdown \<notin> set as \<Longrightarrow> polls (lazy_flush native) as n = (ws, n') \<Longrightarrow>
   polls (pipe_io native vectored) as (\<lparr>ps_inner = Some n\<rparr>, released) = (ws, (\<lparr>ps_inner = Some n'\<rparr>, released))"
proof (induction as arbitrary: n ws)
  case (Cons a as)
  obtain v n1 where v: "poll_one (lazy_flush native) a n = (v, n1)" by force
  then obtain ws1 where "polls (lazy_flush native) as n1 = (ws1, n')" "ws = v # ws1" using Cons.prems by (auto split: prod.splits)
  moreover have "poll_one (pipe_io native vectored) a (\<lparr>ps_inner = Some n\<rparr>, released) = (v, (\<lparr>ps_inner = Some n1\<rparr>, released))"
    using v Cons.prems(1) by (cases a) (auto simp: lazy_flush_def pipe_io_def ps_read_def ps_write_def ps_flush_def split: prod.splits)
  ultimately show ?case using Cons.IH [of n1 ws1] Cons.prems(1) by simp
qed simp

text \<open>
  C40: A pipe stream is closed exactly once and not used afterwards. Poll a type-erased pipe
  stream in any way and then drop it. Up to the first shutdown every read and write is the
  native one and a flush does nothing; from the shutdown on, reads report the end of the
  stream, writes and flushes a broken pipe, and further shutdowns succeed. In the end exactly
  one native stream has been released, the one the pipe was made of, in the state the polls
  before the shutdown left it in, whether or not there was a shutdown.
\<close>

theorem pipe_stream_exact:
  "case polls (erased (pipe_io native vectored)) as (stream_new (\<lparr>ps_inner = Some n\<rparr>, [])) of (vs, s) \<Rightarrow>
   case polls (lazy_flush native) (takeWhile (\<lambda>a. a \<noteq> PollShutdown) as) n of (ws, n') \<Rightarrow>
     vs = ws @ map (closed_value broken_pipe) (drop (length ws) as)
   \<and> ps_drop (sm_inner s) = (\<lparr>ps_inner = None\<rparr>, [n'])"
proof -
  obtain ws n' where live: "polls (lazy_flush native) (takeWhile (\<lambda>a. a \<noteq> PollShutdown) as) n = (ws, n')" by force
  have "PollShutdown \<notin> set (takeWhile (\<lambda>a. a \<noteq> PollShutdown) as)" by (auto dest: set_takeWhileD)
  from pipe.polls_split [OF pipe_live [OF this live]]
  obtain st where st: "polls (pipe_io native vectored) as (\<lparr>ps_inner = Some n\<rparr>, []) = (ws @ map (closed_value broken_pipe) (drop (length ws) as), st)"
    "if PollShutdown \<in> set as then st = snd (poll_one (pipe_io native vectored) PollShutdown (\<lparr>ps_inner = Some n'\<rparr>, []))
     else st = (\<lparr>ps_inner = Some n'\<rparr>, [])" by metis
  have "ps_drop st = (\<lparr>ps_inner = None\<rparr>, [n'])"
    using st(2) by (auto simp: ps_drop_def ps_release_def pipe_io_def ps_shutdown_def split: if_splits)
  then show ?thesis using st(1) live by (simp add: erased_polls stream_new_def)
qed

section \<open>The access policy\<close>

text \<open>The entries of a descriptor's text: what stands between an opening and the next closing parenthesis.\<close>

fun ace_texts :: "bytes option \<Rightarrow> bytes \<Rightarrow> bytes list" where
  "ace_texts acc [] = []"
| "ace_texts None (b # bs) = ace_texts (if b = 0x28 then Some [] else None) bs"
| "ace_texts (Some acc) (b # bs) = (if b = 0x29 then acc # ace_texts None bs else ace_texts (Some (acc @ [b])) bs)"

fun split_fields :: "byte \<Rightarrow> bytes \<Rightarrow> bytes \<Rightarrow> bytes list" where
  "split_fields sep acc [] = [acc]"
| "split_fields sep acc (b # bs) = (if b = sep then acc # split_fields sep [] bs else split_fields sep (acc @ [b]) bs)"

definition sid_text :: "bytes \<Rightarrow> bool" where
  "sid_text sid \<longleftrightarrow> starts_with (lit ''S-1-'') sid \<and> list_all (\<lambda>b. is_ascii_digit b \<or> b = 0x2D) (drop 4 sid)"

text \<open>One entry that allows everything to the owner, in a list protected from inheritance.\<close>

definition owner_only :: "bytes \<Rightarrow> bytes \<Rightarrow> bool" where
  "owner_only sid text \<longleftrightarrow>
     takeWhile (\<lambda>b. b \<noteq> 0x28) text = lit ''O:'' @ sid @ lit ''D:P''
   \<and> map (split_fields 0x3B []) (ace_texts None text) = [[lit ''A'', [], lit ''GA'', [], [], sid]]
   \<and> text \<noteq> [] \<and> last text = 0x29"

lemma ace_skip: "0x28 \<notin> set xs \<Longrightarrow> ace_texts None (xs @ ys) = ace_texts None ys"
  by (induction xs) auto

lemma ace_take: "0x29 \<notin> set xs \<Longrightarrow> ace_texts (Some acc) (xs @ 0x29 # ys) = (acc @ xs) # ace_texts None ys"
  by (induction xs arbitrary: acc) auto

lemma split_plain: "sep \<notin> set xs \<Longrightarrow> split_fields sep acc xs = [acc @ xs]"
  by (induction xs arbitrary: acc) auto

lemma sid_plain: "sid_text sid \<Longrightarrow> set sid \<subseteq> {0x53, 0x2D} \<union> Collect is_ascii_digit"
proof
  fix b assume a: "sid_text sid" "b \<in> set sid"
  obtain ys where ys: "sid = lit ''S-1-'' @ ys" using a(1) by (auto simp: sid_text_def starts_with_def strip_prefix_Some)
  then have "list_all (\<lambda>b. is_ascii_digit b \<or> b = 0x2D) ys" using a(1) by (simp add: sid_text_def lit_def)
  then show "b \<in> {0x53, 0x2D} \<union> Collect is_ascii_digit"
    using a(2) ys by (auto simp: lit_def list_all_iff is_ascii_digit_def)
qed

lemma sid_marks: "sid_text sid \<Longrightarrow> 0x28 \<notin> set sid \<and> 0x29 \<notin> set sid \<and> 0x3B \<notin> set sid \<and> 0 \<notin> set sid"
  using sid_plain [of sid] by (auto simp: is_ascii_digit_def)

lemma sddl_owner_only: "sid_text sid \<Longrightarrow> owner_only sid (sddl sid) \<and> wide_string (sddl sid) = Some (map ucast (sddl sid))"
proof -
  assume a: "sid_text sid"
  note m = sid_marks [OF a]
  have shape: "sddl sid = (lit ''O:'' @ sid @ lit ''D:P'') @ 0x28 # (lit ''A;;GA;;;'' @ sid) @ 0x29 # []" by (simp add: sddl_def lit_def)
  have n: "0x28 \<notin> set (lit ''O:'' @ sid @ lit ''D:P'')" "0x29 \<notin> set (lit ''A;;GA;;;'' @ sid)" using m by (auto simp: lit_def)
  have "ace_texts None (sddl sid) = [lit ''A;;GA;;;'' @ sid]"
    unfolding shape ace_skip [OF n(1)] using ace_take [OF n(2), of "[]" "[]"] by simp
  moreover have "split_fields 0x3B [] (lit ''A;;GA;;;'' @ sid) = [lit ''A'', [], lit ''GA'', [], [], sid]"
    using split_plain [of "0x3B" sid] m by (simp add: lit_def)
  moreover have "takeWhile (\<lambda>b. b \<noteq> 0x28) (sddl sid) = lit ''O:'' @ sid @ lit ''D:P''"
    unfolding shape using n(1) by (subst takeWhile_append2) auto
  moreover have "0 \<notin> set (sddl sid)" using m by (auto simp: sddl_def lit_def)
  ultimately show ?thesis using shape by (auto simp: owner_only_def wide_string_def)
qed

definition local_pipe :: "u16 list \<Rightarrow> bool" where
  "local_pipe path \<longleftrightarrow> (\<exists>name. path = pipe_prefix @ name \<and> name \<noteq> [] \<and> length path \<le> 256 \<and> set name \<inter> {0, 47, 92} = {})"

lemma validate_path_Ok: "validate_path path = Ok u \<longleftrightarrow> local_pipe path"
proof
  let ?n = "length pipe_prefix"
  assume "validate_path path = Ok u"
  then have t: "take ?n path = pipe_prefix" "?n < length path" "length path \<le> 256" "\<not> list_ex (\<lambda>u. u = 0 \<or> u = 47 \<or> u = 92) (drop ?n path)"
    by (simp_all add: validate_path_def split: if_splits)
  have "path = pipe_prefix @ drop ?n path" using append_take_drop_id [of ?n path] unfolding t(1) by simp
  moreover have "drop ?n path \<noteq> []" "set (drop ?n path) \<inter> {0, 47, 92} = {}" using t(2,4) by (auto simp: list_ex_iff)
  ultimately show "local_pipe path" using t(3) unfolding local_pipe_def by blast
next
  assume "local_pipe path"
  then obtain name where "path = pipe_prefix @ name" "name \<noteq> []" "length path \<le> 256" "set name \<inter> {0, 47, 92} = {}"
    by (auto simp: local_pipe_def)
  then show "validate_path path = Ok u" by (simp add: validate_path_def list_ex_iff) blast
qed

text \<open>
  C39: A pipe listener is for the current user alone. Binding succeeds exactly if the path
  names a pipe of this machine, the current user's identifier was obtained and is one, the
  system made a descriptor of the text for it, and the pipe was created with this descriptor,
  closed to remote clients and not inheritable. Whatever identifier was accepted, the text
  says: owned by that user, a protected list, and in it exactly one entry, which allows
  everything to that user.
\<close>

theorem pipe_listener_policy:
  "pl_bind api create path = Ok l \<longleftrightarrow>
     local_pipe path \<and> (\<exists>tok user sid descriptor.
       api_open_token api = Some tok \<and> api_token_information api tok = Some (UserInfo (Some user)) \<and> api_sid_string api user = Some sid
     \<and> sid_text sid \<and> owner_only sid (sddl sid) \<and> api_deserialize api (map ucast (sddl sid)) = Some descriptor
     \<and> create \<lparr>lo_path = path, lo_accept_remote = False, lo_inheritable = False, lo_security_descriptor = Some descriptor\<rparr> = Ok l)"
  (is "?lhs \<longleftrightarrow> ?rhs")
proof -
  have sid: "current_user_sid api = Ok sid \<longleftrightarrow> (\<exists>tok user. api_open_token api = Some tok
      \<and> api_token_information api tok = Some (UserInfo (Some user)) \<and> api_sid_string api user = Some sid)" for sid
    by (auto simp: current_user_sid_def token_user_sid_def bind_eq_Ok ok_or_eq split: token_info.splits)
      (metis token_info.exhaust)
  have desc: "descriptor_for_sid api sid = Ok d \<longleftrightarrow> sid_text sid \<and> api_deserialize api (map ucast (sddl sid)) = Some d" for sid d
    using sddl_owner_only [of sid] by (auto simp: descriptor_for_sid_def sid_text_def bind_eq_Ok ok_or_eq)
  have "map_err TIo r = Ok l \<longleftrightarrow> r = Ok l" for r by (cases r) (auto simp: map_err_def)
  then show ?thesis
    using sddl_owner_only validate_path_Ok [of path]
    by (auto simp: pl_bind_def current_user_descriptor_def bind_eq_Ok sid desc)
qed

section \<open>Retries\<close>

definition busy_attempt :: "pipe_attempt \<Rightarrow> bool" where
  "busy_attempt a = (case a of PipeRefused e raw \<Rightarrow> pipe_busy e raw | _ \<Rightarrow> False)"

text \<open>
  A connection is decided by the first attempt that does not find the pipe busy; each one
  before it costs a pause, and there is no attempt after it.
\<close>

theorem pipe_connect_first:
  "pipe_connect_loop as pauses =
     ((case dropWhile busy_attempt as of
         [] \<Rightarrow> Fail TTimeout | PipeOpened # _ \<Rightarrow> Done () | PipeRefused e _ # _ \<Rightarrow> Fail (TIo e)
       | PipeElapsed # _ \<Rightarrow> Fail TTimeout | PipeDropped # _ \<Rightarrow> Cancelled),
      pauses + length (takeWhile busy_attempt as))"
  by (induction as pauses rule: pipe_connect_loop.induct) (simp_all add: busy_attempt_def)

theorem connect_pipe_outcome:
  "case connect_pipe path opts as w of (r, w') \<Rightarrow> r \<noteq> Abort \<and> w_sent w' = w_sent w
     \<and> (if is_done r then local_pipe path \<and> PipeOpened \<in> set as else True)"
proof -
  obtain t w1 where n: "now w = (t, w1)" by force
  have sent: "w_sent w1 = w_sent w" using quiet_now [OF n] by (simp add: quiet_def)
  have opened: "dropWhile busy_attempt as = PipeOpened # xs \<Longrightarrow> PipeOpened \<in> set as" for xs
    by (metis list.set_intros(1) set_dropWhileD)
  have loop: "fst (pipe_connect_loop as 0) \<noteq> Abort \<and> (is_done (fst (pipe_connect_loop as 0)) \<longrightarrow> PipeOpened \<in> set as)"
    by (auto simp: pipe_connect_first dest: opened split: list.splits pipe_attempt.splits)
  have "fst (pipe_connect path as) \<noteq> Abort \<and> (is_done (fst (pipe_connect path as)) \<longrightarrow> local_pipe path \<and> PipeOpened \<in> set as)"
  proof (cases "validate_path path")
    case (Ok u)
    then show ?thesis using loop validate_path_Ok [of path u] by (simp add: pipe_connect_def)
  qed (simp_all add: pipe_connect_def validate_path_def split: if_splits)
  then show ?thesis using n sent by (simp add: connect_pipe_def within_deadline_def)
qed

section \<open>Discovery on Windows\<close>

text \<open>
  The path the discovery process prints may end in a carriage return and is text; which paths
  are absolute is a parameter. The socket file is then read by a blocking task: given are
  what the calls on the file at a path return and how waiting for the task ends. A task that
  panics is one that failed.
\<close>

definition output_path_windows :: "(bytes \<Rightarrow> bool) \<Rightarrow> bytes \<Rightarrow> (bytes, TransportError) result" where
  "output_path_windows is_absolute out =
     (case strip_suffix [LF] out of
        None \<Rightarrow> Err (TDiscovery InvalidOutput)
      | Some bs \<Rightarrow>
          let bs = (case strip_suffix [CR] bs of Some b \<Rightarrow> b | None \<Rightarrow> bs) in
          if bs = [] \<or> list_ex (\<lambda>b. b \<in> {0, LF}) bs then Err (TDiscovery InvalidOutput)
          else if \<not> utf8_valid bs then Err (TDiscovery InvalidOutput)
          else if \<not> is_absolute bs then Err (TDiscovery InvalidOutput)
          else Ok bs)"

datatype task = TaskFinished | TaskFailed | TaskElapsed | TaskDropped

type_synonym socket_file = "(unit, io_error) result \<times> (bool, io_error) result \<times> (bytes, io_error) result list"

definition read_in_task :: "(nat \<Rightarrow> bool) \<Rightarrow> task \<Rightarrow> socket_file \<Rightarrow> (ResolvedEndpoint, TransportError) async" where
  "read_in_task alloc task file =
     (case task of
        TaskElapsed \<Rightarrow> Fail TTimeout
      | TaskFailed \<Rightarrow> Fail (TDiscovery InvalidOutput)
      | TaskDropped \<Rightarrow> Cancelled
      | TaskFinished \<Rightarrow>
          (case file of (opened, is_file, reads) \<Rightarrow>
           case read_native_socket_file alloc opened is_file reads of
             Ok r \<Rightarrow> Done r
           | Err e \<Rightarrow> Fail e
           | Panic \<Rightarrow> Fail (TDiscovery InvalidOutput)))"

definition resolve_windows ::
  "(nat \<Rightarrow> bool) \<Rightarrow> (bytes \<Rightarrow> bool) \<Rightarrow> (unit, io_error) result \<Rightarrow> proc_event list \<Rightarrow> (bytes \<Rightarrow> socket_file) \<Rightarrow> task
   \<Rightarrow> world \<Rightarrow> (ResolvedEndpoint, TransportError) async" where
  "resolve_windows alloc is_absolute spawned evs files task w =
     (let (t, w) = now w in
      if t + DISCOVERY_TIMEOUT > w_instant_max w then Abort
      else case fst (run_process alloc spawned evs) of
        Done out \<Rightarrow>
          (case output_path_windows is_absolute (sb_expose out) of
             Ok path \<Rightarrow> read_in_task alloc task (files path)
           | Err e \<Rightarrow> Fail e
           | Panic \<Rightarrow> Abort)
      | Fail e \<Rightarrow> Fail e
      | Abort \<Rightarrow> Abort
      | Cancelled \<Rightarrow> Cancelled)"

text \<open>Whatever the process and the file say, a resolved endpoint is a port of this machine, with a nonce.\<close>

lemma parse_file_loopback:
  assumes "parse_native_socket_file alloc bs = Ok r"
  shows "\<exists>port nonce. port \<noteq> 0 \<and> r = \<lparr>re_endpoint = EpTcp \<lparr>sa_ip = IpV4 0x7F000001, sa_port = port\<rparr>, re_nonce = Some nonce\<rparr>"
proof -
  let ?n = "length (takeWhile (\<lambda>b. b \<noteq> LF) bs)"
  obtain port store where "port \<noteq> 0" and e: "(case sb_extend_from_slice store (drop (?n + 1) bs) of
      (Ok _, nonce) \<Rightarrow> Ok \<lparr>re_endpoint = EpTcp \<lparr>sa_ip = IpV4 0x7F000001, sa_port = port\<rparr>, re_nonce = Some nonce\<rparr>
    | (Err e, _) \<Rightarrow> Err (TLimit e) | (Panic, _) \<Rightarrow> Panic) = Ok r"
    using assms unfolding parse_native_socket_file_def Let_def by (auto simp: bind_eq_Ok split: if_splits)
  then show ?thesis by (cases "sb_extend_from_slice store (drop (?n + 1) bs)") (auto split: result.splits)
qed

theorem resolve_windows_loopback:
  "case resolve_windows alloc is_absolute spawned evs files task w of
     Done r \<Rightarrow> (\<exists>port nonce. port \<noteq> 0 \<and> r = \<lparr>re_endpoint = EpTcp \<lparr>sa_ip = IpV4 0x7F000001, sa_port = port\<rparr>, re_nonce = Some nonce\<rparr>)
   | _ \<Rightarrow> True"
proof -
  have "read_in_task alloc task f = Done r \<Longrightarrow> \<exists>bs. parse_native_socket_file alloc bs = Ok r" for f r
    by (auto simp: read_in_task_def read_native_socket_file_def bind_eq_Ok split: task.splits prod.splits result.splits if_splits)
  then have "resolve_windows alloc is_absolute spawned evs files task w = Done r \<Longrightarrow> \<exists>bs. parse_native_socket_file alloc bs = Ok r" for r
    by (auto simp: resolve_windows_def split: prod.splits if_splits async.splits result.splits)
  then show ?thesis using parse_file_loopback by (auto split: async.split)
qed

end
