(* ===== verification/Macro_Literals.thy ===== *)
theory Macro_Literals
  imports Sexpr_Writer Command
begin

text \<open>
  The literal macros (\<open>assuan-macros/src/sexpr.rs\<close>, \<open>command.rs\<close>, \<open>paths.rs\<close>): \<open>sexpr!\<close> builds a
  canonical S-expression out of string literals and parentheses during compilation, and
  \<open>command!\<close> checks a command line. Their input is the token tree the compiler hands over;
  \<open>tok\<close> has the kinds of tokens the macros tell apart. Two packages are parameters: which
  names the syntax library takes as identifiers, and what the manifest reader answers for a
  package.
\<close>

section \<open>The S-expression builder\<close>

text \<open>A literal carries its value and its suffix, such as \<open>u8\<close> in \<open>''a''u8\<close>.\<close>

datatype tok = TStr bytes string | TByteStr bytes string | TParen "tok list" | TComma | TOther

datatype MacroError =
    NodesExceeded | NestingExceeded | AtomExceeded | SizeExceeded | NoOutputMemory
  | SuffixUnsupported | ExpectedLiteral | UnexpectedToken
  | NotCanonical ParseError | NotCommand ProtocolError
  | PackageUnsupported | DependencyMissing string | NotIdentifier
  | ExpectedMetadata | NameTooLong | NameReserved | DescriptionForbidden | NotFunction
  | NotSafeAsync | ArgumentCount | ReceiverUnsupported | ExpectedType string
  | TypeArgumentUnsupported | TypeArgumentsUnsupported | LifetimeNamed | CommandArguments
  | ContextNotReference | ContextNotMutable | StateTypes | ResultExpected | ErrorArguments
  | AttributeUnsupported

record Builder =
  bd_bytes :: bytes
  bd_nodes :: nat

definition bd_append :: "ParseLimits \<Rightarrow> (nat \<Rightarrow> bool) \<Rightarrow> bytes \<Rightarrow> Builder \<Rightarrow> (Builder, MacroError) result" where
  "bd_append lim mem bs b =
     (if length bs > max_input lim - length (bd_bytes b) then Err SizeExceeded
      else if \<not> mem (length (bd_bytes b) + length bs) then Err NoOutputMemory
      else Ok (b\<lparr>bd_bytes := bd_bytes b @ bs\<rparr>))"

definition bd_atom :: "ParseLimits \<Rightarrow> (nat \<Rightarrow> bool) \<Rightarrow> bytes \<Rightarrow> Builder \<Rightarrow> (Builder, MacroError) result" where
  "bd_atom lim mem bs b =
     (if length bs > max_atom lim then Err AtomExceeded
      else bind (bd_append lim mem (dec (length bs)) b) (\<lambda>b.
           bind (bd_append lim mem [COLON] b) (\<lambda>b.
           bd_append lim mem bs b)))"

text \<open>
  \<open>expression\<close> looks at the next token tree; the loop over the content of a list ends with
  the content, so it never asks for an expression where there is none.
\<close>

fun expression :: "ParseLimits \<Rightarrow> (nat \<Rightarrow> bool) \<Rightarrow> nat \<Rightarrow> tok \<Rightarrow> Builder \<Rightarrow> (Builder, MacroError) result"
  and content_loop :: "ParseLimits \<Rightarrow> (nat \<Rightarrow> bool) \<Rightarrow> nat \<Rightarrow> tok list \<Rightarrow> Builder \<Rightarrow> (Builder, MacroError) result" where
  "expression lim mem depth t b =
     (if bd_nodes b \<ge> max_nodes lim then Err NodesExceeded
      else let b = b\<lparr>bd_nodes := bd_nodes b + 1\<rparr> in
        (case t of
           TParen content \<Rightarrow>
             if depth \<ge> max_depth lim then Err NestingExceeded
             else bind (bd_append lim mem [LPAREN] b) (\<lambda>b.
                  bind (content_loop lim mem (depth + 1) content b) (\<lambda>b.
                  bd_append lim mem [RPAREN] b))
         | TStr v suffix \<Rightarrow> if suffix \<noteq> [] then Err SuffixUnsupported else bd_atom lim mem v b
         | TByteStr v suffix \<Rightarrow> if suffix \<noteq> [] then Err SuffixUnsupported else bd_atom lim mem v b
         | _ \<Rightarrow> Err ExpectedLiteral))"
| "content_loop lim mem depth [] b = Ok b"
| "content_loop lim mem depth (t # ts) b =
     bind (expression lim mem depth t b) (\<lambda>b. content_loop lim mem depth ts b)"

text \<open>\<open>parse2\<close> refuses tokens behind the expression.\<close>

definition sexpr_literal :: "ParseLimits \<Rightarrow> (nat \<Rightarrow> bool) \<Rightarrow> tok list \<Rightarrow> (bytes, MacroError) result" where
  "sexpr_literal lim mem input =
     (case input of
        [] \<Rightarrow> if 0 \<ge> max_nodes lim then Err NodesExceeded else Err ExpectedLiteral
      | t # rest \<Rightarrow>
          bind (expression lim mem 0 t \<lparr>bd_bytes = [], bd_nodes = 0\<rparr>) (\<lambda>b.
          if rest \<noteq> [] then Err UnexpectedToken else Ok (bd_bytes b)))"

definition sexpr_expand :: "(nat \<Rightarrow> bool) \<Rightarrow> (reserve_site \<Rightarrow> bool) \<Rightarrow> tok list \<Rightarrow> (bytes, MacroError) result" where
  "sexpr_expand mem mem' input =
     bind (sexpr_literal ParseLimits_default mem input) (\<lambda>bs.
     bind (map_err NotCanonical (parse_complete mem' bs ParseLimits_default)) (\<lambda>_. Ok bs))"

declare expression.simps [simp del]

section \<open>Paths of the generated code\<close>

datatype FoundCrate = Itself | CrateName string

text \<open>A path: whether it starts at the crate names, and its segments.\<close>

type_synonym crate_path = "bool \<times> string list"

definition root_path :: "(string \<Rightarrow> bool) \<Rightarrow> FoundCrate \<Rightarrow> (crate_path, MacroError) result" where
  "root_path is_ident found =
     (case found of
        Itself \<Rightarrow> Ok (False, [''crate''])
      | CrateName name \<Rightarrow>
          if is_ident name then Ok (True, [name])
          else if is_ident (''r#'' @ name) then Ok (True, [''r#'' @ name])
          else Err NotIdentifier)"

definition select_path ::
  "(string \<Rightarrow> bool) \<Rightarrow> string \<Rightarrow> FoundCrate option \<Rightarrow> FoundCrate option \<Rightarrow> (crate_path, MacroError) result" where
  "select_path is_ident package facade direct =
     (case facade of
        Some found \<Rightarrow>
          bind (case found of Itself \<Rightarrow> Ok (True, [''assuan_library'']) | CrateName _ \<Rightarrow> root_path is_ident found) (\<lambda>root.
          bind (if package = ''assuan-protocol'' then Ok ''protocol''
                else if package = ''assuan-server'' then Ok ''server''
                else if package = ''assuan-sexpr'' then Ok ''sexpr''
                else Err PackageUnsupported) (\<lambda>name.
          Ok (fst root, snd root @ [name])))
      | None \<Rightarrow>
          (case direct of
             Some found \<Rightarrow> root_path is_ident found
           | None \<Rightarrow> Err (DependencyMissing package)))"

definition resolve_path :: "(string \<Rightarrow> bool) \<Rightarrow> (string \<Rightarrow> FoundCrate option) \<Rightarrow> string \<Rightarrow> (crate_path, MacroError) result" where
  "resolve_path is_ident crate_name package = select_path is_ident package (crate_name ''assuan-library'') (crate_name package)"

section \<open>The command literal\<close>

definition command_expand ::
  "(string \<Rightarrow> bool) \<Rightarrow> (string \<Rightarrow> FoundCrate option) \<Rightarrow> tok list \<Rightarrow> (crate_path \<times> bytes, MacroError) result" where
  "command_expand is_ident crate_name input =
     (case input of
        [TStr v suffix] \<Rightarrow>
          if suffix \<noteq> [] then Err SuffixUnsupported
          else bind (map_err NotCommand (Command_parse v)) (\<lambda>_.
               bind (resolve_path is_ident crate_name ''assuan-protocol'') (\<lambda>protocol. Ok (protocol, v)))
      | _ \<Rightarrow> Err ExpectedLiteral)"

text \<open>What the expansion does at run time: it parses the literal again and expects success.\<close>

definition command_literal :: "bytes \<Rightarrow> (Command, MacroError) result" where
  "command_literal bs = (case Command_parse bs of Ok c \<Rightarrow> Ok c | _ \<Rightarrow> Panic)"

section \<open>What the builder writes\<close>

text \<open>The expression a token tree stands for, if it is one.\<close>

fun meaning :: "tok \<Rightarrow> Sexpr option" and meanings :: "tok list \<Rightarrow> Sexpr list option" where
  "meaning (TStr v suffix) = (if suffix = [] then Some (Atom v) else None)"
| "meaning (TByteStr v suffix) = (if suffix = [] then Some (Atom v) else None)"
| "meaning (TParen ts) = map_option SList (meanings ts)"
| "meaning TComma = None"
| "meaning TOther = None"
| "meanings [] = Some []"
| "meanings (t # ts) = (case meaning t of None \<Rightarrow> None | Some e \<Rightarrow> map_option ((#) e) (meanings ts))"

lemma append_Ok:
  "bd_append lim (\<lambda>_. True) bs b = Ok b' \<longleftrightarrow>
     b' = b\<lparr>bd_bytes := bd_bytes b @ bs\<rparr> \<and> length bs \<le> max_input lim - length (bd_bytes b)"
  by (auto simp: bd_append_def)

text \<open>What one step of the builder adds: an expression within the limits that are left.\<close>

definition grows :: "ParseLimits \<Rightarrow> nat \<Rightarrow> Builder \<Rightarrow> Sexpr list \<Rightarrow> Builder \<Rightarrow> bool" where
  "grows lim depth b es b' \<longleftrightarrow>
     b' = \<lparr>bd_bytes = bd_bytes b @ concat (map canonical es), bd_nodes = bd_nodes b + sum_list (map nodes es)\<rparr>
     \<and> length (bd_bytes b') \<le> max_input lim \<and> bd_nodes b' \<le> max_nodes lim
     \<and> list_all (\<lambda>e. depth_le (max_depth lim - depth) e \<and> atoms_le (max_atom lim) e) es"

lemma grows_Nil: "length (bd_bytes b) \<le> max_input lim \<Longrightarrow> bd_nodes b \<le> max_nodes lim \<Longrightarrow> grows lim depth b [] b' \<longleftrightarrow> b' = b"
  by (auto simp: grows_def)

lemma grows_Cons:
  "grows lim depth b (e # es) b' \<longleftrightarrow> (\<exists>b1. grows lim depth b [e] b1 \<and> grows lim depth b1 es b')"
  by (auto simp: grows_def)

lemma atom_Ok:
  assumes "length (bd_bytes b) \<le> max_input lim" and "bd_nodes b < max_nodes lim"
  shows "bd_atom lim (\<lambda>_. True) v (b\<lparr>bd_nodes := bd_nodes b + 1\<rparr>) = Ok b' \<longleftrightarrow> grows lim depth b [Atom v] b'"
  using assms by (auto simp: bd_atom_def bind_eq_Ok append_Ok grows_def)

lemma list_Ok:
  assumes "length (bd_bytes b) \<le> max_input lim" and "bd_nodes b < max_nodes lim" and "depth < max_depth lim"
  shows "(\<exists>b1 b2. bd_append lim (\<lambda>_. True) [LPAREN] (b\<lparr>bd_nodes := bd_nodes b + 1\<rparr>) = Ok b1 \<and> grows lim (depth + 1) b1 es b2
            \<and> bd_append lim (\<lambda>_. True) [RPAREN] b2 = Ok b')
         \<longleftrightarrow> grows lim depth b [SList es] b'"
proof -
  have d: "max_depth lim - depth = Suc (max_depth lim - (depth + 1))" using assms(3) by simp
  show ?thesis
    using assms by (auto simp: append_Ok grows_def list_all_iff d)
qed

lemma expression_Ok:
  "length (bd_bytes b) \<le> max_input lim \<Longrightarrow> bd_nodes b \<le> max_nodes lim \<Longrightarrow> mem = (\<lambda>_. True) \<Longrightarrow>
     expression lim mem depth t b = Ok b' \<longleftrightarrow> (\<exists>e. meaning t = Some e \<and> grows lim depth b [e] b')"
  "length (bd_bytes b) \<le> max_input lim \<Longrightarrow> bd_nodes b \<le> max_nodes lim \<Longrightarrow> mem = (\<lambda>_. True) \<Longrightarrow>
     content_loop lim mem depth ts b = Ok b' \<longleftrightarrow> (\<exists>es. meanings ts = Some es \<and> grows lim depth b es b')"
proof (induction lim mem depth t b and lim mem depth ts b arbitrary: b' and b' rule: expression_content_loop.induct)
  case (1 lim mem depth t b)
  show ?case
  proof (cases "bd_nodes b < max_nodes lim")
    case False
    then have "\<not> grows lim depth b [e] b'" for e by (cases e) (auto simp: grows_def)
    then show ?thesis using False by (simp add: expression.simps)
  next
    case lt: True
    show ?thesis
    proof (cases t)
      case (TParen content)
      show ?thesis
      proof (cases "depth < max_depth lim")
        case False
        then have "\<not> grows lim depth b [SList es] b'" for es by (simp add: grows_def)
        then show ?thesis using False lt TParen by (auto simp: expression.simps)
      next
        case True
        have ih: "content_loop lim mem (depth + 1) content b1 = Ok b2 \<longleftrightarrow>
            (\<exists>es. meanings content = Some es \<and> grows lim (depth + 1) b1 es b2)"
          if "bd_append lim (\<lambda>_. True) [LPAREN] (b\<lparr>bd_nodes := bd_nodes b + 1\<rparr>) = Ok b1" for b1 b2
          using "1.IH" [OF _ refl TParen] that lt True "1.prems" by (auto simp: append_Ok)
        have "expression lim mem depth t b = Ok b' \<longleftrightarrow>
            (\<exists>b1 b2. bd_append lim (\<lambda>_. True) [LPAREN] (b\<lparr>bd_nodes := bd_nodes b + 1\<rparr>) = Ok b1
               \<and> content_loop lim mem (depth + 1) content b1 = Ok b2 \<and> bd_append lim (\<lambda>_. True) [RPAREN] b2 = Ok b')"
          using lt TParen True "1.prems"(3) by (simp add: expression.simps [of lim] bind_eq_Ok)
        also have "\<dots> \<longleftrightarrow>
            (\<exists>b1 b2. bd_append lim (\<lambda>_. True) [LPAREN] (b\<lparr>bd_nodes := bd_nodes b + 1\<rparr>) = Ok b1
               \<and> (\<exists>es. meanings content = Some es \<and> grows lim (depth + 1) b1 es b2)
               \<and> bd_append lim (\<lambda>_. True) [RPAREN] b2 = Ok b')"
          using ih by blast
        also have "\<dots> \<longleftrightarrow> (\<exists>es. meanings content = Some es \<and> grows lim depth b [SList es] b')"
          using list_Ok [OF "1.prems"(1) lt True] by blast
        finally show ?thesis using TParen by auto
      qed
    qed (use lt "1.prems" atom_Ok in \<open>auto simp: expression.simps [of lim]\<close>)
  qed
next
  case (2 lim mem depth b)
  then show ?case by (auto simp: grows_Nil)
next
  case (3 lim mem depth t ts b)
  have "content_loop lim mem depth (t # ts) b = Ok b' \<longleftrightarrow>
      (\<exists>b1. expression lim mem depth t b = Ok b1 \<and> content_loop lim mem depth ts b1 = Ok b')" by (simp add: bind_eq_Ok)
  also have "\<dots> \<longleftrightarrow> (\<exists>b1. (\<exists>e. meaning t = Some e \<and> grows lim depth b [e] b1)
      \<and> (\<exists>es. meanings ts = Some es \<and> grows lim depth b1 es b'))"
    using "3.IH" "3.prems" by (auto simp: grows_def)
  also have "\<dots> \<longleftrightarrow> (\<exists>es. meanings (t # ts) = Some es \<and> grows lim depth b es b')"
    by (cases "meaning t"; cases "meanings ts") (simp_all add: grows_Cons [symmetric])
  finally show ?case .
qed

text \<open>A literal the compiler accepted does not panic when the program runs.\<close>

lemma command_literal_runs:
  "command_expand is_ident crate_name input = Ok (protocol, bs) \<Longrightarrow> \<exists>c. command_literal bs = Ok c \<and> Command_parse bs = Ok c"
  by (auto simp: command_expand_def command_literal_def bind_eq_Ok map_err_eq_Ok split: list.splits tok.splits if_splits)

text \<open>
  C37: The S-expression macro is exact. With memory available it accepts exactly one literal or
  parenthesised group that is an expression within the parser's limits, and it emits its
  canonical encoding: the bytes that the parser maps back to that expression, so the check
  of the emitted bytes never fails.
\<close>

theorem sexpr_macro_exact:
  "(sexpr_expand (\<lambda>_. True) (\<lambda>_. True) input = Ok bs \<longleftrightarrow>
     (\<exists>t e. input = [t] \<and> meaning t = Some e \<and> bs = canonical e
        \<and> length bs \<le> max_input ParseLimits_default \<and> fits ParseLimits_default e))
   \<and> (sexpr_expand (\<lambda>_. True) (\<lambda>_. True) input = Ok bs \<longleftrightarrow> sexpr_literal ParseLimits_default (\<lambda>_. True) input = Ok bs)"
proof -
  let ?lim = ParseLimits_default
  let ?b = "\<lparr>bd_bytes = [], bd_nodes = 0\<rparr>"
  have lit: "sexpr_literal ?lim (\<lambda>_. True) input = Ok bs \<longleftrightarrow>
      (\<exists>t e. input = [t] \<and> meaning t = Some e \<and> bs = canonical e \<and> length bs \<le> max_input ?lim \<and> fits ?lim e)"
  proof (cases input)
    case Nil
    then show ?thesis by (simp add: sexpr_literal_def)
  next
    case (Cons t rest)
    have "expression ?lim (\<lambda>_. True) 0 t ?b = Ok b \<longleftrightarrow> (\<exists>e. meaning t = Some e \<and> grows ?lim 0 ?b [e] b)" for b
      using expression_Ok(1) [of ?b ?lim "\<lambda>_. True"] by simp
    then show ?thesis using Cons by (auto simp: sexpr_literal_def bind_eq_Ok grows_def fits_def)
  qed
  moreover have "parse_complete (\<lambda>_. True) (canonical e) ?lim = Ok e"
    if "length (canonical e) \<le> max_input ?lim" "fits ?lim e" for e
    using parse_prefix_complete [of ?lim "canonical e" e] that
    by (simp add: parse_complete_def ParseLimits_default_def usize_max_def)
  moreover have "sexpr_expand (\<lambda>_. True) (\<lambda>_. True) input = Ok bs \<longleftrightarrow>
      sexpr_literal ?lim (\<lambda>_. True) input = Ok bs \<and> is_ok (parse_complete (\<lambda>_. True) bs ?lim)"
    by (cases "sexpr_literal ?lim (\<lambda>_. True) input")
       (auto simp: sexpr_expand_def bind_def map_err_def is_ok_def split: result.splits)
  ultimately have "sexpr_expand (\<lambda>_. True) (\<lambda>_. True) input = Ok bs \<longleftrightarrow> sexpr_literal ?lim (\<lambda>_. True) input = Ok bs"
    by (metis is_ok_simps(1))
  then show ?thesis using lit by blast
qed

end
