(* ===== verification/Macro_Attribute.thy ===== *)
theory Macro_Attribute
  imports Macro_Literals Server_Core
begin

text \<open>
  The attribute macro \<open>assuan_command\<close> (\<open>assuan-macros/src/attribute.rs\<close>): it checks the
  metadata, the signature and the attributes of an async function and turns it into a
  handler. The syntax of the function is modelled as far as the macro looks at it; the
  body is any value and the generated items are a record of what is spliced into them.
\<close>

section \<open>Syntax\<close>

datatype Ty =
    TyPath bool "Segment list" \<comment> \<open>with a qualified self type or not\<close>
  | TyRef "string option" bool Ty \<comment> \<open>lifetime, mutable or not\<close>
  | TyTuple "Ty list"
  | TyOther
and Segment = Segment string PathArguments
and PathArguments = ArgsNone | AngleBracketed "GenericArgument list" | Parenthesized
and GenericArgument = GaLifetime string | GaType Ty | GaOther

datatype FnArg = Typed Ty | Receiver

record Signature =
  sig_async :: bool
  sig_const :: bool
  sig_unsafe :: bool
  sig_abi :: bool
  sig_variadic :: bool
  sig_params :: nat
  sig_where :: bool
  sig_inputs :: "FnArg list"
  sig_output :: "Ty option"

text \<open>An attribute: its path if that is one identifier, and the rest.\<close>

record Attribute =
  at_ident :: "string option"
  at_rest :: string

datatype Visibility = Inherited | Visible string

record 'b ItemFn =
  fn_attrs :: "Attribute list"
  fn_vis :: Visibility
  fn_ident :: string
  fn_sig :: Signature
  fn_body :: 'b

section \<open>Validation\<close>

definition validate_metadata :: "bytes \<times> string \<Rightarrow> bytes \<times> string \<Rightarrow> (unit, MacroError) result" where
  "validate_metadata name description =
     (if snd name \<noteq> [] \<or> snd description \<noteq> [] then Err SuffixUnsupported
      else bind (map_err NotCommand (Command_new (fst name) [])) (\<lambda>_.
        if length (fst name) \<ge> MAX_LINE_BYTES then Err NameTooLong
        else if fst name \<in> {lit ''NOP'', lit ''BYE'', lit ''HELP'', lit ''RESET'', lit ''OPTION''} then Err NameReserved
        else if list_ex (\<lambda>b. b \<in> {0, CR, LF}) (fst description) then Err DescriptionForbidden
        else Ok ()))"

definition argument_type :: "FnArg \<Rightarrow> (Ty, MacroError) result" where
  "argument_type a = (case a of Typed t \<Rightarrow> Ok t | Receiver \<Rightarrow> Err ReceiverUnsupported)"

text \<open>The arguments of the last segment of the path, which must have the expected name.\<close>

definition named_type :: "Ty \<Rightarrow> string \<Rightarrow> (PathArguments, MacroError) result" where
  "named_type t expected =
     (case t of
        TyPath qself segs \<Rightarrow>
          if \<not> qself \<and> segs \<noteq> []
          then (case last segs of Segment name args \<Rightarrow> if name = expected then Ok args else Err (ExpectedType expected))
          else Err (ExpectedType expected)
      | _ \<Rightarrow> Err (ExpectedType expected))"

fun argument_loop :: "GenericArgument list \<Rightarrow> string option \<Rightarrow> Ty list \<Rightarrow> (string option \<times> Ty list, MacroError) result" where
  "argument_loop [] lifetime ts = Ok (lifetime, ts)"
| "argument_loop (a # as) lifetime ts =
     (case a of
        GaLifetime v \<Rightarrow>
          if lifetime = None \<and> ts = [] then argument_loop as (Some v) ts else Err TypeArgumentUnsupported
      | GaType t \<Rightarrow> argument_loop as lifetime (ts @ [t])
      | GaOther \<Rightarrow> Err TypeArgumentUnsupported)"

definition type_arguments :: "PathArguments \<Rightarrow> (string option \<times> Ty list, MacroError) result" where
  "type_arguments args =
     (case args of
        ArgsNone \<Rightarrow> Ok (None, [])
      | AngleBracketed as \<Rightarrow> argument_loop as None []
      | Parenthesized \<Rightarrow> Err TypeArgumentsUnsupported)"

definition validate_borrow_lifetime :: "string option \<Rightarrow> (unit, MacroError) result" where
  "validate_borrow_lifetime l = (if l \<noteq> None \<and> l \<noteq> Some ''_'' then Err LifetimeNamed else Ok ())"

definition validate_signature :: "Signature \<Rightarrow> (Ty, MacroError) result" where
  "validate_signature sg =
     (if \<not> sig_async sg \<or> sig_const sg \<or> sig_unsafe sg \<or> sig_abi sg \<or> sig_variadic sg \<or> sig_params sg \<noteq> 0 \<or> sig_where sg
      then Err NotSafeAsync
      else if length (sig_inputs sg) \<noteq> 2 then Err ArgumentCount
      else
        bind (argument_type (sig_inputs sg ! 0)) (\<lambda>first.
        bind (named_type first ''Command'') (\<lambda>command.
        bind (type_arguments command) (\<lambda>(lifetime, ts).
        bind (validate_borrow_lifetime lifetime) (\<lambda>_.
        if ts \<noteq> [] then Err CommandArguments
        else
          bind (argument_type (sig_inputs sg ! 1)) (\<lambda>second.
          (case second of
             TyRef lifetime mutable elem \<Rightarrow>
               if \<not> mutable then Err ContextNotMutable
               else
                 bind (validate_borrow_lifetime lifetime) (\<lambda>_.
                 bind (named_type elem ''CommandContext'') (\<lambda>ctx.
                 bind (type_arguments ctx) (\<lambda>(lifetime, ts).
                 bind (validate_borrow_lifetime lifetime) (\<lambda>_.
                 if length ts > 1 then Err StateTypes
                 else
                   (case sig_output sg of
                      None \<Rightarrow> Err ResultExpected
                    | Some out \<Rightarrow>
                        bind (named_type out ''Result'') (\<lambda>result.
                        bind (type_arguments result) (\<lambda>(lifetime, rts).
                        if lifetime \<noteq> None \<or> length rts \<noteq> 2 \<or> rts ! 0 \<noteq> TyTuple [] then Err ResultExpected
                        else
                          bind (named_type (rts ! 1) ''HandlerError'') (\<lambda>error.
                          if error \<noteq> ArgsNone then Err ErrorArguments
                          else Ok (case ts of [] \<Rightarrow> TyTuple [] | t # _ \<Rightarrow> t)))))))))
           | _ \<Rightarrow> Err ContextNotReference)))))))"

definition supported_attributes :: "string list" where
  "supported_attributes =
     [''doc'', ''cfg'', ''allow'', ''warn'', ''deny'', ''forbid'', ''deprecated'', ''inline'', ''cold'', ''must_use'']"

definition has_ident :: "string list \<Rightarrow> Attribute \<Rightarrow> bool" where
  "has_ident names a = (case at_ident a of None \<Rightarrow> False | Some n \<Rightarrow> n \<in> set names)"

definition validate_attributes :: "'b ItemFn \<Rightarrow> (unit, MacroError) result" where
  "validate_attributes f =
     (if list_all (has_ident supported_attributes) (fn_attrs f) then Ok () else Err AttributeUnsupported)"

section \<open>The expansion\<close>

text \<open>A comma-separated list of string literals, with a comma after the last one or not.\<close>

fun parse_terminated :: "tok list \<Rightarrow> ((bytes \<times> string) list, MacroError) result" where
  "parse_terminated [] = Ok []"
| "parse_terminated [TStr v suffix] = Ok [(v, suffix)]"
| "parse_terminated (TStr v suffix # TComma # ts) = bind (parse_terminated ts) (\<lambda>ls. Ok ((v, suffix) # ls))"
| "parse_terminated _ = Err ExpectedLiteral"

text \<open>
  The generated items: a unit struct, an inherent implementation with the function as a
  private helper, and the implementation of \<open>Handler\<close> that returns the metadata and calls
  the helper.
\<close>

record 'b Expansion =
  ex_protocol :: crate_path
  ex_server :: crate_path
  ex_adapter_attrs :: "Attribute list"
  ex_vis :: Visibility
  ex_ident :: string
  ex_gates :: "Attribute list"
  ex_helper :: "'b ItemFn"
  ex_state :: Ty
  ex_name :: bytes
  ex_description :: bytes

definition expand_attribute ::
  "(string \<Rightarrow> bool) \<Rightarrow> (string \<Rightarrow> FoundCrate option) \<Rightarrow> tok list \<Rightarrow> 'b ItemFn option \<Rightarrow> ('b Expansion, MacroError) result" where
  "expand_attribute is_ident crate_name args item =
     bind (parse_terminated args) (\<lambda>metadata.
     if length metadata \<noteq> 2 then Err ExpectedMetadata
     else
       bind (validate_metadata (metadata ! 0) (metadata ! 1)) (\<lambda>_.
       bind (ok_or item NotFunction) (\<lambda>f.
       bind (validate_signature (fn_sig f)) (\<lambda>state.
       bind (validate_attributes f) (\<lambda>_.
       bind (resolve_path is_ident crate_name ''assuan-protocol'') (\<lambda>protocol.
       bind (resolve_path is_ident crate_name ''assuan-server'') (\<lambda>server.
       Ok \<lparr>ex_protocol = protocol, ex_server = server,
           ex_adapter_attrs = filter (\<lambda>a. \<not> has_ident [''inline'', ''cold'', ''must_use''] a) (fn_attrs f),
           ex_vis = fn_vis f, ex_ident = fn_ident f,
           ex_gates = filter (has_ident [''cfg'']) (fn_attrs f),
           ex_helper = f\<lparr>fn_ident := ''__assuan_command_body'', fn_vis := Inherited,
             fn_attrs := filter (\<lambda>a. \<not> has_ident [''doc'', ''cfg'', ''deprecated''] a) (fn_attrs f)\<rparr>,
           ex_state = state, ex_name = fst (metadata ! 0), ex_description = fst (metadata ! 1)\<rparr>)))))))"

text \<open>The handler the generated implementation is.\<close>

definition adapter :: "'b Expansion \<Rightarrow> 'b Handler" where
  "adapter x = \<lparr>hd_name = ex_name x, hd_description = ex_description x, hd_call = fn_body (ex_helper x)\<rparr>"

text \<open>
  The entry points of the three macros: the tokens of the expansion, or those the syntax
  library makes of an error. Both are parameters.
\<close>

definition emitted :: "('a \<Rightarrow> 'tokens) \<Rightarrow> ('e \<Rightarrow> 'tokens) \<Rightarrow> ('a, 'e) result \<Rightarrow> ('tokens, 'x) result" where
  "emitted quote to_compile_error r =
     (case r of Ok x \<Rightarrow> Ok (quote x) | Err e \<Rightarrow> Ok (to_compile_error e) | Panic \<Rightarrow> Panic)"

definition assuan_command_macro ::
  "('b Expansion \<Rightarrow> 'tokens) \<Rightarrow> (MacroError \<Rightarrow> 'tokens) \<Rightarrow> (string \<Rightarrow> bool) \<Rightarrow> (string \<Rightarrow> FoundCrate option)
   \<Rightarrow> tok list \<Rightarrow> 'b ItemFn option \<Rightarrow> ('tokens, 'x) result" where
  "assuan_command_macro quote to_compile_error is_ident crate_name args item =
     emitted quote to_compile_error (expand_attribute is_ident crate_name args item)"

definition command_macro ::
  "(crate_path \<times> bytes \<Rightarrow> 'tokens) \<Rightarrow> (MacroError \<Rightarrow> 'tokens) \<Rightarrow> (string \<Rightarrow> bool) \<Rightarrow> (string \<Rightarrow> FoundCrate option)
   \<Rightarrow> tok list \<Rightarrow> ('tokens, 'x) result" where
  "command_macro quote to_compile_error is_ident crate_name input =
     emitted quote to_compile_error (command_expand is_ident crate_name input)"

definition sexpr_macro ::
  "(bytes \<Rightarrow> 'tokens) \<Rightarrow> (MacroError \<Rightarrow> 'tokens) \<Rightarrow> (nat \<Rightarrow> bool) \<Rightarrow> (reserve_site \<Rightarrow> bool) \<Rightarrow> tok list \<Rightarrow> ('tokens, 'x) result" where
  "sexpr_macro quote to_compile_error mem mem' input =
     emitted quote to_compile_error (sexpr_expand mem mem' input)"

section \<open>What is accepted\<close>

lemma named_type_Ok:
  "named_type t expected = Ok args \<longleftrightarrow> (\<exists>p. t = TyPath False (p @ [Segment expected args]))"
proof
  assume "named_type t expected = Ok args"
  then obtain segs where s: "t = TyPath False segs" "segs \<noteq> []" "last segs = Segment expected args"
    by (auto simp: named_type_def split: Ty.splits if_splits Segment.splits)
  then have "segs = butlast segs @ [Segment expected args]" by (metis append_butlast_last_id)
  then show "\<exists>p. t = TyPath False (p @ [Segment expected args])" using s(1) by blast
qed (auto simp: named_type_def)

lemma argument_loop_Ok:
  "argument_loop as l ts = Ok (l', ts') \<longleftrightarrow>
     (\<exists>new. ts' = ts @ new \<and>
        (as = map GaType new \<and> l' = l \<or> l = None \<and> ts = [] \<and> (\<exists>v. l' = Some v \<and> as = GaLifetime v # map GaType new)))"
proof (induction as arbitrary: l ts)
  case (Cons a as)
  show ?case
  proof (cases a)
    case (GaType t)
    then show ?thesis using Cons.IH [of l "ts @ [t]"]
      by (auto simp: Cons_eq_map_conv)
  qed (use Cons.IH in \<open>auto simp: Cons_eq_map_conv\<close>)
qed auto

text \<open>Arguments of a borrowed type: an anonymous lifetime or none, then the given types.\<close>

definition borrow_arguments :: "PathArguments \<Rightarrow> Ty list \<Rightarrow> bool" where
  "borrow_arguments args ts \<longleftrightarrow>
     args = ArgsNone \<and> ts = [] \<or> args = AngleBracketed (map GaType ts) \<or> args = AngleBracketed (GaLifetime ''_'' # map GaType ts)"

lemma type_arguments_borrow:
  "(\<exists>l. type_arguments args = Ok (l, ts) \<and> validate_borrow_lifetime l = Ok ()) \<longleftrightarrow> borrow_arguments args ts"
  by (cases args)
     (auto simp: type_arguments_def argument_loop_Ok validate_borrow_lifetime_def borrow_arguments_def split: if_splits)

lemma type_arguments_plain:
  "type_arguments args = Ok (None, ts) \<longleftrightarrow> args = ArgsNone \<and> ts = [] \<or> args = AngleBracketed (map GaType ts)"
  by (cases args) (auto simp: type_arguments_def argument_loop_Ok)

text \<open>The signatures of a handler with the given state.\<close>

definition handler_signature :: "Signature \<Rightarrow> Ty \<Rightarrow> bool" where
  "handler_signature sg state \<longleftrightarrow>
     sig_async sg \<and> \<not> sig_const sg \<and> \<not> sig_unsafe sg \<and> \<not> sig_abi sg \<and> \<not> sig_variadic sg \<and> sig_params sg = 0 \<and> \<not> sig_where sg
     \<and> (\<exists>p q r s command lifetime ctx.
          sig_inputs sg = [Typed (TyPath False (p @ [Segment ''Command'' command])),
                           Typed (TyRef lifetime True (TyPath False (q @ [Segment ''CommandContext'' ctx])))]
          \<and> sig_output sg = Some (TyPath False (r @ [Segment ''Result''
              (AngleBracketed [GaType (TyTuple []), GaType (TyPath False (s @ [Segment ''HandlerError'' ArgsNone]))])]))
          \<and> borrow_arguments command [] \<and> lifetime \<in> {None, Some ''_''}
          \<and> (borrow_arguments ctx [] \<and> state = TyTuple [] \<or> borrow_arguments ctx [state]))"

lemma argument_bind: "bind (argument_type a) k = Ok x \<longleftrightarrow> (\<exists>t. a = Typed t \<and> k t = Ok x)"
  by (cases a) (simp_all add: argument_type_def)

lemma named_bind:
  "bind (named_type t expected) k = Ok x \<longleftrightarrow> (\<exists>p args. t = TyPath False (p @ [Segment expected args]) \<and> k args = Ok x)"
  by (auto simp: bind_eq_Ok named_type_Ok)

lemma lifetime_bind: "bind (validate_borrow_lifetime l) k = Ok x \<longleftrightarrow> l \<in> {None, Some ''_''} \<and> k () = Ok x"
  by (auto simp: validate_borrow_lifetime_def)

lemma borrow_bind:
  "bind (type_arguments args) (\<lambda>(l, ts). bind (validate_borrow_lifetime l) (\<lambda>_. k ts)) = Ok x \<longleftrightarrow>
     (\<exists>ts. borrow_arguments args ts \<and> k ts = Ok x)"
  by (auto simp: bind_eq_Ok type_arguments_borrow [symmetric])

lemma result_bind:
  "bind (type_arguments args) (\<lambda>(l, ts). if l \<noteq> None \<or> length ts \<noteq> 2 \<or> ts ! 0 \<noteq> TyTuple [] then Err ResultExpected else bind (named_type (ts ! 1) n) k) = Ok x
     \<longleftrightarrow> (\<exists>t. args = AngleBracketed [GaType (TyTuple []), GaType t] \<and> bind (named_type t n) k = Ok x)"
proof
  assume "\<exists>t. args = AngleBracketed [GaType (TyTuple []), GaType t] \<and> bind (named_type t n) k = Ok x"
  then show "bind (type_arguments args)
      (\<lambda>(l, ts). if l \<noteq> None \<or> length ts \<noteq> 2 \<or> ts ! 0 \<noteq> TyTuple [] then Err ResultExpected else bind (named_type (ts ! 1) n) k) = Ok x"
    by (auto simp: type_arguments_def)
next
  assume "bind (type_arguments args)
      (\<lambda>(l, ts). if l \<noteq> None \<or> length ts \<noteq> 2 \<or> ts ! 0 \<noteq> TyTuple [] then Err ResultExpected else bind (named_type (ts ! 1) n) k) = Ok x"
  then obtain ts where "type_arguments args = Ok (None, ts)" "length ts = 2" "ts ! 0 = TyTuple []" "bind (named_type (ts ! 1) n) k = Ok x"
    by (auto simp: bind_eq_Ok split: if_splits)
  then show "\<exists>t. args = AngleBracketed [GaType (TyTuple []), GaType t] \<and> bind (named_type t n) k = Ok x"
    by (auto simp: type_arguments_plain length_Suc_conv eval_nat_numeral)
qed

lemma guard_Ok: "(if P then Err e else r) = Ok x \<longleftrightarrow> \<not> P \<and> r = Ok x"
  by simp

lemma reference_Ok:
  "(case t of TyRef l m elem \<Rightarrow> if \<not> m then Err e else k l elem | _ \<Rightarrow> Err e') = Ok x \<longleftrightarrow>
     (\<exists>l elem. t = TyRef l True elem \<and> k l elem = Ok x)"
  by (cases t) auto

lemma option_Ok: "(case v of None \<Rightarrow> Err e | Some y \<Rightarrow> k y) = Ok x \<longleftrightarrow> (\<exists>y. v = Some y \<and> k y = Ok x)"
  by (cases v) auto

lemma state_Ok:
  "\<not> 1 < length ts \<and> (case ts of [] \<Rightarrow> TyTuple [] | t # _ \<Rightarrow> t) = state \<longleftrightarrow> ts = [] \<and> state = TyTuple [] \<or> ts = [state]"
  by (cases ts rule: remdups_adj.cases) auto

lemma two_inputs: "\<not> length xs \<noteq> 2 \<and> xs ! 0 = a \<and> xs ! 1 = b \<longleftrightarrow> xs = [a, b]"
  by (auto simp: length_Suc_conv eval_nat_numeral)

lemma validate_signature_Ok: "validate_signature sg = Ok state \<longleftrightarrow> handler_signature sg state" (is "?l = ?r")
proof
  assume ?l
  then have v: "\<not> length (sig_inputs sg) \<noteq> 2" unfolding validate_signature_def guard_Ok by blast
  from \<open>?l\<close> obtain p command lifetime q ctx ts r s where
    "sig_inputs sg ! 0 = Typed (TyPath False (p @ [Segment ''Command'' command]))" "borrow_arguments command []"
    "sig_inputs sg ! 1 = Typed (TyRef lifetime True (TyPath False (q @ [Segment ''CommandContext'' ctx])))"
    "lifetime \<in> {None, Some ''_''}" "borrow_arguments ctx ts"
    "\<not> 1 < length ts \<and> (case ts of [] \<Rightarrow> TyTuple [] | t # _ \<Rightarrow> t) = state"
    "sig_output sg = Some (TyPath False (r @ [Segment ''Result''
       (AngleBracketed [GaType (TyTuple []), GaType (TyPath False (s @ [Segment ''HandlerError'' ArgsNone]))])]))"
    unfolding validate_signature_def guard_Ok argument_bind named_bind borrow_bind lifetime_bind reference_Ok option_Ok result_bind
    by fast
  moreover have "sig_async sg \<and> \<not> sig_const sg \<and> \<not> sig_unsafe sg \<and> \<not> sig_abi sg \<and> \<not> sig_variadic sg \<and> sig_params sg = 0 \<and> \<not> sig_where sg"
    using \<open>?l\<close> unfolding validate_signature_def guard_Ok by blast
  ultimately show ?r
    using v two_inputs [of "sig_inputs sg"] unfolding handler_signature_def state_Ok by blast
next
  assume ?r
  then obtain p q r s command lifetime ctx ts where
    "sig_inputs sg = [Typed (TyPath False (p @ [Segment ''Command'' command])),
                      Typed (TyRef lifetime True (TyPath False (q @ [Segment ''CommandContext'' ctx])))]"
    "sig_output sg = Some (TyPath False (r @ [Segment ''Result''
       (AngleBracketed [GaType (TyTuple []), GaType (TyPath False (s @ [Segment ''HandlerError'' ArgsNone]))])]))"
    "borrow_arguments command []" "lifetime \<in> {None, Some ''_''}" "borrow_arguments ctx ts"
    "\<not> 1 < length ts \<and> (case ts of [] \<Rightarrow> TyTuple [] | t # _ \<Rightarrow> t) = state"
    unfolding handler_signature_def state_Ok by blast
  with \<open>?r\<close> show ?l
    unfolding validate_signature_def guard_Ok argument_bind named_bind borrow_bind lifetime_bind reference_Ok option_Ok result_bind handler_signature_def
    by auto
qed

text \<open>The metadata: two literals, checked the way the registry checks them.\<close>

lemma two_literals:
  "parse_terminated args = Ok [a, b] \<longleftrightarrow>
     args \<in> {[TStr (fst a) (snd a), TComma, TStr (fst b) (snd b)], [TStr (fst a) (snd a), TComma, TStr (fst b) (snd b), TComma]}"
proof
  have none: "parse_terminated ts = Ok [] \<Longrightarrow> ts = []" for ts
    by (cases ts rule: parse_terminated.cases) (auto simp: bind_eq_Ok)
  have one: "parse_terminated ts = Ok [b] \<Longrightarrow> ts \<in> {[TStr (fst b) (snd b)], [TStr (fst b) (snd b), TComma]}" for ts
    by (cases ts rule: parse_terminated.cases) (auto simp: bind_eq_Ok dest: none)
  show "parse_terminated args = Ok [a, b] \<Longrightarrow>
      args \<in> {[TStr (fst a) (snd a), TComma, TStr (fst b) (snd b)], [TStr (fst a) (snd a), TComma, TStr (fst b) (snd b), TComma]}"
    using one by (cases args rule: parse_terminated.cases) (auto simp: bind_eq_Ok)
qed auto

lemma validate_metadata_Ok:
  "validate_metadata name description = Ok () \<longleftrightarrow>
     snd name = [] \<and> snd description = [] \<and> admissible_handler \<lparr>hd_name = fst name, hd_description = fst description, hd_call = h\<rparr>"
  by (auto simp: validate_metadata_def admissible_handler_def bind_eq_Ok map_err_eq_Ok Command_new_Ok clean_def
        forbidden_def reserved_names_def list_ex_iff split: if_splits)

lemma expand_attribute_Ok:
  "expand_attribute is_ident crate_name args item = Ok x \<longleftrightarrow>
     (\<exists>f. item = Some f
        \<and> args \<in> {[TStr (ex_name x) [], TComma, TStr (ex_description x) []],
                   [TStr (ex_name x) [], TComma, TStr (ex_description x) [], TComma]}
        \<and> admissible_handler (adapter x) \<and> handler_signature (fn_sig f) (ex_state x)
        \<and> list_all (has_ident supported_attributes) (fn_attrs f)
        \<and> resolve_path is_ident crate_name ''assuan-protocol'' = Ok (ex_protocol x)
        \<and> resolve_path is_ident crate_name ''assuan-server'' = Ok (ex_server x)
        \<and> ex_adapter_attrs x = filter (\<lambda>a. \<not> has_ident [''inline'', ''cold'', ''must_use''] a) (fn_attrs f)
        \<and> ex_vis x = fn_vis f \<and> ex_ident x = fn_ident f \<and> ex_gates x = filter (has_ident [''cfg'']) (fn_attrs f)
        \<and> ex_helper x = f\<lparr>fn_ident := ''__assuan_command_body'', fn_vis := Inherited,
             fn_attrs := filter (\<lambda>a. \<not> has_ident [''doc'', ''cfg'', ''deprecated''] a) (fn_attrs f)\<rparr>)" (is "?l = ?r")
proof
  assume ?l
  then obtain ls where ls: "parse_terminated args = Ok ls" "length ls = 2" "validate_metadata (ls ! 0) (ls ! 1) = Ok ()"
    "fst (ls ! 0) = ex_name x" "fst (ls ! 1) = ex_description x"
    by (auto simp: expand_attribute_def bind_eq_Ok split: if_splits)
  then have "ls = [(ex_name x, []), (ex_description x, [])]" "admissible_handler (adapter x)"
    using validate_metadata_Ok [of "ls ! 0" "ls ! 1" "fn_body (ex_helper x)"]
    by (auto simp: length_Suc_conv eval_nat_numeral adapter_def prod_eq_iff)
  then show ?r
    using \<open>?l\<close> two_literals [of args "(ex_name x, [])" "(ex_description x, [])"] ls(1)
    by (cases x) (auto simp: expand_attribute_def bind_eq_Ok ok_or_def validate_signature_Ok validate_attributes_def
          split: if_splits option.splits)
next
  assume ?r
  then have "parse_terminated args = Ok [(ex_name x, []), (ex_description x, [])]"
    using two_literals [of args "(ex_name x, [])" "(ex_description x, [])"] by auto
  moreover have "validate_metadata (ex_name x, []) (ex_description x, []) = Ok ()"
    using \<open>?r\<close> validate_metadata_Ok [of "(ex_name x, [])" "(ex_description x, [])" "fn_body (ex_helper x)"] by (auto simp: adapter_def)
  ultimately show ?l
    using \<open>?r\<close> by (cases x) (auto simp: expand_attribute_def bind_eq_Ok validate_signature_Ok validate_attributes_def)
qed

text \<open>
  C38: A function the attribute accepts is a handler the registry accepts. The expansion
  succeeds exactly for two unsuffixed string literals that are an admissible name and
  description, on a safe async function whose signature is that of a handler and whose
  attributes are supported, with the packages in reach. What it generates keeps the
  signature and the body, and registering it fails only if the name is already taken.
\<close>

theorem attribute_handler_registers:
  "(is_ok (expand_attribute is_ident crate_name args item) \<longleftrightarrow>
     (\<exists>name description f state. item = Some f
        \<and> args \<in> {[TStr name [], TComma, TStr description []], [TStr name [], TComma, TStr description [], TComma]}
        \<and> admissible_handler \<lparr>hd_name = name, hd_description = description, hd_call = fn_body f\<rparr>
        \<and> handler_signature (fn_sig f) state \<and> list_all (has_ident supported_attributes) (fn_attrs f)
        \<and> is_ok (resolve_path is_ident crate_name ''assuan-protocol'') \<and> is_ok (resolve_path is_ident crate_name ''assuan-server'')))
   \<and> (case expand_attribute is_ident crate_name args item of
        Ok x \<Rightarrow>
          (\<exists>f. item = Some f \<and> fn_sig (ex_helper x) = fn_sig f \<and> hd_call (adapter x) = fn_body f
             \<and> handler_signature (fn_sig f) (ex_state x))
          \<and> fst (rg_register shuffle (adapter x) reg) =
             (case rg_get reg (ex_name x) of None \<Rightarrow> Ok () | Some _ \<Rightarrow> Err (Duplicate (ex_name x)))
      | _ \<Rightarrow> True)" (is "(?ok \<longleftrightarrow> ?accepted) \<and> ?generated")
proof (intro conjI iffI)
  assume ?ok
  then obtain x where "expand_attribute is_ident crate_name args item = Ok x" by (auto simp: is_ok_def split: result.splits)
  from this [unfolded expand_attribute_Ok] obtain f where
    "item = Some f" "args \<in> {[TStr (ex_name x) [], TComma, TStr (ex_description x) []],
       [TStr (ex_name x) [], TComma, TStr (ex_description x) [], TComma]}"
    "admissible_handler (adapter x)" "fn_body (ex_helper x) = fn_body f" "handler_signature (fn_sig f) (ex_state x)"
    "list_all (has_ident supported_attributes) (fn_attrs f)"
    "resolve_path is_ident crate_name ''assuan-protocol'' = Ok (ex_protocol x)"
    "resolve_path is_ident crate_name ''assuan-server'' = Ok (ex_server x)" by auto
  then show ?accepted unfolding adapter_def
    by (intro exI [of _ "ex_name x"] exI [of _ "ex_description x"] exI [of _ f] exI [of _ "ex_state x"]) simp
next
  assume ?accepted
  then obtain name description f state protocol server where *: "item = Some f"
    "args \<in> {[TStr name [], TComma, TStr description []], [TStr name [], TComma, TStr description [], TComma]}"
    "admissible_handler \<lparr>hd_name = name, hd_description = description, hd_call = fn_body f\<rparr>"
    "handler_signature (fn_sig f) state" "list_all (has_ident supported_attributes) (fn_attrs f)"
    "resolve_path is_ident crate_name ''assuan-protocol'' = Ok protocol" "resolve_path is_ident crate_name ''assuan-server'' = Ok server"
    by (auto simp: is_ok_def split: result.splits)
  have "expand_attribute is_ident crate_name args item = Ok
      \<lparr>ex_protocol = protocol, ex_server = server,
       ex_adapter_attrs = filter (\<lambda>a. \<not> has_ident [''inline'', ''cold'', ''must_use''] a) (fn_attrs f),
       ex_vis = fn_vis f, ex_ident = fn_ident f, ex_gates = filter (has_ident [''cfg'']) (fn_attrs f),
       ex_helper = f\<lparr>fn_ident := ''__assuan_command_body'', fn_vis := Inherited,
         fn_attrs := filter (\<lambda>a. \<not> has_ident [''doc'', ''cfg'', ''deprecated''] a) (fn_attrs f)\<rparr>,
       ex_state = state, ex_name = name, ex_description = description\<rparr>"
    unfolding expand_attribute_Ok using * by (intro exI [of _ f]) (simp add: adapter_def)
  then show ?ok by simp
next
  have "fst (rg_register shuffle (adapter x) reg) =
      (case rg_get reg (ex_name x) of None \<Rightarrow> Ok () | Some _ \<Rightarrow> Err (Duplicate (ex_name x)))"
    if "admissible_handler (adapter x)" for x
    using that register_eq [of shuffle "adapter x" reg] by (auto simp: rg_get_def adapter_def split: option.splits)
  then show ?generated
    using expand_attribute_Ok [of is_ident crate_name args item] by (auto simp: adapter_def split: result.split)
qed

end
