(* ===== verification/Smooth_Run.thy ===== *)
theory Smooth_Run
  imports Client_Collect Client_Greeting Server_Correct
begin

text \<open>
  Progress: what the operations of both sides do when the environment cooperates, that is
  when no deadline passes, every write is flushed and each read returns one line. The
  general theorems say what holds whenever an operation succeeds; these say that it does.
\<close>

section \<open>The channel\<close>

lemma feed_line:
  "clean (acc @ b) \<Longrightarrow> length (acc @ b) < MAX_LINE_BYTES \<Longrightarrow> frame_feed acc (b @ LF # tail) = (Suc (length b), Complete (acc @ b))"
proof (induction b arbitrary: acc)
  case Nil
  then have "\<not> (acc \<noteq> [] \<and> last acc = CR)" by (auto simp: clean_def list_ex_iff forbidden_def)
  then show ?case by (auto simp: frame_byte_def strip_cr_def)
next
  case (Cons x b)
  then have "x \<noteq> LF" "length acc + 1 < MAX_LINE_BYTES" by (auto simp: clean_def list_ex_iff forbidden_def)
  then show ?case using Cons.IH [of "acc @ [x]"] Cons.prems by (simp add: frame_byte_def)
qed

definition ready_channel :: "Channel \<Rightarrow> bool" where
  "ready_channel c \<longleftrightarrow> ch_inv c \<and> ch_open c \<and> ch_pending c = 0"

lemma ready_new: "ready_channel ch_new"
  using ch_new_inv by (simp add: ready_channel_def ch_new_def)

text \<open>A world where time stands still.\<close>

definition calm :: "world \<Rightarrow> bool" where
  "calm w \<longleftrightarrow> w_clock w = [] \<and> reads_ok w"

lemma calm_now [simp]: "calm w \<Longrightarrow> now w = (0, w)"
  by (simp add: calm_def now_def)

lemma calm_updates [simp]: "calm w \<Longrightarrow> w_reads w = e # es \<Longrightarrow> calm (w\<lparr>w_reads := es\<rparr>)"
  "calm (w\<lparr>w_writes := fs, w_sent := bs\<rparr>) \<longleftrightarrow> calm w"
  by (auto simp: calm_def reads_ok_def)

lemma read_smooth:
  assumes "ready_channel c" and "calm w" and "w_reads w = Chunk (b @ [LF]) # es" and "wire_line b" and "0 < d"
  shows "\<exists>c'. read_line_or_eof d s (c, w) = (Done (Some b), (c', w\<lparr>w_reads := es\<rparr>)) \<and> ready_channel c' \<and> received_line c' = Some b"
proof -
  let ?c = "c\<lparr>ch_line := lb_clear (ch_line c)\<rparr>"
  let ?r = "refill ?c (b @ [LF])"
  have c: "ch_inv ?c" "lb_abs (ch_line ?c) = Partial []" "ch_pending ?c = 0" "ch_open ?c"
    using clear_line_inv [of c] assms(1) by (auto simp: ready_channel_def)
  have ok: "reads_ok w" "length (b @ [LF]) \<le> MAX_LINE_BYTES" using assms(2-4) by (auto simp: calm_def wire_line_def)
  have r: "ch_inv ?r" "buffered ?r = b @ [LF]" using refill_inv [OF c(1,3) ok(2)] by auto
  have "lb_abs (ch_line ?r) = Partial []" "ch_pending ?r \<noteq> 0" "ch_open ?r" using c(2,4) by (auto simp: refill_def)
  note r = r this
  have "frame_feed [] (b @ [LF]) = (Suc (length b), Complete b)"
    using feed_line [of "[]" b "[]"] assms(4) by (simp add: wire_line_def)
  then obtain c' where f: "feed_ahead ?r = (Done True, c')" "ch_inv c'" "lb_abs (ch_line c') = Complete b" "buffered c' = []" "ch_open c'"
    using feed_ahead_cases [OF r(1,3)] r(2,5) by auto
  have "receive_loop (?c, w) = (Done (), (c', w\<lparr>w_reads := es\<rparr>))"
    using receive_loop_ask [OF c(1,3) ok(1)] assms(3) receive_loop_pass(2) [OF r(4) f(1)] by simp
  moreover have "lb_line (ch_line c') = Some b" using f(2,3) by (simp add: lines.line_abs ch_inv_def ch_shape_def)
  moreover have "ch_pending c' = 0" using f(2,4) by (auto simp: buffered_def ch_inv_def ch_shape_def)
  ultimately show ?thesis
    using assms(2,5) c(4) f(2,5)
    by (auto simp: read_line_or_eof_def operation_def receive_def Let_def ready_channel_def received_line_def)
qed

lemma write_smooth:
  assumes "ready_channel c" and "calm w" and "w_writes w = Flushed # fs" and "wire_line b" and "0 < d"
  shows "write_line (b @ [LF]) d s (c, w) = (Done (), (c, w\<lparr>w_writes := fs, w_sent := w_sent w @ b @ [LF]\<rparr>))"
proof -
  have len: "length (b @ [LF]) \<le> MAX_LINE_BYTES" "list_ex forbidden b = False" using assms(4) by (auto simp: wire_line_def clean_def)
  then have "strip_suffix [CR] b = None" by (cases b rule: rev_cases) (auto simp: strip_suffix_def forbidden_def)
  moreover have "strip_suffix [LF] (b @ [LF]) = Some b" by (simp add: strip_suffix_def)
  moreover have cp: "copy_at (ch_write c) 0 (b @ [LF]) = Some (b @ [LF] @ drop (length (b @ [LF])) (ch_write c))"
    using assms(1) len by (simp add: copy_at_def ready_channel_def ch_inv_def ch_shape_def)
  moreover obtain r c' w' where wr: "write_line (b @ [LF]) d s (c, w) = (r, (c', w'))" "is_done r \<longrightarrow> c' = c"
    using write_line_cases [of c "b @ [LF]" d s w] assms(1) by (auto simp: ready_channel_def)
  ultimately have "r = Done () \<and> w' = w\<lparr>w_writes := fs, w_sent := w_sent w @ b @ [LF]\<rparr>"
    using assms len by (auto simp: write_line_def operation_def Let_def next_write_def deliver_bytes_def ready_channel_def)
  then show ?thesis using wr by simp
qed

section \<open>The client\<close>

lemma ok_line: "wire_line (lit ''OK'')" "parse_server_line (lit ''OK'') = Ok (LineOk [])" "wire (LineOk []) = lit ''OK'' @ [LF]"
proof -
  show w: "wire_line (lit ''OK'')" by (simp add: wire_line_def clean_def forbidden_def MAX_LINE_BYTES_def lit_def)
  have b: "line_body (LineOk []) = lit ''OK''" by (simp add: line_body_def opt_field_def)
  then show "wire (LineOk []) = lit ''OK'' @ [LF]" by (simp add: wire_def)
  show "parse_server_line (lit ''OK'') = Ok (LineOk [])"
    using line_body_parse [of "LineOk []"] w b by (simp add: encodable_def)
qed

text \<open>The client reads an \<open>OK\<close>: the transaction is over and the session as before it.\<close>

lemma next_event_smooth:
  assumes "ready_channel (sc_channel k)" and "calm w" and "w_reads w = Chunk (lit ''OK'' @ [LF]) # es" and "0 < sc_deadline k"
    and "\<not> sc_dead k" and "cm_receive (sc_machine k) KOk = (Ok (), m)"
  shows "\<exists>c'. next_event alloc ComPending (k, w) =
     (Done (Some (EvFinished None (payload_of [] (sc_sensitivity k)))), ComSuccess,
      k\<lparr>sc_channel := c', sc_machine := m\<rparr>, w\<lparr>w_reads := es\<rparr>) \<and> ready_channel c'"
proof -
  obtain c where c: "read_line_or_eof (sc_deadline k) (sc_sensitivity k) (sc_channel k, w) = (Done (Some (lit ''OK'')), (c, w\<lparr>w_reads := es\<rparr>))"
    "ready_channel c" "received_line c = Some (lit ''OK'')"
    using read_smooth [OF assms(1-3) ok_line(1) assms(4)] by blast
  have len: "length (lit ''OK'') = 2" by (simp add: lit_def)
  let ?rcv = "\<lparr>rc_kind = KOk, rc_code = None, rc_payload = (2, 2), rc_keyword = (0, 0)\<rparr>"
  have cl: "classify (lit ''OK'') (sc_machine k) = (Ok ?rcv, lit ''OK'', m)"
    using ok_line(2) assms(6) len by (simp add: classify_def locate_def decode_received_def kind_def)
  let ?c = "edit_line (\<lambda>_. lit ''OK'') c"
  have e: "ready_channel ?c" "received_line ?c = Some (lit ''OK'')"
    using edit_line_inv [of c "lit ''OK''" "lit ''OK''"] c(2,3) by (auto simp: ready_channel_def)
  have u: "\<not> sc_io_uncertain k" "\<not> cm_dead (sc_machine k)" using assms(5) by (auto simp: sc_dead_def)
  have "sc_read (k, w) = (Done ?rcv, (k\<lparr>sc_channel := ?c, sc_machine := m\<rparr>, w\<lparr>w_reads := es\<rparr>))"
    using c(1) cl u by (simp add: sc_read_def sc_check_eq assms(5) read_line_def bindM_def returnM_def Let_def)
  then have "read_nonempty (k, w) = (Done ?rcv, (k\<lparr>sc_channel := ?c, sc_machine := m\<rparr>, w\<lparr>w_reads := es\<rparr>))"
    by (simp add: read_nonempty.simps [of "(k, w)"])
  moreover have "cm_state (sc_machine k) \<noteq> CInquiry" using assms(6) by (auto simp: client_machine_defs split: if_splits)
  ultimately show ?thesis
    using e len assms(5) by (auto simp: next_event_def sc_check_eq event_of_def get_range_def)
qed

lemma connect_smooth:
  assumes "calm w" and "w_reads w = Chunk (lit ''OK'' @ [LF]) # es" and "co_validate opts w = (Ok (), w)"
    and "co_deadline (co_greeting_timeout opts) w = (Ok d, w)" and "0 < d"
  shows "\<exists>c. client_from_stream alloc opts w = (Done c, w\<lparr>w_reads := es\<rparr>) \<and> ready_channel (sc_channel (cl_core c)) \<and> is_usable (cl_core c)"
proof -
  let ?k = "\<lparr>sc_channel = ch_new, sc_machine = cm_new, sc_io_uncertain = False, sc_deadline = d, sc_sensitivity = Public,
      sc_inquiry_timeout = co_inquiry_timeout opts, sc_max_inquiry_bytes = co_max_inquiry_bytes opts\<rparr>"
  let ?h = "\<lparr>hs_client = Some \<lparr>cl_core = ?k, cl_options = opts\<rparr>, hs_completion = ComPending, hs_error = None\<rparr>"
  let ?m = "cm_new\<lparr>cm_state := CReady\<rparr>"
  have h: "client_handshake opts w = (?h, w)" using assms(3,4) by (simp add: client_handshake_def)
  have rc: "cm_receive (sc_machine ?k) KOk = (Ok (), ?m)" "\<not> sc_dead ?k"
    by (simp_all add: client_machine_defs sc_dead_def cm_dead_def)
  obtain c where ne: "next_event alloc ComPending (?k, w) = (Done (Some (EvFinished None (payload_of [] Public))), ComSuccess,
      ?k\<lparr>sc_channel := c, sc_machine := ?m\<rparr>, w\<lparr>w_reads := es\<rparr>)" "ready_channel c"
    using next_event_smooth [of ?k w es ?m alloc] ready_new assms(1,2,5) rc by auto
  let ?k' = "?k\<lparr>sc_channel := c, sc_machine := ?m\<rparr>"
  let ?h' = "?h\<lparr>hs_client := Some \<lparr>cl_core = ?k', cl_options = opts\<rparr>, hs_completion := ComSuccess\<rparr>"
  have us: "is_usable ?k'" by (simp add: is_usable_def)
  have nx: "hs_next alloc (?h, w) = (Done (Some (EvFinished None (payload_of [] Public))), ?h', w\<lparr>w_reads := es\<rparr>)"
    using ne(1) by (simp add: hs_next_def)
  have ck: "sc_check ?k' = (Ok (), ?k')" by (simp add: sc_check_def)
  then have nx': "hs_next alloc (?h', w\<lparr>w_reads := es\<rparr>) = (Done None, ?h', w\<lparr>w_reads := es\<rparr>)"
    by (simp add: hs_next_def next_event_def)
  have "hs_finish ?h' = Ok \<lparr>cl_core = ?k', cl_options = opts\<rparr>" using ck by (simp add: hs_finish_def)
  then have "hs_drive alloc None 0 (?h', w\<lparr>w_reads := es\<rparr>) = (Done \<lparr>cl_core = ?k', cl_options = opts\<rparr>, w\<lparr>w_reads := es\<rparr>)"
    unfolding hs_drive.simps [of alloc None 0 "(?h', w\<lparr>w_reads := es\<rparr>)"] nx' by (simp add: lift_result_def)
  then have "hs_drive alloc None 0 (?h, w) = (Done \<lparr>cl_core = ?k', cl_options = opts\<rparr>, w\<lparr>w_reads := es\<rparr>)"
    unfolding hs_drive.simps [of alloc None 0 "(?h, w)"] nx by simp
  then show ?thesis using h us ne(2) by (auto simp: client_from_stream_def)
qed

lemma collect_smooth:
  assumes "ready_channel (sc_channel k)" and "is_usable k" and "calm w" and "wire_line (command_body cmd)"
    and "co_deadline (co_command_timeout opts) w = (Ok d, w)" and "0 < d"
    and "w_writes w = Flushed # fs" and "w_reads w = Chunk (lit ''OK'' @ [LF]) # es"
    and "alloc 0" and "0 < cx_max_events limits"
  shows "\<exists>v k'. collect_as Public alloc opts cmd limits (k, w) =
     (Done v, (k', w\<lparr>w_writes := fs, w_sent := w_sent w @ command_line cmd, w_reads := es\<rparr>))"
proof -
  let ?m = "(sc_machine k)\<lparr>cm_state := CCommand\<rparr>"
  let ?k = "k\<lparr>sc_deadline := d, sc_sensitivity := Public, sc_machine := ?m\<rparr>"
  let ?w = "w\<lparr>w_writes := fs, w_sent := w_sent w @ command_line cmd\<rparr>"
  have alive: "\<not> sc_dead k" "cm_state (sc_machine k) = CReady" "\<not> sc_io_uncertain k"
    using assms(2) by (auto simp: is_usable_def sc_dead_def cm_dead_def)
  obtain len out where enc: "encode_command cmd (replicate MAX_LINE_BYTES 0) = (Ok len, out)" "take len out = command_line cmd"
    using encode_command_scratch [of cmd] assms(4) by simp
  have drain: "drain_buffered (k', w') = (Done (), (k', w'))" if "sc_channel k' = sc_channel k" for k' w'
    using assms(1) that by (simp add: drain_buffered.simps [of "(k', w')"] has_buffered_input_def ready_channel_def)
  have wr: "write_line (command_line cmd) d Public (sc_channel k, w) = (Done (), (sc_channel k, ?w))"
    using write_smooth [OF assms(1,3,7,4,6), of Public] by (simp add: command_line_def)
  have cw: "command_with opts cmd Public (k, w) = (Done ComPending, (?k, ?w))"
    using enc assms(5) alive drain wr
    by (simp add: command_with_def sc_check_def bindM_def returnM_def cm_begin_command_def sc_write_def sc_write_at_def Let_def)
  have "\<not> sc_dead ?k" "cm_receive (sc_machine ?k) KOk = (Ok (), (sc_machine k)\<lparr>cm_state := CReady\<rparr>)"
    using alive by (simp_all add: sc_dead_def cm_dead_def client_machine_defs)
  then obtain c where ne: "next_event alloc ComPending (?k, ?w) = (Done (Some (EvFinished None (payload_of [] Public))), ComSuccess,
      ?k\<lparr>sc_channel := c, sc_machine := (sc_machine k)\<lparr>cm_state := CReady\<rparr>\<rparr>, ?w\<lparr>w_reads := es\<rparr>)"
    using next_event_smooth [of ?k ?w es "(sc_machine k)\<lparr>cm_state := CReady\<rparr>" alloc] assms(1,3,6,8) by auto
  let ?k' = "?k\<lparr>sc_channel := c, sc_machine := (sc_machine k)\<lparr>cm_state := CReady\<rparr>\<rparr>"
  obtain store where st: "sb_with_capacity alloc 0 = Ok store" using assms(9) by (simp add: sb_with_capacity_def)
  let ?d = "\<lparr>cd_data = [], cd_secret = store, cd_statuses = [], cd_comments = [], cd_events = 0\<rparr>"
  have "collect_loop alloc limits False ?d (ComPending, (?k, ?w)) = (Done (?d\<lparr>cd_events := 1\<rparr>, True), (ComSuccess, (?k', ?w\<lparr>w_reads := es\<rparr>)))"
    using ne assms(10) by (simp add: collect_loop.simps [of _ _ _ ?d ComPending] usize_checked_add_def usize_max_def)
  moreover have "is_usable ?k'" using alive by (simp add: is_usable_def)
  ultimately show ?thesis
    using cw st tx_finish_ready [of ?k' ComSuccess] by (simp add: collect_as_def bindM_def collect_transaction_def)
qed

section \<open>The server\<close>

lemma deadline_smooth:
  "calm w \<Longrightarrow> 0 < t \<Longrightarrow> t \<le> w_instant_max w \<Longrightarrow> so_deadline t w = (Ok t, w)"
  "calm w \<Longrightarrow> 0 < t \<Longrightarrow> t \<le> w_instant_max w \<Longrightarrow> co_deadline t w = (Ok t, w)"
  by (simp_all add: so_deadline_def co_deadline_def checked_deadline_def ok_or_def)

lemma finalize_smooth:
  assumes "ready_channel (sx_channel (ss_io ss))" and "sm_state (sx_machine (ss_io ss)) \<in> {SGreeting, SHandler}"
    and "calm w" and "w_writes w = Flushed # fs" and "0 < d"
  shows "finalize None d g (ss, w) =
     (Done (), (ss\<lparr>ss_io := (ss_io ss)\<lparr>sx_machine := (sx_machine (ss_io ss))\<lparr>sm_state := SReady\<rparr>\<rparr>\<rparr>,
        w\<lparr>w_writes := fs, w_sent := w_sent w @ lit ''OK'' @ [LF]\<rparr>))"
proof -
  have "encodable (LineOk [])" using ok_line(1) by (simp add: encodable_def line_body_def opt_field_def)
  then obtain out where e: "encode_response (LineOk []) (replicate MAX_LINE_BYTES 0) = (Ok (length (wire (LineOk []))), out)"
    "take (length (wire (LineOk []))) out = lit ''OK'' @ [LF]"
    using encode_scratch [of "LineOk []"] ok_line(3) by auto
  have "sm_send_response (sx_machine (ss_io ss)) KOk = (Ok (), (sx_machine (ss_io ss))\<lparr>sm_state := SReady\<rparr>)"
    using assms(2) by (auto simp: sm_send_response_def Let_def)
  then show ?thesis
    using e assms(2) write_smooth [OF assms(1,3,4) ok_line(1) assms(5), of Secret]
    by (auto simp: finalize_def final_line_def respond_line_def put_line_def map_fail_def kind_def)
qed

definition bye :: Command where
  "bye = \<lparr>cmd_name = lit ''BYE'', cmd_args = []\<rparr>"

lemma bye_line: "wire_line (lit ''BYE'')" "request_kind (lit ''BYE'') = Ok ReqCommand" "Command_parse (lit ''BYE'') = Ok bye"
  "command_body bye = lit ''BYE''"
proof -
  show b: "command_body bye = lit ''BYE''" by (simp add: command_body_def bye_def opt_field_def)
  show "wire_line (lit ''BYE'')" by (simp add: wire_line_def clean_def forbidden_def MAX_LINE_BYTES_def lit_def)
  show "request_kind (lit ''BYE'') = Ok ReqCommand" by code_simp
  show "Command_parse (lit ''BYE'') = Ok bye" by code_simp
qed

lemma bye_turn:
  assumes "ready_channel (sx_channel (ss_io ss))" and "sm_state (sx_machine (ss_io ss)) = SReady" and "calm w"
    and "w_reads w = Chunk (lit ''BYE'' @ [LF]) # es" and "w_writes w = Flushed # fs"
    and "0 < so_idle_timeout (ss_options ss)" "so_idle_timeout (ss_options ss) \<le> w_instant_max w"
    and "0 < so_command_timeout (ss_options ss)" "so_command_timeout (ss_options ss) \<le> w_instant_max w"
  shows "\<exists>x. command_turn (ss, w) = (Done False, (ss\<lparr>ss_io := x\<rparr>, w\<lparr>w_reads := es, w_writes := fs, w_sent := w_sent w @ lit ''OK'' @ [LF]\<rparr>))"
proof -
  let ?idle = "so_idle_timeout (ss_options ss)"
  let ?w = "w\<lparr>w_reads := es\<rparr>"
  obtain c where c: "read_line_or_eof ?idle Secret (sx_channel (ss_io ss), w) = (Done (Some (lit ''BYE'')), (c, ?w))" "ready_channel c"
    using read_smooth [OF assms(1,3,4) bye_line(1) assms(6)] by blast
  let ?x = "(ss_io ss)\<lparr>sx_channel := c, sx_machine := (sx_machine (ss_io ss))\<lparr>sm_state := SHandler\<rparr>\<rparr>"
  have "read_one ?idle (ss, w) = (Done (Some (ReqCommand, lit ''BYE'')), (ss\<lparr>ss_io := ?x\<rparr>, ?w))"
    using c(1) bye_line(2) assms(2) by (simp add: read_one_def sm_receive_request_def Let_def lit_def MAX_LINE_BYTES_def)
  then have rc: "read_command ?idle (ss, w) = (Done (Some (lit ''BYE'')), (ss\<lparr>ss_io := ?x\<rparr>, ?w))"
    by (simp add: read_command.simps [of ?idle "(ss, w)"])
  have di: "dispatch bye d (ss\<lparr>ss_io := ?x\<rparr>, ?w) = (Done None, (ss\<lparr>ss_io := ?x\<rparr>, ?w))" for d
    by (simp add: dispatch_def bye_def)
  have cw: "calm ?w" using assms(3,4) by simp
  obtain x where fi: "finalize None (so_command_timeout (ss_options ss)) False (ss\<lparr>ss_io := ?x\<rparr>, ?w) =
      (Done (), (ss\<lparr>ss_io := x\<rparr>, ?w\<lparr>w_writes := fs, w_sent := w_sent w @ lit ''OK'' @ [LF]\<rparr>))"
    using finalize_smooth [of "ss\<lparr>ss_io := ?x\<rparr>" ?w fs "so_command_timeout (ss_options ss)" False] c(2) cw assms(5,8) by auto
  have "command_turn (ss, w) = (Done False, (ss\<lparr>ss_io := x\<rparr>, ?w\<lparr>w_writes := fs, w_sent := w_sent w @ lit ''OK'' @ [LF]\<rparr>))"
    using rc di fi cw deadline_smooth(1) [OF assms(3,6,7)] deadline_smooth(1) [of ?w, OF _ assms(8)] assms(9) bye_line(3)
    by (simp add: command_turn_def bindM_def returnM_def bye_def)
  then show ?thesis by auto
qed

lemma session_smooth:
  assumes "calm w" and "w_reads w = Chunk (lit ''BYE'' @ [LF]) # es" and "w_writes w = Flushed # Flushed # fs"
    and "so_validate permits opts w = (Ok (), w)"
    and "\<And>t. t \<in> {so_greeting_timeout opts, so_command_timeout opts, so_idle_timeout opts, so_shutdown_timeout opts} \<Longrightarrow>
      0 < t \<and> t \<le> w_instant_max w"
  shows "\<exists>ss' w'. Session_run permits (Session_new peer state reg DefaultHooks opts, w) = (Done (), (ss', w'))
     \<and> ss_authenticated ss' \<and> w_sent w' = w_sent w @ wires [LineOk [], LineOk []]"
proof -
  let ?ss = "Session_new peer state reg DefaultHooks opts"
  let ?w1 = "w\<lparr>w_writes := Flushed # fs, w_sent := w_sent w @ lit ''OK'' @ [LF]\<rparr>"
  let ?ss1 = "?ss\<lparr>ss_io := (ss_io ?ss)\<lparr>sx_machine := sm_new\<lparr>sm_state := SReady\<rparr>\<rparr>, ss_authenticated := True\<rparr>"
  have t: "so_deadline (so_greeting_timeout opts) w = (Ok (so_greeting_timeout opts), w)" using deadline_smooth(1) assms(1,5) by simp
  have fi: "finalize None (so_greeting_timeout opts) True (?ss, w) =
      (Done (), (?ss\<lparr>ss_io := (ss_io ?ss)\<lparr>sx_machine := sm_new\<lparr>sm_state := SReady\<rparr>\<rparr>\<rparr>, ?w1))"
    using finalize_smooth [of ?ss w "Flushed # fs" "so_greeting_timeout opts" True] assms(1,3,5) ready_new
    by (simp add: Session_new_def sm_new_def)
  have iv: "invoke (hk_authenticate (ss_hooks ?ss) (ss_view ?ss)) d (?ss, w) = (Done None, (?ss, w))" for d
    by (simp add: invoke_def Session_new_def DefaultHooks_def map_fail_def)
  have o': "ss_options ?ss = opts" "ss_options ?ss1 = opts" "ss_hooks ?ss = DefaultHooks" by (simp_all add: Session_new_def)
  have "calm ?w1" using assms(1) by simp
  then obtain x w2 where turn: "command_turn (?ss1, ?w1) = (Done False, (?ss1\<lparr>ss_io := x\<rparr>, w2))"
    "w2 = ?w1\<lparr>w_reads := es, w_writes := fs, w_sent := w_sent ?w1 @ lit ''OK'' @ [LF]\<rparr>"
    using bye_turn [of ?ss1 ?w1 es fs] assms(2,5) ready_new o'(2) by (auto simp: Session_new_def)
  have dr: "drive (?ss, w) = (Done (), (?ss1\<lparr>ss_io := x\<rparr>, w2))"
    using t iv fi turn(1) by (simp add: drive_def o' bindM_def command_loop.simps [of "(?ss1, ?w1)"] del: fun_upd_apply)
  have "calm w2" using assms(1,2) by (auto simp: turn(2) calm_def reads_ok_def)
  then have "so_deadline (so_shutdown_timeout opts) w2 = (Ok (so_shutdown_timeout opts), w2)"
    using deadline_smooth(1) [of w2] assms(5) by (simp add: turn(2))
  then have "\<exists>ss'. Session_run permits (?ss, w) = (Done (), (ss', w2)) \<and> ss_authenticated ss'"
    using dr assms(4) by (simp add: Session_run_def o' Let_def Session_new_def DefaultHooks_def)
  then show ?thesis using ok_line(3) by (auto simp: turn(2))
qed

end
