(* ===== verification/End_To_End.thy ===== *)
theory End_To_End
  imports Smooth_Run
begin

text \<open>
  Client and server together: a client (\<open>assuan-client\<close>) that connects, waits for the greeting
  and collects one command after the other, and a session (\<open>assuan-server\<close>) at the other end
  of the connection. The network is the only assumption: each side has read a prefix of what
  the other side sent, cut into chunks in any way.
\<close>

section \<open>Lines on the wire\<close>

definition framed :: "bytes list \<Rightarrow> bytes" where
  "framed bodies = concat (map (\<lambda>b. b @ [LF]) bodies)"

lemma framed_simps [simp]:
  "framed [] = []" "framed (b # bodies) = b @ LF # framed bodies" "framed (xs @ ys) = framed xs @ framed ys"
  by (simp_all add: framed_def)

lemma feed_more: "frame_feed acc bs = (n, Complete l) \<Longrightarrow> frame_feed acc (bs @ later) = (n, Complete l)"
proof (induction acc bs arbitrary: n rule: frame_feed.induct)
  case (2 acc b bs)
  then show ?case by (cases "frame_byte acc b") (auto split: prod.splits)
qed simp

lemma takes_line_wire:
  assumes "wire_line b" and "takes_line bs raw rest" and "bs @ later = b @ LF # tail"
  shows "raw = b \<and> rest @ later = tail"
proof -
  obtain n where n: "frame_feed [] bs = (n, Complete raw)" "rest = drop n bs" using assms(2) by (auto simp: takes_line_def)
  have "frame_feed [] (bs @ later) = (Suc (length b), Complete b)"
    using feed_line [of "[]" b tail] assms(1,3) by (simp add: wire_line_def)
  then have "n = Suc (length b)" "raw = b" using feed_more [OF n(1), of later] by auto
  moreover have "drop n bs @ later = drop n (bs @ later)" using frame_feed_le [OF n(1)] by simp
  ultimately show ?thesis using n(2) assms(3) by simp
qed

section \<open>The server reads what the client sent\<close>

definition is_command :: "bytes \<Rightarrow> bool" where
  "is_command b \<longleftrightarrow> request_kind b = Ok ReqCommand"

text \<open>The commands still ahead on a stream that continues with \<open>later\<close> and then \<open>tail\<close>.\<close>

definition commands_ahead :: "bytes \<Rightarrow> bytes \<Rightarrow> bytes \<Rightarrow> bytes list \<Rightarrow> bool" where
  "commands_ahead later tail bs cs \<longleftrightarrow>
     cs = [] \<or> (\<exists>bodies. bs @ later = framed bodies @ tail \<and> list_all wire_line bodies \<and> filter is_command bodies = cs)"

lemma request_ahead:
  assumes "takes_request bs k raw mid" and "commands_ahead later tail bs (c # cs)"
  shows "if k = ReqCommand then raw = c \<and> commands_ahead later tail mid cs else commands_ahead later tail mid (c # cs)"
proof -
  obtain bodies where b: "bs @ later = framed bodies @ tail" "list_all wire_line bodies" "filter is_command bodies = c # cs"
    using assms(2) by (auto simp: commands_ahead_def)
  then obtain b0 rest where r: "bodies = b0 # rest" by (cases bodies) auto
  have "raw = b0 \<and> mid @ later = framed rest @ tail"
    using takes_line_wire [of b0 bs raw mid later "framed rest @ tail"] b r assms(1) by (auto simp: takes_request_def)
  then show ?thesis
    using b r assms(1) by (auto simp: takes_request_def is_command_def commands_ahead_def split: if_splits)
qed

lemma answers_ahead:
  "takes_answers bs rest \<Longrightarrow> commands_ahead later tail bs cs \<Longrightarrow> commands_ahead later tail rest cs"
proof (induction rule: takes_answers.induct)
  case (one bs k raw mid rest)
  then show ?case using request_ahead [OF one(1)] by (cases cs) (auto simp: commands_ahead_def)
qed

lemma answer_ahead:
  "takes_answer bs k raw rest \<Longrightarrow> commands_ahead later tail bs (c # cs) \<Longrightarrow>
   if k = ReqCommand then raw = c \<and> commands_ahead later tail rest cs else commands_ahead later tail rest (c # cs)"
proof (induction rule: takes_answer.induct)
  case (here bs k raw rest)
  then show ?case using request_ahead by blast
next
  case (skip bs k0 raw0 mid k raw rest)
  then show ?case using request_ahead [OF skip(1)] by auto
qed

lemma dialogue_commands:
  "dialogue reg bs ts rest \<Longrightarrow> commands_ahead later tail bs cs \<Longrightarrow>
   i < length ts \<Longrightarrow> i < length cs \<Longrightarrow> fst (ts ! i) = cs ! i"
proof (induction arbitrary: cs i rule: dialogue.induct)
  case (turn bs line c ls e mid' ts rest)
  from turn.prems(3) obtain c0 cs' where cs: "cs = c0 # cs'" by (cases cs) auto
  from turn.hyps(1) obtain mid where mid: "takes_answer bs ReqCommand line mid" "takes_answers mid mid'" by (auto simp: exchange_made_def)
  have a: "line = c0" "commands_ahead later tail mid cs'" using answer_ahead [OF mid(1)] turn.prems(1) cs by auto
  have "commands_ahead later tail mid' cs'" by (rule answers_ahead [OF mid(2) a(2)])
  then show ?case using turn.IH [of cs'] turn.prems a(1) cs by (cases i) auto
qed simp

section \<open>The client reads what the server sent\<close>

lemma takes_wire:
  assumes "encodable l" and "takes_line bs raw mid" and "bs @ later = wire l @ tail"
  shows "raw = line_body l \<and> parse_server_line raw = Ok l \<and> mid @ later = tail"
  using takes_line_wire [of "line_body l" bs raw mid later tail] assms
  by (auto simp: encodable_def wire_def line_body_parse)

definition quiet_line :: "ServerLine \<Rightarrow> bool" where
  "quiet_line l \<longleftrightarrow> kind l \<in> {KComment, KEmpty}"

definition final_line_kind :: "ServerLine \<Rightarrow> bool" where
  "final_line_kind l \<longleftrightarrow> kind l \<in> {KOk, KErr} \<and> encodable l"

lemma drains_wires:
  "drains bs rest \<Longrightarrow> bs @ later = wires ls @ wire f @ tail \<Longrightarrow> list_all intermediate ls \<Longrightarrow> final_line_kind f \<Longrightarrow>
   \<exists>pre ls'. ls = pre @ ls' \<and> list_all quiet_line pre \<and> rest @ later = wires ls' @ wire f @ tail"
proof (induction arbitrary: ls rule: drains.induct)
  case (none bs)
  then have "ls = [] @ ls \<and> list_all quiet_line [] \<and> bs @ later = wires ls @ wire f @ tail" by simp
  then show ?case by blast
next
  case (one bs raw mid l rest)
  show ?case
  proof (cases ls)
    case Nil
    then have "l = f" using takes_wire [OF _ one(1), of f later tail] one by (auto simp: final_line_kind_def)
    then show ?thesis using one by (auto simp: final_line_kind_def)
  next
    case (Cons l0 ls0)
    then have t: "l = l0" "mid @ later = wires ls0 @ wire f @ tail"
      using takes_wire [OF _ one(1), of l0 later "wires ls0 @ wire f @ tail"] one by (auto simp: intermediate_def)
    from one.IH [OF t(2)] one.prems Cons obtain pre ls' where
      "ls0 = pre @ ls'" "list_all quiet_line pre" "rest @ later = wires ls' @ wire f @ tail" by auto
    then have "ls = (l0 # pre) @ ls' \<and> list_all quiet_line (l0 # pre) \<and> rest @ later = wires ls' @ wire f @ tail"
      using Cons t(1) one(3) by (simp add: quiet_line_def)
    then show ?thesis by blast
  qed
qed

lemma takes_content_wires:
  "takes_content bs raw mid \<Longrightarrow> parse_server_line raw = Ok l \<Longrightarrow> kind l \<noteq> KEmpty \<Longrightarrow>
   bs @ later = wires ls @ wire f @ tail \<Longrightarrow> list_all intermediate ls \<Longrightarrow> final_line_kind f \<Longrightarrow>
   (\<exists>pre ls'. ls = pre @ l # ls' \<and> list_all ((=) LineEmpty) pre \<and> mid @ later = wires ls' @ wire f @ tail)
   \<or> list_all ((=) LineEmpty) ls \<and> l = f \<and> mid @ later = tail"
proof (induction arbitrary: ls rule: takes_content.induct)
  case (here bs raw rest)
  show ?case
  proof (cases ls)
    case Nil
    then show ?thesis using takes_wire [OF _ here(1), of f later tail] here by (auto simp: final_line_kind_def)
  next
    case (Cons l0 ls0)
    then have "l = l0" "rest @ later = wires ls0 @ wire f @ tail"
      using takes_wire [OF _ here(1), of l0 later "wires ls0 @ wire f @ tail"] here by (auto simp: intermediate_def)
    then have "ls = [] @ l # ls0 \<and> list_all ((=) LineEmpty) [] \<and> rest @ later = wires ls0 @ wire f @ tail" using Cons by simp
    then show ?thesis by blast
  qed
next
  case (skip bs mid raw rest)
  have empty: "parse_server_line [] = Ok LineEmpty" using line_body_parse [of LineEmpty]
    by (simp add: encodable_def line_body_def wire_line_def clean_def MAX_LINE_BYTES_def)
  show ?case
  proof (cases ls)
    case Nil
    then have "LineEmpty = f" using takes_wire [OF _ skip(1), of f later tail] skip empty by (auto simp: final_line_kind_def)
    then show ?thesis using skip by (auto simp: final_line_kind_def kind_def)
  next
    case (Cons l0 ls0)
    then have t: "LineEmpty = l0" "mid @ later = wires ls0 @ wire f @ tail"
      using takes_wire [OF _ skip(1), of l0 later "wires ls0 @ wire f @ tail"] skip empty by (auto simp: intermediate_def)
    from skip.IH [OF skip.prems(1,2) t(2)] skip.prems(4,5) Cons
    consider pre ls' where "ls0 = pre @ l # ls'" "list_all ((=) LineEmpty) pre" "rest @ later = wires ls' @ wire f @ tail"
      | "list_all ((=) LineEmpty) ls0" "l = f" "rest @ later = tail" by auto
    then show ?thesis
    proof cases
      case (1 pre ls')
      then have "ls = (l0 # pre) @ l # ls' \<and> list_all ((=) LineEmpty) (l0 # pre)" using Cons t(1) by simp
      then show ?thesis using 1(3) by blast
    qed (use Cons t(1) in auto)
  qed
qed

text \<open>A response that the client read up to its end is the response that was sent.\<close>

lemma takes_lines_wires:
  "takes_lines bs (cs @ [l]) rest \<Longrightarrow> list_all content cs \<Longrightarrow> kind l \<in> {KOk, KErr} \<Longrightarrow>
   bs @ later = wires ls @ wire f @ tail \<Longrightarrow> list_all intermediate ls \<Longrightarrow> final_line_kind f \<Longrightarrow>
   cs = filter (\<lambda>l. l \<noteq> LineEmpty) ls \<and> l = f \<and> rest @ later = tail"
proof (induction cs arbitrary: bs ls)
  case Nil
  then obtain raw where t: "takes_content bs raw rest" "parse_server_line raw = Ok l" by auto
  have "filter (\<lambda>l. l \<noteq> LineEmpty) ls = []" if "list_all ((=) LineEmpty) ls" using that by (auto simp: filter_empty_conv list_all_iff)
  then show ?case
    using takes_content_wires [OF t _ Nil(4-6)] Nil(3,5) by (auto simp: intermediate_def nonfinal_def)
next
  case (Cons c cs)
  then obtain raw mid where t: "takes_content bs raw mid" "parse_server_line raw = Ok c" "takes_lines mid (cs @ [l]) rest" by auto
  have c: "kind c \<notin> {KOk, KErr, KEmpty}" using Cons.prems(2) by (simp add: content_def)
  then have "c \<noteq> f" using Cons.prems(6) by (auto simp: final_line_kind_def)
  then obtain pre ls' where p: "ls = pre @ c # ls'" "list_all ((=) LineEmpty) pre" "mid @ later = wires ls' @ wire f @ tail"
    using takes_content_wires [OF t(1,2) _ Cons.prems(4-6)] c by auto
  have "filter (\<lambda>l. l \<noteq> LineEmpty) pre = []" "c \<noteq> LineEmpty"
    using p(2) c by (auto simp: filter_empty_conv list_all_iff kind_def)
  then show ?case using Cons.IH [OF t(3) _ Cons.prems(3) p(3)] Cons.prems p(1) by auto
qed

lemma filter_empty_parts:
  "concat (map line_data (filter (\<lambda>l. l \<noteq> LineEmpty) ls)) = concat (map line_data ls)"
  "concat (map line_statuses (filter (\<lambda>l. l \<noteq> LineEmpty) ls)) = concat (map line_statuses ls)"
  "concat (map line_comments (filter (\<lambda>l. l \<noteq> LineEmpty) ls)) = concat (map line_comments ls)"
  by (induction ls) (auto simp: line_parts)

lemma quiet_parts: "list_all quiet_line ls \<Longrightarrow> concat (map line_data ls) = [] \<and> concat (map line_statuses ls) = []"
  by (induction ls) (auto simp: quiet_line_def line_parts kind_def split: ServerLine.splits)

section \<open>The greeting\<close>

text \<open>Driving the greeting without a handler takes the greeting off the stream and cancels its inquiries.\<close>

definition greeting_read :: "SessionCore \<times> world \<Rightarrow> SessionCore \<times> world \<Rightarrow> bool" where
  "greeting_read st st' \<longleftrightarrow> (\<exists>ls t. answered_by st ls (LineOk t) st')"

lemma answered_step:
  assumes "took (k, w) l (k1, w1)" and "content l" and "greeting_read (k1, w1) st'"
  shows "greeting_read (k, w) st'"
proof -
  obtain ls t where "answered_by (k1, w1) ls (LineOk t) st'" using assms(3) by (auto simp: greeting_read_def)
  then have "answered_by (k, w) (l # ls) (LineOk t) st'" using assms(1,2) by (cases st') (auto simp: answered_by_def took_def)
  then show ?thesis unfolding greeting_read_def by blast
qed

text \<open>After the final line, the handshake hands over the session as it is.\<close>

lemma greeting_finish:
  assumes "hs_drive alloc None n (h, w) = (Done c', w')" and "hs_error h = None" and "hs_client h = Some c"
    and "hs_completion h \<noteq> ComPending" and "is_usable (cl_core c)"
  shows "hs_completion h = ComSuccess \<and> c' = c \<and> w' = w"
proof -
  have ck: "sc_check (cl_core c) = (Ok (), cl_core c)" "cm_state (sc_machine (cl_core c)) \<noteq> CInquiry"
    using assms(5) by (auto simp: sc_check_def is_usable_def)
  then have "hs_next alloc (h, w) = (Done None, h, w)"
    using assms(2-4) by (simp add: hs_next_def next_event_def)
  then have "lift_result id (hs_finish h) = Done c' \<and> w' = w" using assms(1) by (simp add: hs_drive.simps [of alloc None n "(h, w)"])
  then show ?thesis
    using assms(2-4) ck by (cases "hs_completion h") (auto simp: hs_finish_def lift_result_def)
qed

lemma greeting_drive:
  "sc_inv (cl_core c) \<Longrightarrow> reads_ok w \<Longrightarrow> hs_error h = None \<Longrightarrow> hs_client h = Some c \<Longrightarrow> hs_completion h = ComPending \<Longrightarrow>
   hs_drive alloc None n (h, w) = (Done c', w') \<Longrightarrow> greeting_read (cl_core c, w) (cl_core c', w') \<and> sc_inv (cl_core c')"
proof (induction "core_left (cl_core c, w)" arbitrary: h w c n rule: less_induct)
  case less
  let ?h = "\<lambda>com k. h\<lparr>hs_client := Some (c\<lparr>cl_core := k\<rparr>), hs_completion := com\<rparr>"
  note drive = hs_drive.simps [of alloc None n "(h, w)"]
  have hn: "hs_next alloc (h, w) = (r, ?h com k1, w1)" if "next_event alloc ComPending (cl_core c, w) = (r, com, k1, w1)" for r com k1 w1
    using that less.prems(3-5) by (simp add: hs_next_def)
  have swap: "h\<lparr>hs_completion := x, hs_client := y\<rparr> = h\<lparr>hs_client := y, hs_completion := x\<rparr>" for x y by (cases h) simp
  have on: "greeting_read (cl_core c, w) (cl_core c', w') \<and> sc_inv (cl_core c')"
    if "took (cl_core c, w) l (k1, w1)" "content l" "hs_drive alloc None m (?h ComPending k1, w1) = (Done c', w')" for l k1 w1 m
    using that less.hyps [of "c\<lparr>cl_core := k1\<rparr>" w1 "?h ComPending k1" m] less.prems(3) answered_step [OF that(1,2)]
    by (auto simp: took_def)
  from less.prems(1,2) show ?case
  proof (cases rule: event_cases [where alloc = alloc])
    case (fails r com k1 w1)
    then show ?thesis using less.prems(6) hn [OF fails(1)] by (cases r) (auto simp: drive)
  next
    case (inquires q l k1 w1)
    from inquires(3,4) show ?thesis
    proof (cases rule: cancel_cases [where q = q])
      case (sent k2 w2)
      have "hs_drive alloc None (n + 1) (?h ComPending k2, w2) = (Done c', w')"
        using less.prems(6) hn [OF inquires(1)] sent(1) swap by (simp add: drive answer_greeting_def)
      then show ?thesis using on [OF inquires(6) [OF sent(1)]] inquires(2) by (simp add: content_def)
    next
      case (failed r k2 w2)
      then show ?thesis using less.prems(6) hn [OF inquires(1)] by (cases r) (auto simp: drive answer_greeting_def)
    qed
  next
    case (finishes code p l k1 w1)
    have "hs_drive alloc None n (?h (completion_after l) k1, w1) = (Done c', w')"
      using less.prems(6) hn [OF finishes(1)] by (simp add: drive)
    moreover have "completion_after l \<noteq> ComPending" using finishes(2) by (cases l) (auto simp: completion_after_def kind_def)
    ultimately have fin: "completion_after l = ComSuccess" "c' = c\<lparr>cl_core := k1\<rparr>" "w' = w1"
      using greeting_finish [of alloc n "?h (completion_after l) k1" w1 c' w' "c\<lparr>cl_core := k1\<rparr>"] finishes(4) less.prems(3) by auto
    then obtain t where t: "l = LineOk t" using final_completion finishes(2) by metis
    then have "answered_by (cl_core c, w) [] (LineOk t) (k1, w1)"
      using finishes(3,4) by (auto simp: answered_by_def took_def line_reply_def)
    then show ?thesis using fin finishes(3) by (auto simp: greeting_read_def took_def)
  next
    case (says ev l k1 w1)
    have "hs_drive alloc None n (?h ComPending k1, w1) = (Done c', w')"
      using less.prems(6) hn [OF says(1)] says_inquiry [OF says(4)] event_finished [OF says(4)] says(2,3)
      by (cases ev) (auto simp: drive content_def)
    then show ?thesis using on [OF says(5,2)] by blast
  qed
qed

lemma from_stream_reads:
  assumes "client_from_stream alloc opts w = (Done c, w')" and "reads_ok w"
  shows "sc_inv (cl_core c) \<and> (\<exists>ls t. list_all content ls
     \<and> takes_lines (incoming (w_reads w)) (ls @ [LineOk t]) (stream (sc_channel (cl_core c)) w')
     \<and> w_sent w' = w_sent w @ concat (map line_reply ls) \<and> is_usable (cl_core c) \<and> reads_ok w')"
proof -
  obtain h w1 where h: "client_handshake opts w = (h, w1)" by force
  have d: "hs_drive alloc None 0 (h, w1) = (Done c, w')" using assms(1) h by (simp add: client_from_stream_def)
  have err: "hs_error h = None"
    using d by (cases "hs_error h") (auto simp: hs_drive.simps [of alloc None 0 "(h, w1)"] hs_next_def)
  obtain v w2 where v: "co_validate opts w = (v, w2)" by force
  note vk = co_validate_keeps [OF v]
  obtain t w3 where t: "co_deadline (co_greeting_timeout opts) w2 = (t, w3)" by force
  note tk = co_deadline_keeps [OF t]
  from h err v t vk tk obtain d where hd: "hs_client h = Some \<lparr>cl_core = \<lparr>sc_channel = ch_new, sc_machine = cm_new, sc_io_uncertain = False,
      sc_deadline = d, sc_sensitivity = Public, sc_inquiry_timeout = co_inquiry_timeout opts,
      sc_max_inquiry_bytes = co_max_inquiry_bytes opts\<rparr>, cl_options = opts\<rparr>" "hs_completion h = ComPending" "w1 = w3"
    by (cases v; cases t) (auto simp: client_handshake_def Let_def split: prod.splits)
  then obtain k where k: "hs_client h = Some k" "sc_inv (cl_core k)" "sc_channel (cl_core k) = ch_new"
    by (auto simp: sc_inv_def ch_new_inv cm_good_def cm_new_def)
  have w1: "w_reads w1 = w_reads w" "w_sent w1 = w_sent w" using hd(3) vk tk by auto
  then have "reads_ok w1" using assms(2) by (simp add: reads_ok_def)
  from greeting_drive [OF k(2) this err k(1) hd(2) d] show ?thesis
    using k(3) w1 by (auto simp: greeting_read_def answered_by_def stream_def buffered_def ch_new_def)
qed

section \<open>A call of the client\<close>

lemma drain_not_remote: "drain_buffered s = (r, s') \<Longrightarrow> \<not> remote_error r"
proof (induction s rule: drain_buffered.induct)
  case (1 s)
  obtain x s1 where x: "sc_read s = (x, s1)" by (cases "sc_read s")
  show ?case
    using 1 x sc_read_not_remote [OF x] by (cases x) (auto simp: drain_buffered.simps [of s] split: if_splits)
qed

lemma sc_write_not_remote: "sc_write bs s = (r, s') \<Longrightarrow> \<not> remote_error r"
  by (simp add: sc_write_def sc_write_at_not_remote)

lemma command_with_not_remote:
  assumes "command_with opts cmd s (k, w) = (r, st)"
  shows "\<not> remote_error r"
  using assms
  by (auto simp: command_with_def bindM_def returnM_def sc_check_def co_deadline_def ok_or_def Let_def
        dest: drain_not_remote sc_write_not_remote
        split: prod.splits result.splits if_splits async.splits option.splits)

text \<open>The answer a call reports: the error code of the server, or the collected response.\<close>

type_synonym answer = "u32 + Collected"

definition answer_of :: "(Collected, ClientError) async \<Rightarrow> answer option" where
  "answer_of r = (case r of Done d \<Rightarrow> Some (Inr d) | Fail (CeRemote code) \<Rightarrow> Some (Inl code) | _ \<Rightarrow> None)"

definition reports :: "bool \<Rightarrow> answer \<Rightarrow> ServerLine list \<Rightarrow> ServerLine \<Rightarrow> bool" where
  "reports secret a ls l \<longleftrightarrow> (case a of
     Inr d \<Rightarrow> (\<exists>t. l = LineOk t) \<and> holds_lines secret d ls
   | Inl code \<Rightarrow> (\<exists>t. l = LineErr code t))"

definition called :: "Sensitivity \<Rightarrow> Command \<Rightarrow> SessionCore \<times> world \<Rightarrow> answer \<Rightarrow> SessionCore \<times> world \<Rightarrow> bool" where
  "called s cmd st a st' \<longleftrightarrow> (case (st, st') of ((k, w), (k', w')) \<Rightarrow> wire_line (command_body cmd) \<and> reads_ok w' \<and>
     (\<exists>ls l mid. drains (stream (sc_channel k) w) mid \<and> takes_lines mid (ls @ [l]) (stream (sc_channel k') w')
        \<and> list_all content ls \<and> w_sent w' = w_sent w @ command_line cmd @ concat (map line_reply ls)
        \<and> reports (s = Secret) a ls l))"

lemma collect_as_cases:
  assumes "sc_inv k" and "reads_ok w" and "\<And>n. alloc n \<Longrightarrow> n \<le> isize_max"
    and "collect_as s alloc opts cmd limits (k, w) = (r, (k', w'))"
  shows "sc_inv k' \<and> grows w w' \<and> (\<forall>a. answer_of r = Some a \<longrightarrow> called s cmd (k, w) a (k', w'))"
proof -
  obtain q k1 w1 where cw: "command_with opts cmd s (k, w) = (q, (k1, w1))" "sc_inv k1" "reads_ok w1"
    and sent: "\<And>com. q = Done com \<Longrightarrow> com = ComPending \<and> wire_line (command_body cmd)
          \<and> w_sent w1 = w_sent w @ command_line cmd \<and> drains (stream (sc_channel k) w) (stream (sc_channel k1) w1)"
    and fail: "\<not> is_done q \<Longrightarrow> grows w w1"
    using command_with_spec [OF assms(1,2), of opts cmd s] by (auto simp: grows_def)
  show ?thesis
  proof (cases "is_done q")
    case True
    then have q: "q = Done ComPending" using sent by (cases q) auto
    have ct: "collect_transaction alloc limits (s = Secret) ComPending (k1, w1) = (r, (k', w'))"
      using assms(4) cw(1) q by (simp add: collect_as_def bindM_def)
    have g: "grows w w1" using sent [OF q] by (simp add: grows_def)
    note cases = collect_transaction_cases [OF cw(2,3), of alloc limits "s = Secret", OF assms(3)]
    have tc: "sc_inv k'" "grows w1 w'" "\<And>d. r = Done d \<Longrightarrow> \<exists>ls t. answered_by (k1, w1) ls (LineOk t) (k', w') \<and> holds_lines (s = Secret) d ls"
      "\<And>code. r = Fail (CeRemote code) \<Longrightarrow> \<exists>ls t. answered_by (k1, w1) ls (LineErr code t) (k', w')"
      using cases ct by auto
    have "called s cmd (k, w) a (k', w')" if "answer_of r = Some a" for a
    proof -
      have "\<exists>ls l. answered_by (k1, w1) ls l (k', w') \<and> reports (s = Secret) a ls l"
        using tc(3,4) that by (auto simp: answer_of_def reports_def split: async.splits ClientError.splits) blast+
      then show ?thesis using sent [OF q] by (fastforce simp: called_def answered_by_def)
    qed
    then show ?thesis using grows_trans [OF g tc(2)] tc(1) by blast
  next
    case False
    then have "answer_of r = None" "k' = k1" "w' = w1"
      using assms(4) cw(1) command_with_not_remote [OF cw(1)]
      by (cases q; auto simp: collect_as_def bindM_def answer_of_def split: ClientError.splits)+
    then show ?thesis using cw(2) fail [OF False] by simp
  qed
qed

section \<open>One call after the other\<close>

text \<open>
  A client collects the answer to each command of a list, a remote error included, until a
  call fails for another reason.
\<close>

primrec client_calls :: "Sensitivity \<Rightarrow> (nat \<Rightarrow> bool) \<Rightarrow> ClientOptions \<Rightarrow> CollectLimits \<Rightarrow> Command list
    \<Rightarrow> SessionCore \<times> world \<Rightarrow> answer list \<times> SessionCore \<times> world" where
  "client_calls s alloc opts limits [] st = ([], st)"
| "client_calls s alloc opts limits (c # cs) st =
     (case collect_as s alloc opts c limits st of (r, st') \<Rightarrow>
      case answer_of r of
        None \<Rightarrow> ([], st')
      | Some a \<Rightarrow> (case client_calls s alloc opts limits cs st' of (as, st'') \<Rightarrow> (a # as, st'')))"

text \<open>The calls that were answered, in order.\<close>

inductive calls_run :: "Sensitivity \<Rightarrow> Command list \<Rightarrow> SessionCore \<times> world \<Rightarrow> answer list \<Rightarrow> SessionCore \<times> world \<Rightarrow> bool" for s where
  none: "calls_run s [] st [] st"
| one: "called s c st a st1 \<Longrightarrow> calls_run s cs st1 as st' \<Longrightarrow> calls_run s (c # cs) st (a # as) st'"

lemma client_calls_run:
  assumes "\<And>n. alloc n \<Longrightarrow> n \<le> isize_max"
  shows "sc_inv k \<Longrightarrow> reads_ok w \<Longrightarrow> client_calls s alloc opts limits cmds (k, w) = (as, st') \<Longrightarrow>
    \<exists>n st. calls_run s (take n cmds) (k, w) as st \<and> n \<le> length cmds \<and> grows (snd st) (snd st')"
proof (induction cmds arbitrary: k w as)
  case Nil
  then have "calls_run s (take 0 []) (k, w) as (k, w) \<and> 0 \<le> length [] \<and> grows (snd (k, w)) (snd st')"
    by (simp add: calls_run.none grows_sent)
  then show ?case by simp blast
next
  case (Cons c cs)
  obtain r k1 w1 where r: "collect_as s alloc opts c limits (k, w) = (r, (k1, w1))" by (metis prod_cases3)
  note ca = collect_as_cases [OF Cons.prems(1,2) assms r]
  show ?case
  proof (cases "answer_of r")
    case None
    then have "as = []" "st' = (k1, w1)" using Cons.prems(3) r by auto
    then have "calls_run s (take 0 (c # cs)) (k, w) as (k, w) \<and> 0 \<le> length (c # cs) \<and> grows (snd (k, w)) (snd st')"
      using ca by (simp add: calls_run.none)
    then show ?thesis by blast
  next
    case (Some a)
    obtain as1 where as: "client_calls s alloc opts limits cs (k1, w1) = (as1, st')" "as = a # as1"
      using Cons.prems(3) r Some by (auto split: prod.splits)
    have cal: "called s c (k, w) a (k1, w1)" "sc_inv k1" using ca Some by auto
    then have "reads_ok w1" by (simp add: called_def)
    from Cons.IH [OF cal(2) this as(1)] obtain n st where
      "calls_run s (take n cs) (k1, w1) as1 st" "n \<le> length cs" "grows (snd st) (snd st')" by blast
    then have "calls_run s (take (Suc n) (c # cs)) (k, w) as st \<and> Suc n \<le> length (c # cs) \<and> grows (snd st) (snd st')"
      using calls_run.one [OF cal(1)] as(2) by simp
    then show ?thesis by blast
  qed
qed

lemma calls_run_length: "calls_run s cs st as st' \<Longrightarrow> length as = length cs"
  by (induction rule: calls_run.induct) auto

text \<open>What they sent: the commands, and between them nothing but \<open>CAN\<close>.\<close>

lemma cancel_line: "wire_line (lit ''CAN'')" "\<not> is_command (lit ''CAN'')" "end_line True = framed [lit ''CAN'']"
  by (simp_all add: wire_line_def clean_def forbidden_def MAX_LINE_BYTES_def lit_def is_command_def request_kind_def
        starts_with_def end_line_def)

lemma replies_framed:
  "\<exists>bodies. concat (map line_reply ls) = framed bodies \<and> list_all wire_line bodies \<and> filter is_command bodies = []"
proof (induction ls)
  case (Cons l ls)
  then obtain bodies where b: "concat (map line_reply ls) = framed bodies" "list_all wire_line bodies" "filter is_command bodies = []" by blast
  show ?case
  proof (cases "line_reply l = []")
    case True
    then show ?thesis using b by auto
  next
    case False
    then have "line_reply l = framed [lit ''CAN'']" using cancel_line(3) by (auto simp: line_reply_def split: ServerLine.splits)
    then have "concat (map line_reply (l # ls)) = framed (lit ''CAN'' # bodies) \<and> list_all wire_line (lit ''CAN'' # bodies)
        \<and> filter is_command (lit ''CAN'' # bodies) = []" using b cancel_line by simp
    then show ?thesis by blast
  qed
qed (auto intro: exI [of _ "[]"])

lemma calls_sent:
  "calls_run s cs st as st' \<Longrightarrow> list_all (is_command \<circ> command_body) cs \<Longrightarrow>
   \<exists>bodies. w_sent (snd st') = w_sent (snd st) @ framed bodies \<and> list_all wire_line bodies \<and> filter is_command bodies = map command_body cs"
proof (induction rule: calls_run.induct)
  case (one c st a st1 cs as st')
  then obtain bodies where b: "w_sent (snd st') = w_sent (snd st1) @ framed bodies" "list_all wire_line bodies"
    "filter is_command bodies = map command_body cs" by auto
  obtain ls where c: "w_sent (snd st1) = w_sent (snd st) @ command_line c @ concat (map line_reply ls)" "wire_line (command_body c)"
    using one.hyps(1) by (auto simp: called_def split: prod.splits)
  obtain rs where r: "concat (map line_reply ls) = framed rs" "list_all wire_line rs" "filter is_command rs = []"
    using replies_framed by blast
  have "w_sent (snd st') = w_sent (snd st) @ framed (command_body c # rs @ bodies) \<and> list_all wire_line (command_body c # rs @ bodies)
      \<and> filter is_command (command_body c # rs @ bodies) = map command_body (c # cs)"
    using b c r one.prems by (simp add: command_line_def)
  then show ?case by blast
qed (auto intro: exI [of _ "[]"])

text \<open>
  An answer of the client against an exchange of the server. Comments at the beginning of a
  response may be taken off the stream before the command is sent, as comments between two
  responses; they are not part of the collected ones.
\<close>

definition conveys :: "bool \<Rightarrow> answer \<Rightarrow> exchange \<Rightarrow> bool" where
  "conveys secret a t \<longleftrightarrow> (case t of (line, ls, e) \<Rightarrow> case a of
     Inr d \<Rightarrow> e = None \<and> collected_data secret d = concat (map line_data ls) \<and> cd_statuses d = concat (map line_statuses ls)
       \<and> (\<exists>early. concat (map line_comments ls) = early @ cd_comments d)
   | Inl code \<Rightarrow> (\<exists>m. final_for e = LineErr code m))"

definition sound_exchange :: "exchange \<Rightarrow> bool" where
  "sound_exchange t \<longleftrightarrow> (case t of (line, ls, e) \<Rightarrow> list_all intermediate ls \<and> encodable (final_for e))"

lemma dialogue_sound: "dialogue reg bs ts rest \<Longrightarrow> list_all sound_exchange ts"
  by (induction rule: dialogue.induct) (auto simp: sound_exchange_def exchange_made_def)

lemma final_for_kind: "encodable (final_for e) \<Longrightarrow> final_line_kind (final_for e)" "final_for e = LineOk t \<Longrightarrow> e = None"
  by (auto simp: final_line_kind_def final_for_def kind_def split: option.splits HandlerError.splits)

lemma nothing_taken:
  "\<not> takes_line [] raw rest" "\<not> takes_content [] raw rest" "\<not> takes_lines [] (ls @ [l]) rest" "drains [] rest \<Longrightarrow> rest = []"
proof -
  show t: "\<not> takes_line [] raw rest" for raw rest by (simp add: takes_line_def)
  then show c: "\<not> takes_content [] raw rest" for raw rest by (auto elim: takes_content.cases)
  show "\<not> takes_lines [] (ls @ [l]) rest" using c by (cases ls) auto
  show "drains [] rest \<Longrightarrow> rest = []" using t by (auto elim: drains.cases)
qed

lemma called_conveys:
  assumes "called s c (k, w) a (k', w')" and "stream (sc_channel k) w @ later = response t @ tail" and "sound_exchange t"
  shows "conveys (s = Secret) a t \<and> stream (sc_channel k') w' @ later = tail"
proof -
  obtain line ls e where t: "t = (line, ls, e)" by (cases t)
  then have ok: "list_all intermediate ls" "final_line_kind (final_for e)" using assms(3) final_for_kind by (auto simp: sound_exchange_def)
  obtain cs l mid where c: "drains (stream (sc_channel k) w) mid" "takes_lines mid (cs @ [l]) (stream (sc_channel k') w')"
    "list_all content cs" "reports (s = Secret) a cs l" using assms(1) by (auto simp: called_def)
  have "stream (sc_channel k) w @ later = wires ls @ wire (final_for e) @ tail" using assms(2) t by (simp add: response_def)
  from drains_wires [OF c(1) this ok] obtain pre ls' where p: "ls = pre @ ls'" "list_all quiet_line pre"
    "mid @ later = wires ls' @ wire (final_for e) @ tail" by blast
  have "kind l \<in> {KOk, KErr}" using c(4) by (auto simp: reports_def kind_def split: sum.splits)
  from takes_lines_wires [OF c(2,3) this p(3) _ ok(2)] ok(1) p(1)
  have l: "cs = filter (\<lambda>l. l \<noteq> LineEmpty) ls'" "l = final_for e" "stream (sc_channel k') w' @ later = tail" by auto
  then show ?thesis
    using c(4) t p(1) quiet_parts [OF p(2)] final_for_kind(2) [of e]
    by (auto simp: reports_def conveys_def holds_lines_def filter_empty_parts split: sum.splits)
qed

text \<open>A part of a response answers no call.\<close>

lemma called_not_part:
  assumes "called s c (k, w) a (k', w')" and "stream (sc_channel k) w @ later = bs" and "bs = [] \<or> part_of_reply reg cmd bs"
  shows False
proof -
  obtain ls l mid where "drains (stream (sc_channel k) w) mid" "takes_lines mid (ls @ [l]) (stream (sc_channel k') w')"
    using assms(1) by (auto simp: called_def)
  then have "stream (sc_channel k) w \<noteq> []" using nothing_taken by metis
  then have "bs \<noteq> []" using assms(2) by auto
  then obtain ls e n where p: "list_all intermediate ls" "encodable (final_for e)" "n < length (wires (ls @ [final_for e]))"
    "bs = take n (wires (ls @ [final_for e]))" using assms(3) unfolding part_of_reply_def by blast
  define missing where "missing = drop n (wires (ls @ [final_for e]))"
  have "bs @ missing = wires (ls @ [final_for e])" unfolding missing_def p(4) by (rule append_take_drop_id)
  then have "stream (sc_channel k) w @ later @ missing = response ([], ls, e) @ []" using assms(2) by (auto simp: response_def)
  moreover have "sound_exchange ([], ls, e)" using p(1,2) by (simp add: sound_exchange_def)
  ultimately have "stream (sc_channel k') w' @ later @ missing = []" using called_conveys [OF assms(1)] by blast
  then show False using p(3) by (simp add: missing_def) linarith
qed

lemma calls_match:
  "calls_run s cs st as st' \<Longrightarrow> stream (sc_channel (fst st)) (snd st) @ later = responses ts @ bs \<Longrightarrow> list_all sound_exchange ts \<Longrightarrow>
   bs = [] \<or> part_of_reply reg cmd bs \<Longrightarrow>
   length as \<le> length ts \<and> (\<forall>i < length as. conveys (s = Secret) (as ! i) (ts ! i))"
proof (induction arbitrary: ts rule: calls_run.induct)
  case (one c st a st1 cs as st')
  obtain k w k1 w1 where st: "st = (k, w)" "st1 = (k1, w1)" by (metis surj_pair)
  show ?case
  proof (cases ts)
    case Nil
    then have "stream (sc_channel k) w @ later = bs" using one.prems(1) st by (simp add: responses_def)
    then show ?thesis using called_not_part [OF one.hyps(1) [unfolded st] _ one.prems(3)] by blast
  next
    case (Cons t ts')
    then have "stream (sc_channel k) w @ later = response t @ responses ts' @ bs" using one.prems(1) st by (simp add: responses_def)
    from called_conveys [OF one.hyps(1) [unfolded st] this] one.prems(2) Cons
    have "conveys (s = Secret) a t" "stream (sc_channel k1) w1 @ later = responses ts' @ bs" by auto
    then show ?thesis using one.IH [of ts'] one.prems(2,3) Cons st by (auto simp: nth_Cons split: nat.splits)
  qed
qed simp

section \<open>Client and server\<close>

text \<open>The greeting, without its inquiries, leaves the client at the first response.\<close>

lemma greeting_taken:
  assumes "client_from_stream alloc opts w = (Done c, w')" and "reads_ok w"
    and "incoming (w_reads w) @ later = wires (ls @ [LineOk []]) @ tail" and "list_all intermediate ls"
  shows "stream (sc_channel (cl_core c)) w' @ later = tail \<and> sc_inv (cl_core c) \<and> reads_ok w'
    \<and> (\<exists>bodies. w_sent w' = w_sent w @ framed bodies \<and> list_all wire_line bodies \<and> filter is_command bodies = [])"
proof -
  obtain cs t where r: "sc_inv (cl_core c)" "list_all content cs" "reads_ok w'"
    "takes_lines (incoming (w_reads w)) (cs @ [LineOk t]) (stream (sc_channel (cl_core c)) w')"
    "w_sent w' = w_sent w @ concat (map line_reply cs)" using from_stream_reads [OF assms(1,2)] by blast
  have "final_line_kind (LineOk [])"
    by (simp add: final_line_kind_def kind_def encodable_def line_body_def wire_line_def clean_def forbidden_def MAX_LINE_BYTES_def lit_def opt_field_def)
  then show ?thesis
    using takes_lines_wires [OF r(4,2) _ _ assms(4), of later "LineOk []" tail] assms(3) r replies_framed [of cs]
    by (auto simp: kind_def)
qed

lemma commands_match:
  assumes "calls_run s cs st as st'" and "list_all (is_command \<circ> command_body) cs" and "w_sent (snd st) = framed early"
    and "list_all wire_line early" and "filter is_command early = []" and "grows (snd st') w'"
    and "bs @ later = w_sent w'" and "takes_answers bs start" and "dialogue reg start ts rest"
  shows "\<forall>i < length as. i < length ts \<longrightarrow> fst (ts ! i) = command_body (cs ! i)"
proof -
  obtain bodies where b: "w_sent (snd st') = w_sent (snd st) @ framed bodies" "list_all wire_line bodies"
    "filter is_command bodies = map command_body cs" using calls_sent [OF assms(1,2)] by blast
  obtain tail where "w_sent w' = w_sent (snd st') @ tail" using assms(6) by (auto simp: grows_def)
  then have "bs @ later = framed (early @ bodies) @ tail \<and> list_all wire_line (early @ bodies)
      \<and> filter is_command (early @ bodies) = map command_body cs" using assms(3-5,7) b by simp
  then have "commands_ahead later tail bs (map command_body cs)" unfolding commands_ahead_def by blast
  from answers_ahead [OF assms(8) this] show ?thesis
    using dialogue_commands [OF assms(9)] calls_run_length [OF assms(1)] by fastforce
qed

text \<open>A run that ends before the client is greeted sent the greeting to a client that has it, and no more.\<close>

lemma greeting_whole:
  assumes "client_from_stream alloc opts w = (Done c, w')" and "reads_ok w"
    and "incoming (w_reads w) @ later = bs" and "greeting_part bs"
  shows "\<exists>ls. list_all intermediate ls \<and> bs = wires (ls @ [LineOk []])"
proof -
  obtain ls e n where g: "list_all intermediate ls" "encodable (final_for e)" "bs = take n (wires (ls @ [final_for e]))"
    using assms(4) unfolding greeting_part_def by blast
  define missing where "missing = drop n (wires (ls @ [final_for e]))"
  have whole: "bs @ missing = wires (ls @ [final_for e])" unfolding missing_def g(3) by (rule append_take_drop_id)
  obtain cs t where r: "list_all content cs"
    "takes_lines (incoming (w_reads w)) (cs @ [LineOk t]) (stream (sc_channel (cl_core c)) w')" using from_stream_reads [OF assms(1,2)] by blast
  have "incoming (w_reads w) @ later @ missing = wires ls @ wire (final_for e) @ []" using whole assms(3) by auto
  from takes_lines_wires [OF r(2,1) _ this g(1) final_for_kind(1) [OF g(2)]]
  have "LineOk t = final_for e" "missing = []" by (auto simp: kind_def)
  then have "final_for e = LineOk []" "bs = wires (ls @ [final_for e])"
    using final_for_kind(2) [of e t] whole by (auto simp: final_for_def)
  then show ?thesis using g(1) by metis
qed

text \<open>
  What the two sides owe each other: every answer of the client is the server's answer to
  the same command.
\<close>

definition agree :: "bool \<Rightarrow> Command list \<Rightarrow> answer list \<Rightarrow> exchange list \<Rightarrow> bool" where
  "agree secret cmds as ts \<longleftrightarrow> length as \<le> length cmds \<and> length as \<le> length ts
     \<and> (\<forall>i < length as. fst (ts ! i) = command_body (cmds ! i) \<and> conveys secret (as ! i) (ts ! i))"

text \<open>What a session sent to a client that has its greeting.\<close>

lemma session_sent:
  assumes "rearranges shuffle" and "reads_ok ws" and "w_sent ws = []" and "reads_ok wc"
    and server: "Session_run permits (Session_new peer state (register_all shuffle hs rg_new) hooks opts, ws) = (r, (ss', ws'))"
    and connect: "client_from_stream alloc copts wc = (Done c, wc1)" and to_client: "incoming (w_reads wc) @ unread = w_sent ws'"
  shows "\<exists>ls start ts rest bs. list_all intermediate ls \<and> takes_answers (incoming (w_reads ws)) start
     \<and> dialogue (register_all shuffle hs rg_new) start ts rest \<and> cut_short (register_all shuffle hs rg_new) rest bs
     \<and> w_sent ws' = wires (ls @ [LineOk []]) @ responses ts @ bs"
proof (cases "ss_authenticated ss'")
  case True
  then show ?thesis
    using session_run_dialogue [OF assms(1,2), where permits = permits and peer = peer and s = state and hs = hs
        and hooks = hooks and opts = opts] assms(3) unfolding server prod.case if_P [OF True] by simp blast
next
  case False
  then have "greeting_part (w_sent ws')"
    using session_run_dialogue [OF assms(1,2), where permits = permits and peer = peer and s = state and hs = hs
        and hooks = hooks and opts = opts] server assms(3) by auto
  from greeting_whole [OF connect assms(4) to_client this] obtain ls where
    "list_all intermediate ls" "w_sent ws' = wires (ls @ [LineOk []]) @ responses [] @ []" by (auto simp: responses_def)
  then show ?thesis using takes_answers.none dialogue.start cut_short_Nil by blast
qed

text \<open>
  C1: Client and server agree. A client connects to a server's session, takes the greeting,
  and then collects the answer to one command after the other; the handlers, the hooks, the
  options and the environment are arbitrary on both sides, either side may fail, time out or
  be dropped at any point, and the network is only assumed to deliver, in any pieces, a prefix
  of what the other side sent. Then what the session sent is a greeting, complete responses
  to commands it took off the stream the client filled, and at most a part of one more
  response; and every answer the client has is one of these responses: the i-th answer is the
  i-th response, which the server gave to the i-th command of the client; a collected response
  is the success the server reported with exactly the data and the statuses it sent (comments
  sent ahead of the command may be missing), and a remote error is the server's error code.
\<close>

theorem end_to_end:
  assumes "rearranges shuffle" and "\<And>n. alloc n \<Longrightarrow> n \<le> isize_max" and "reads_ok ws" and "reads_ok wc"
    and "w_sent ws = []" and "w_sent wc = []" and "list_all (is_command \<circ> command_body) cmds"
    and server: "Session_run permits (Session_new peer state (register_all shuffle hs rg_new) hooks opts, ws) = (r, (ss', ws'))"
    and connect: "client_from_stream alloc copts wc = (Done c, wc1)"
    and calls: "client_calls s alloc copts limits cmds (cl_core c, wc1) = (as, (k', wc'))"
    and to_server: "incoming (w_reads ws) @ unread1 = w_sent wc'" and to_client: "incoming (w_reads wc) @ unread2 = w_sent ws'"
  shows "\<exists>ls start ts rest bs. list_all intermediate ls \<and> takes_answers (incoming (w_reads ws)) start
     \<and> dialogue (register_all shuffle hs rg_new) start ts rest \<and> cut_short (register_all shuffle hs rg_new) rest bs
     \<and> w_sent ws' = wires (ls @ [LineOk []]) @ responses ts @ bs
     \<and> agree (s = Secret) cmds as ts"
proof -
  let ?reg = "register_all shuffle hs rg_new"
  obtain ls start ts rest bs where d: "list_all intermediate ls" "takes_answers (incoming (w_reads ws)) start"
    "dialogue ?reg start ts rest" "cut_short ?reg rest bs" "w_sent ws' = wires (ls @ [LineOk []]) @ responses ts @ bs"
    using session_sent [OF assms(1,3,5,4) server connect to_client] by blast
  have "incoming (w_reads wc) @ unread2 = wires (ls @ [LineOk []]) @ responses ts @ bs" using to_client d(5) by simp
  from greeting_taken [OF connect assms(4) this d(1)] obtain early where g:
    "stream (sc_channel (cl_core c)) wc1 @ unread2 = responses ts @ bs" "sc_inv (cl_core c)" "reads_ok wc1"
    "w_sent wc1 = framed early" "list_all wire_line early" "filter is_command early = []" using assms(6) by auto
  obtain n st where run: "calls_run s (take n cmds) (cl_core c, wc1) as st" "n \<le> length cmds" "grows (snd st) wc'"
    using client_calls_run [OF assms(2) g(2,3) calls] by auto
  have len: "length as = n" using calls_run_length [OF run(1)] run(2) by simp
  obtain cmd where "bs = [] \<or> part_of_reply ?reg cmd bs" using d(4) by (auto simp: cut_short_def)
  from calls_match [OF run(1) _ dialogue_sound [OF d(3)] this, of unread2] g(1)
  have m: "length as \<le> length ts" "\<forall>i < length as. conveys (s = Secret) (as ! i) (ts ! i)" by auto
  have cmds: "list_all (is_command \<circ> command_body) (take n cmds)" using assms(7) by (auto simp: list_all_iff dest: in_set_takeD)
  have "\<forall>i < length as. i < length ts \<longrightarrow> fst (ts ! i) = command_body (take n cmds ! i)"
    using commands_match [OF run(1) cmds _ g(5,6) run(3) to_server d(2,3)] g(4) by simp
  then have "agree (s = Secret) cmds as ts" using m len run(2) by (auto simp: agree_def)
  then show ?thesis using d by blast
qed

text \<open>A client that says \<open>BYE\<close> to a server without handlers, each line in a chunk of its own.\<close>

definition sample_client_end :: world where
  "sample_client_end = \<lparr>w_reads = [Chunk (lit ''OK'' @ [LF]), Chunk (lit ''OK'' @ [LF])], w_writes = [Flushed], w_clock = [],
     w_sent = [], w_instant_max = 10 ^ 15\<rparr>"

definition sample_server_end :: world where
  "sample_server_end = \<lparr>w_reads = [Chunk (lit ''BYE'' @ [LF])], w_writes = [Flushed, Flushed], w_clock = [],
     w_sent = [], w_instant_max = 10 ^ 15\<rparr>"

lemma sample_ends:
  "calm sample_client_end" "calm sample_server_end"
  "co_validate ClientOptions_default sample_client_end = (Ok (), sample_client_end)"
  "so_validate 200 ServerOptions_default sample_server_end = (Ok (), sample_server_end)"
  by (simp_all add: calm_def reads_ok_def sample_client_end_def sample_server_end_def MAX_LINE_BYTES_def lit_def
        co_validate_def so_validate_def co_deadline_def so_deadline_def checked_deadline_def now_def ok_or_def
        ClientOptions_default_def ServerOptions_default_def from_secs_def seconds_def)

theorem end_to_end_witness:
  "\<exists>ss' :: (unit, unit) Session. \<exists>r ws' c wc1 a k' wc' ts.
     Session_run 200 (Session_new None () (register_all id [] rg_new) DefaultHooks ServerOptions_default, sample_server_end) = (r, (ss', ws'))
   \<and> client_from_stream (\<lambda>n. n \<le> 4096) ClientOptions_default sample_client_end = (Done c, wc1)
   \<and> client_calls Public (\<lambda>n. n \<le> 4096) ClientOptions_default CollectLimits_default [bye] (cl_core c, wc1) = ([a], (k', wc'))
   \<and> agree False [bye] [a] ts \<and> ts \<noteq> []"
proof -
  let ?al = "\<lambda>n. n \<le> (4096 :: nat)"
  let ?es = "[Chunk (lit ''OK'' @ [LF])]"
  have times: "0 < t \<and> t \<le> w_instant_max sample_server_end" if "t \<in> {so_greeting_timeout ServerOptions_default,
      so_command_timeout ServerOptions_default, so_idle_timeout ServerOptions_default, so_shutdown_timeout ServerOptions_default}" for t
    using that by (auto simp: sample_server_end_def ServerOptions_default_def seconds_def)
  have io: "w_reads sample_server_end = Chunk (lit ''BYE'' @ [LF]) # []" "w_writes sample_server_end = Flushed # Flushed # []"
    by (simp_all add: sample_server_end_def)
  obtain ss' :: "(unit, unit) Session" and ws' where server: "Session_run 200 (Session_new None () (register_all id [] rg_new) DefaultHooks
      ServerOptions_default, sample_server_end) = (Done (), (ss', ws'))" "ss_authenticated ss'" "w_sent ws' = wires [LineOk [], LineOk []]"
    using session_smooth [OF sample_ends(2) io sample_ends(4) times, of None "()" "register_all id [] rg_new"] by (auto simp: sample_server_end_def)
  let ?w1 = "sample_client_end\<lparr>w_reads := ?es\<rparr>"
  have d: "co_deadline (co_greeting_timeout ClientOptions_default) sample_client_end = (Ok (from_secs 120), sample_client_end)"
    "co_deadline (co_command_timeout ClientOptions_default) ?w1 = (Ok (from_secs 300), ?w1)"
    by (simp_all add: co_deadline_def checked_deadline_def now_def ok_or_def sample_client_end_def ClientOptions_default_def from_secs_def)
  obtain c where client: "client_from_stream ?al ClientOptions_default sample_client_end = (Done c, ?w1)"
    "ready_channel (sc_channel (cl_core c))" "is_usable (cl_core c)"
    using connect_smooth [OF sample_ends(1) _ sample_ends(3) d(1), of ?es] by (auto simp: sample_client_end_def from_secs_def)
  have "calm ?w1" using sample_ends(1) by (simp add: sample_client_end_def calm_def reads_ok_def)
  from collect_smooth [OF client(2,3) this _ d(2), of bye "[]" "[]" ?al CollectLimits_default]
  obtain v k' wc' where call: "collect_as Public ?al ClientOptions_default bye CollectLimits_default (cl_core c, ?w1) = (Done v, (k', wc'))"
    "w_sent wc' = lit ''BYE'' @ [LF]"
    by (auto simp: sample_client_end_def from_secs_def CollectLimits_default_def bye_line command_line_def)
  then have calls: "client_calls Public ?al ClientOptions_default CollectLimits_default [bye] (cl_core c, ?w1) = ([Inr v], (k', wc'))"
    by (simp add: answer_of_def)
  have "rearranges id" "\<And>n. ?al n \<Longrightarrow> n \<le> isize_max" "reads_ok sample_server_end" "reads_ok sample_client_end"
    "list_all (is_command \<circ> command_body) [bye]" "w_sent sample_server_end = []" "w_sent sample_client_end = []"
    "incoming (w_reads sample_server_end) @ [] = w_sent wc'" "incoming (w_reads sample_client_end) @ [] = w_sent ws'"
    using sample_ends(1,2) bye_line call(2) server(3) ok_line(3)
    by (simp_all add: rearranges_def isize_max_def calm_def is_command_def sample_client_end_def sample_server_end_def)
  note hyps = this
  from end_to_end [OF hyps(1-4,6,7,5) server(1) client(1) calls hyps(8,9)]
  obtain ts where "agree False [bye] [Inr v] ts" by auto
  then show ?thesis using server(1) client(1) calls by (intro exI conjI) (auto simp: agree_def)
qed

end
