(* ===== verification/Spec2Isabelle.thy ===== *)
theory Spec2Isabelle
  imports Secret Encode Frame Machines Sexpr_Writer Client_Correct Client_Collect Client_Connect
    Server_Correct Server_Serve Unix_Listener Windows_Pipes Macro_Attribute End_To_End
begin

text \<open>
  Verification of assuan-library-rs, a library for the Assuan protocol of GnuPG: a line
  protocol in which a client sends commands and a server answers each one with data, status
  lines and inquiries and exactly one final OK or ERR.

  \<^bold>\<open>The program and its model.\<close> The crates of the repository build on each other, and so do
  the theories. File names are relative to \<open>src/crates\<close>.

  \<^item> \<open>Prelude\<close> has the types all components share: bytes as 8-bit words, the result of a
    fallible operation with its panics as a third case, checked machine arithmetic, UTF-8,
    slices and buffers, and the lemma collections.
  \<^item> \<open>Secret\<close> (\<open>assuan-protocol/src/secret.rs\<close>, \<open>limits.rs\<close>), \<open>Escape\<close> (\<open>escape.rs\<close>,
    \<open>error.rs\<close>), \<open>Command\<close> (\<open>command.rs\<close>), \<open>Decimal\<close> and \<open>Message\<close> (\<open>message.rs\<close>), \<open>Encode\<close>
    (\<open>encode.rs\<close>), \<open>Frame\<close> (\<open>frame.rs\<close>) and \<open>Machines\<close> (\<open>state/\<close>) model the protocol crate,
    which does no I/O: protected buffers, the percent decoder that works in place, the
    validators and parsers, the encoders, the incremental line buffer, and the two session
    machines. They show that what is encoded parses back, that decoding in place equals the
    obvious decoder, that framing does not depend on how the stream is cut into chunks, that
    the machines accept exactly one final response per operation, and that two conforming
    peers over any interleaving agree.
  \<^item> \<open>Sexpr_Value\<close>, \<open>Sexpr_Parser\<close> and \<open>Sexpr_Writer\<close> (\<open>assuan-sexpr/src\<close>) model canonical
    S-expressions: the parser and the writer with their explicit stacks and limits, proved
    equal to recursive reference definitions and inverse to each other.
  \<^item> \<open>Runtime\<close> models what async code sees of its environment: a script of reads, writes and
    clock readings and the outcomes of an operation, which completes, fails, panics, or is
    dropped at an await point. Every theorem about I/O holds for every script. \<open>Channel\<close> and
    \<open>Channel_Left\<close> (\<open>assuan-transport/src/channel.rs\<close>, \<open>error.rs\<close>) model the line channel
    with its wiping guard: a read returns the next line of the byte stream, a write sends a
    line whole or poisons the channel, and every failure leaves the buffers wiped. The
    interface \<open>fail_stop\<close> states what a session relies on.
  \<^item> \<open>Client_Session\<close> and \<open>Client\<close> (\<open>assuan-client/src\<close>) model the client: session core,
    transactions, events, inquiries, the greeting and the collectors. \<open>Client_Props\<close>,
    \<open>Client_Correct\<close>, \<open>Client_Collect\<close>, \<open>Client_Greeting\<close> and \<open>Client_Connect\<close> show what an
    event delivers, that connecting gives a usable client or an error,
    what a command and inquiry data put on the wire, that a collected response holds exactly
    what the lines of the operation said within its limits, when a session can be reused,
    and that a failed session does nothing any more.
  \<^item> \<open>Server_Core\<close> (\<open>assuan-server/src/error.rs\<close>, \<open>options.rs\<close>, \<open>hooks.rs\<close>, \<open>registry.rs\<close>),
    \<open>Server_Context\<close> (\<open>context.rs\<close>, \<open>inquiry.rs\<close>, \<open>builtins.rs\<close>), \<open>Server_Session\<close>
    (\<open>session.rs\<close>) and \<open>Server_Serve\<close> (\<open>server.rs\<close>) model the server. Handlers and hooks are
    application code and appear as arbitrary programs, trees over the operations of the
    context that react to every outcome. \<open>Server_Props\<close>, \<open>Server_Dialogue\<close> and
    \<open>Server_Correct\<close> show that a session, whatever its handlers do, greets and then answers
    every command with exactly one final response in order, and that a session that fails sends
    at most a part of one more response, without the end of its final line; that inquiries
    hand out exactly what the client answers, and what an error reveals; \<open>Server_Serve\<close> shows
    the bound on concurrent sessions, that shutdown ends once the sessions have ended or
    yielded to the abort, which sessions can be left behind, and what causes each result.
  \<^item> \<open>End_To_End\<close> puts both sides together: a client that collects the answers to a list of
    commands against a server session, over a network that delivers prefixes of what was
    sent. The client's answers are the server's responses to the same commands, also when one
    side fails. \<open>Smooth_Run\<close>
    shows that the operations of both sides do succeed when nothing goes wrong, and gives
    the conversation the agreement is applied to.
  \<^item> \<open>Discovery\<close> (\<open>assuan-transport/src/endpoint.rs\<close>, \<open>tcp.rs\<close>, \<open>discovery.rs\<close>) and
    \<open>Unix_Listener\<close> (\<open>unix.rs\<close>, \<open>listener.rs\<close>) model endpoints, connecting, agent discovery
    and listeners, over the outcomes of system calls and an explicit file system: discovery
    returns exactly what the process printed however its output arrives, the native socket
    file is read exactly, and a Unix listener keeps to its private directory, its user and
    its own socket.
  \<^item> \<open>Windows_Pipes\<close> (\<open>windows/pipe.rs\<close>, \<open>windows/security.rs\<close>, \<open>stream.rs\<close>) models named pipes,
    the type-erased stream over arbitrary native streams and what discovery does on Windows: a listener's descriptor gives
    access to the current user alone, a pipe stream is released exactly once and not used
    afterwards. The interface \<open>closable\<close> says what a stream that can be shut down promises.
  \<^item> \<open>Macro_Literals\<close> (\<open>assuan-macros/src/sexpr.rs\<close>, \<open>command.rs\<close>, \<open>paths.rs\<close>) and
    \<open>Macro_Attribute\<close> (\<open>attribute.rs\<close>) model the procedural macros over the syntax they look
    at: which literals and functions they accept, that an emitted expression is canonical,
    that a generated handler is one the registry accepts, and the entry points.

  \<^bold>\<open>State, errors, loops.\<close> Structs are records and enums are datatypes with the names of the
  source. Mutable borrows are state passing: an operation takes and returns what it borrows.
  Guards that act in their destructor (\<open>IoOperation\<close>, \<open>ServerInquiry\<close>, transactions, the
  wiping guard of the channel) are written out on every exit, dropped futures included.
  A panic is a value, so that its absence is proved where the code relies on it. Loops are
  functions with a termination proof: the ones over the network end because each turn
  consumes part of the script (\<open>left\<close>, \<open>io_left\<close>, \<open>ss_left\<close>), so no fuel is needed and none
  is used. Lengths and counters are natural numbers with the machine's bound checked where
  the code checks it; error codes are 32-bit words.

  \<^bold>\<open>Parameters.\<close> The allocator is a predicate that says which reservations succeed; the
  iteration order of the registry's hash map is a rearrangement; the clock, the stream, the
  acceptor and the scheduler are scripts or events of the environment; the largest instant
  and the largest number of permits are numbers; what the syntax library takes as an
  identifier and which packages the manifest names are functions.

  The runtime drops an aborted session task only when it yields; that it does yield is an
  assumption of the theorem on shutdown, because the code cannot preempt it.

  \<^bold>\<open>Not modelled.\<close> A handler may drop a future of the context at any await point but cannot
  leak one with \<open>mem::forget\<close>; the name and the description of a handler do not change between
  two calls; the two output buffers of a discovery process are reserved in one step. Sockets, pipes and processes themselves and the Windows API, whose calls
  have their outcome from the environment; the syntax library behind the macros, whose trees are given and
  which prints the tokens; the default vectored write of a stream; the Debug output of the
  server; the crate roots, which re-export; and logging beyond what the
  accept loop records.
\<close>

end
